(* ===== verification/AttoPrelude.thy ===== *)
theory AttoPrelude
  imports Main "HOL-Library.Word" "HOL-Library.Disjoint_Sets"
begin

unbundle bit_operations_syntax

text \<open>
  Shared vocabulary of the development: the machine-integer types, undefined behaviour of
  the C++ abstract machine as a value (\<open>fault\<close>), the sequencing of steps that may fault, and
  the raw memory operations (\<open>memcpy\<close>, \<open>memset\<close>) on byte buffers with the frame lemmas that
  every proof about the arena uses.

  A byte of the program (\<open>char\<close>, \<open>std::byte\<close>) is an Isabelle \<^typ>\<open>char\<close>, which is exactly one
  octet; a \<open>std::string\<close> or \<open>std::string_view\<close> is a \<^typ>\<open>string\<close>.  Fields of type
  \<open>uint32_t\<close> and \<open>uint64_t\<close> keep their width.  A \<open>size_t\<close> that is the length of an object in
  memory is a \<^typ>\<open>nat\<close>; where the code's arithmetic on \<open>size_t\<close> can leave that range, the
  computation is done on \<^typ>\<open>64 word\<close>.
\<close>

section \<open>Collections of rewrite rules\<close>

named_theorems memory_simps \<open>reading and writing byte buffers\<close>
named_theorems run_simps \<open>sequencing of steps that may fault\<close>

section \<open>Machine integers\<close>

type_synonym u8 = "8 word"
type_synonym u16 = "16 word"
type_synonym u32 = "32 word"
type_synonym u64 = "64 word"

abbreviation nul :: char where
  "nul \<equiv> CHR 0x00"

lemma unat_word_of_nat_u32: "n < 4294967296 \<Longrightarrow> unat (word_of_nat n :: u32) = n"
  by (simp add: unat_of_nat)

lemma unat_word_of_nat_u64: "n < 18446744073709551616 \<Longrightarrow> unat (word_of_nat n :: u64) = n"
  by (simp add: unat_of_nat)

lemma unat_u32_bound: "unat (w :: u32) < 4294967296"
  using unsigned_less [of w] by simp

lemma unat_add_u32:
  "unat (a :: u32) + unat b < 4294967296 \<Longrightarrow> unat (a + b) = unat a + unat b"
  by (simp add: unat_word_ariths)

section \<open>Undefined behaviour as a value\<close>

text \<open>
  What the C++ standard leaves undefined, and the failing of an \<open>assert\<close> of a debug build,
  stops the model with a fault.
\<close>

datatype fault =
    Null_Dereference
  | Out_Of_Bounds
  | Division_By_Zero
  | Assertion_Failed

type_synonym 'a run = "fault + 'a"

definition bind_run :: "'a run \<Rightarrow> ('a \<Rightarrow> 'b run) \<Rightarrow> 'b run" where
  "bind_run m f = (case m of Inl e \<Rightarrow> Inl e | Inr x \<Rightarrow> f x)"

definition assert_run :: "bool \<Rightarrow> unit run" where
  "assert_run b = (if b then Inr () else Inl Assertion_Failed)"

lemma bind_run_Inl [simp, run_simps]: "bind_run (Inl e) f = Inl e"
  by (simp add: bind_run_def)

lemma bind_run_Inr [simp, run_simps]: "bind_run (Inr x) f = f x"
  by (simp add: bind_run_def)

lemma bind_run_eq_Inr [run_simps]:
  "bind_run m f = Inr y \<longleftrightarrow> (\<exists>x. m = Inr x \<and> f x = Inr y)"
  by (cases m) auto

lemma bind_run_eq_Inl:
  "bind_run m f = Inl e \<longleftrightarrow> m = Inl e \<or> (\<exists>x. m = Inr x \<and> f x = Inl e)"
  by (cases m) auto

lemma bind_runE:
  assumes "bind_run m f = Inr y"
  obtains x where "m = Inr x" and "f x = Inr y"
  using assms by (auto simp: bind_run_eq_Inr)

lemma bind_run_cong [fundef_cong]:
  "m = m' \<Longrightarrow> (\<And>x. m' = Inr x \<Longrightarrow> f x = g x) \<Longrightarrow> bind_run m f = bind_run m' g"
  by (cases m') auto

lemma assert_run_simps [simp, run_simps]:
  "assert_run True = Inr ()"
  "assert_run False = Inl Assertion_Failed"
  by (simp_all add: assert_run_def)

lemma assert_run_Inr [simp, run_simps]: "assert_run b = Inr x \<longleftrightarrow> b"
  by (cases b) (simp_all add: assert_run_def)

section \<open>Byte buffers\<close>

definition read_at :: "nat \<Rightarrow> nat \<Rightarrow> 'a list \<Rightarrow> 'a list" where
  "read_at off n buf = take n (drop off buf)"

definition write_at :: "nat \<Rightarrow> 'a list \<Rightarrow> 'a list \<Rightarrow> 'a list" where
  "write_at off src buf = take off buf @ src @ drop (off + length src) buf"

text \<open>\<open>std::memcpy\<close> into a buffer and \<open>std::memset\<close> of zero bytes: undefined outside it.\<close>

definition memcpy :: "string \<Rightarrow> nat \<Rightarrow> string \<Rightarrow> string run" where
  "memcpy buf off src =
     (if off + length src \<le> length buf then Inr (write_at off src buf) else Inl Out_Of_Bounds)"

definition memset0 :: "string \<Rightarrow> nat \<Rightarrow> nat \<Rightarrow> string run" where
  "memset0 buf off n =
     (if off + n \<le> length buf then Inr (write_at off (replicate n nul) buf)
      else Inl Out_Of_Bounds)"

lemma length_write_at [memory_simps]:
  "off + length src \<le> length buf \<Longrightarrow> length (write_at off src buf) = length buf"
  by (simp add: write_at_def)

lemma length_read_at [memory_simps]:
  "off + n \<le> length buf \<Longrightarrow> length (read_at off n buf) = n"
  by (simp add: read_at_def)

lemma read_at_0 [memory_simps, simp]: "read_at off 0 buf = []"
  by (simp add: read_at_def)

lemma nth_read_at [memory_simps]:
  "off + n \<le> length buf \<Longrightarrow> i < n \<Longrightarrow> read_at off n buf ! i = buf ! (off + i)"
  by (simp add: read_at_def)

lemma nth_write_at:
  "off + length src \<le> length buf \<Longrightarrow> i < length buf \<Longrightarrow>
   write_at off src buf ! i =
     (if off \<le> i \<and> i < off + length src then src ! (i - off) else buf ! i)"
  by (auto simp: write_at_def nth_append min_def)

lemma read_at_eq_iff:
  assumes "off + n \<le> length buf" and "off' + n \<le> length buf'"
  shows "read_at off n buf = read_at off' n buf' \<longleftrightarrow>
    (\<forall>i<n. buf ! (off + i) = buf' ! (off' + i))"
  using assms by (auto simp: list_eq_iff_nth_eq length_read_at nth_read_at)

lemma read_write_same [memory_simps]:
  "off + length src \<le> length buf \<Longrightarrow> read_at off (length src) (write_at off src buf) = src"
  by (simp add: read_at_def write_at_def)

lemma read_write_disjoint:
  assumes "off + length src \<le> length buf" and "off' + n \<le> length buf"
    and "off' + n \<le> off \<or> off + length src \<le> off'"
  shows "read_at off' n (write_at off src buf) = read_at off' n buf"
  using assms by (subst read_at_eq_iff) (auto simp: length_write_at nth_write_at)

lemma memcpy_ok: "off + length src \<le> length buf \<Longrightarrow> memcpy buf off src = Inr (write_at off src buf)"
  by (simp add: memcpy_def)

lemma memset0_ok:
  "off + n \<le> length buf \<Longrightarrow> memset0 buf off n = Inr (write_at off (replicate n nul) buf)"
  by (simp add: memset0_def)

section \<open>Lists by index\<close>

lemma bex_set_nth: "(\<exists>x \<in> set xs. P x) \<longleftrightarrow> (\<exists>i < length xs. P (xs ! i))"
  by (metis in_set_conv_nth)

section \<open>Options by their value\<close>

lemma option_eq_by_Some: "(\<And>v. x = Some v \<longleftrightarrow> y = Some v) \<Longrightarrow> x = y"
  by (metis not_None_eq)

section \<open>Families of disjoint regions\<close>

lemma disjoint_family_fun_upd:
  assumes "disjoint_family F" and "\<And>q. q \<noteq> p \<Longrightarrow> A \<inter> F q = {}"
  shows "disjoint_family (F(p := A))"
  using assms by (fastforce simp: disjoint_family_on_def)

lemma disjoint_family_subset_upd:
  assumes "disjoint_family F" and "A \<subseteq> F p"
  shows "disjoint_family (F(p := A))"
  using assms by (fastforce simp: disjoint_family_on_def)

end
