(* ===== verification/StringHeap.thy ===== *)
theory StringHeap
  imports AttoPrelude
begin

text \<open>
  The interface between the arena and its client, the hash map: strings live at references that
  occupy regions of memory.  A client owns a family of references with pairwise disjoint regions;
  the lemmas show what one operation does to the strings of the whole family.
\<close>

locale string_heap =
  fixes inv :: "'h \<Rightarrow> bool"
    and valid :: "'h \<Rightarrow> 'r \<Rightarrow> bool"
    and region :: "'r \<Rightarrow> 'a set"
    and str :: "'h \<Rightarrow> 'r \<Rightarrow> string"
    and nil :: "'r"
    and room :: "'h \<Rightarrow> string \<Rightarrow> bool"
    and chunks :: "'h \<Rightarrow> nat"
    and look :: "'h \<Rightarrow> 'r \<Rightarrow> string run"
    and put :: "'h \<Rightarrow> string \<Rightarrow> ('r \<times> 'h) run"
    and over :: "'h \<Rightarrow> 'r \<Rightarrow> string \<Rightarrow> ('r \<times> 'h) run"
    and free :: "'h \<Rightarrow> 'r \<Rightarrow> (bool \<times> 'h) run"
  assumes nil_law: "region nil = {}" "str h nil = []" "valid h nil"
    and look_law: "inv h \<Longrightarrow> valid h r \<Longrightarrow> look h r = Inr (str h r)"
    and put_law: "inv h \<Longrightarrow> room h s \<Longrightarrow> \<exists>r h'. put h s = Inr (r, h') \<and> inv h'
      \<and> valid h' r \<and> str h' r = s \<and> chunks h' \<le> Suc (chunks h)
      \<and> (\<forall>q. valid h q \<longrightarrow> valid h' q \<and> str h' q = str h q \<and> region r \<inter> region q = {})"
    and over_law: "inv h \<Longrightarrow> valid h p \<Longrightarrow> length s = length (str h p) \<Longrightarrow>
      \<exists>r h'. over h p s = Inr (r, h') \<and> inv h' \<and> valid h' r \<and> str h' r = s
      \<and> region r \<subseteq> region p \<and> chunks h' = chunks h
      \<and> (\<forall>q. valid h q \<longrightarrow> region p \<inter> region q = {} \<longrightarrow> valid h' q \<and> str h' q = str h q)"
    and free_law: "inv h \<Longrightarrow> valid h p \<Longrightarrow> \<exists>b h'. free h p = Inr (b, h') \<and> inv h' \<and> chunks h' = chunks h
      \<and> (\<forall>q. valid h q \<longrightarrow> region p \<inter> region q = {} \<longrightarrow> valid h' q \<and> str h' q = str h q)"
begin

definition owned :: "'h \<Rightarrow> ('i \<Rightarrow> 'r) \<Rightarrow> bool" where
  "owned h f \<longleftrightarrow> inv h \<and> (\<forall>i. valid h (f i)) \<and> disjoint_family (\<lambda>i. region (f i))"

definition contents :: "'h \<Rightarrow> ('i \<Rightarrow> 'r) \<Rightarrow> 'i \<Rightarrow> string" where
  "contents h f i = str h (f i)"

lemma ownedD:
  assumes "owned h f"
  shows "inv h" and "valid h (f i)" and "i \<noteq> j \<Longrightarrow> region (f i) \<inter> region (f j) = {}"
  using assms by (auto simp: owned_def disjoint_family_on_def)

lemma owned_none: "inv h \<Longrightarrow> owned h (\<lambda>_. nil)"
  by (simp add: owned_def nil_law disjoint_family_on_def)

lemma contents_none [simp]: "contents h (\<lambda>_. nil) = (\<lambda>_. [])"
  by (simp add: contents_def fun_eq_iff nil_law)

lemma owned_look: "owned h f \<Longrightarrow> look h (f i) = Inr (contents h f i)"
  by (simp add: owned_def look_law contents_def)

lemma owned_put:
  assumes own: "owned h f" and room: "room h s"
  obtains r h' where "put h s = Inr (r, h')" and "owned h' (f(i := r))"
    and "contents h' (f(i := r)) = (contents h f)(i := s)" and "chunks h' \<le> Suc (chunks h)"
proof -
  from put_law [OF ownedD(1) [OF own] room] obtain r h' where
    r: "put h s = Inr (r, h')" "inv h'" "valid h' r" "str h' r = s" "chunks h' \<le> Suc (chunks h)" and
    q: "\<And>q. valid h q \<Longrightarrow> valid h' q \<and> str h' q = str h q \<and> region r \<inter> region q = {}"
    by blast
  have "disjoint_family ((\<lambda>j. region (f j))(i := region r))"
    using own q by (intro disjoint_family_fun_upd) (auto simp: owned_def)
  then have "owned h' (f(i := r))"
    using r q own by (simp add: owned_def fun_upd_def if_distrib cong: if_cong)
  moreover have "contents h' (f(i := r)) = (contents h f)(i := s)"
    using r q own by (simp add: contents_def owned_def fun_eq_iff)
  ultimately show thesis using r(5) by (rule that [OF r(1)])
qed

lemma owned_over:
  assumes own: "owned h f" and len: "length s = length (contents h f i)"
  obtains r h' where "over h (f i) s = Inr (r, h')" and "owned h' (f(i := r))"
    and "contents h' (f(i := r)) = (contents h f)(i := s)" and "chunks h' = chunks h"
proof -
  from over_law [OF ownedD(1,2) [OF own], of s i] len obtain r h' where
    r: "over h (f i) s = Inr (r, h')" "inv h'" "valid h' r" "str h' r = s"
       "region r \<subseteq> region (f i)" "chunks h' = chunks h" and
    q: "\<And>q. valid h q \<Longrightarrow> region (f i) \<inter> region q = {} \<Longrightarrow> valid h' q \<and> str h' q = str h q"
    unfolding contents_def by blast
  have "disjoint_family ((\<lambda>j. region (f j))(i := region r))"
    using own r by (intro disjoint_family_subset_upd) (auto simp: owned_def)
  then have "owned h' (f(i := r))"
    using r q own ownedD(3) [OF own, of i]
    by (auto simp add: owned_def fun_upd_def if_distrib cong: if_cong)
  moreover have "contents h' (f(i := r)) = (contents h f)(i := s)"
    using r q own ownedD(3) [OF own, of i] by (auto simp: contents_def owned_def fun_eq_iff)
  ultimately show thesis using r(6) by (rule that [OF r(1)])
qed

lemma owned_free:
  assumes own: "owned h f"
  obtains b h' where "free h (f i) = Inr (b, h')" and "owned h' (f(i := nil))"
    and "contents h' (f(i := nil)) = (contents h f)(i := [])" and "chunks h' = chunks h"
proof -
  from free_law [OF ownedD(1,2) [OF own]] obtain b h' where
    r: "free h (f i) = Inr (b, h')" "inv h'" "chunks h' = chunks h" and
    q: "\<And>q. valid h q \<Longrightarrow> region (f i) \<inter> region q = {} \<Longrightarrow> valid h' q \<and> str h' q = str h q"
    by blast
  have "disjoint_family ((\<lambda>j. region (f j))(i := region nil))"
    using own by (intro disjoint_family_subset_upd) (auto simp: owned_def nil_law)
  then have "owned h' (f(i := nil))"
    using r q own ownedD(3) [OF own, of i]
    by (auto simp add: owned_def fun_upd_def if_distrib nil_law cong: if_cong)
  moreover have "contents h' (f(i := nil)) = (contents h f)(i := [])"
    using r q own ownedD(3) [OF own, of i]
    by (auto simp: contents_def owned_def fun_eq_iff nil_law)
  ultimately show thesis using r(3) by (rule that [OF r(1)])
qed

lemma owned_drop:
  assumes "owned h f"
  shows "owned h (f(i := nil))" and "contents h (f(i := nil)) = (contents h f)(i := [])"
proof -
  have "disjoint_family ((\<lambda>j. region (f j))(i := region nil))"
    using assms by (intro disjoint_family_subset_upd) (auto simp: owned_def nil_law)
  then show "owned h (f(i := nil))"
    using assms by (auto simp add: owned_def fun_upd_def if_distrib nil_law cong: if_cong)
  show "contents h (f(i := nil)) = (contents h f)(i := [])"
    by (simp add: contents_def fun_eq_iff nil_law)
qed

end

end
