(* ===== verification/StringArena.thy ===== *)
theory StringArena
  imports StringHeap
begin

text \<open>
  \<open>StringArena\<close> (server/include/attokv_server/string_arena.h, server/src/string_arena.cpp):
  strings stored in fixed-capacity blocks and named by \<open>StringRef\<close>.  The buffer of a block is
  the list \<open>blk_data\<close> of its \<open>capacity\<close> bytes; \<open>m_blocks\<close> is the vector of blocks.
\<close>

section \<open>Data\<close>

record string_ref =
  ref_block :: u32
  ref_offset :: u32
  ref_size :: u32

record block =
  blk_data :: string
  blk_capacity :: nat
  blk_back :: nat
  blk_dead :: nat

record string_arena =
  m_block_size :: nat
  m_dead :: nat
  m_blocks :: "block list"

record compacted_layout =
  m_block_offsets :: "u32 list"
  m_layout_size :: nat

text \<open>\<open>StringRef{}\<close>, the value-initialised reference.\<close>

definition null_ref :: string_ref where
  "null_ref = \<lparr>ref_block = 0, ref_offset = 0, ref_size = 0\<rparr>"

definition ref_empty :: "string_ref \<Rightarrow> bool" where
  "ref_empty r \<longleftrightarrow> ref_size r = 0"

section \<open>Operations\<close>

definition new_block :: "nat \<Rightarrow> block" where
  "new_block cap =
     \<lparr>blk_data = replicate cap nul, blk_capacity = cap, blk_back = 0, blk_dead = 0\<rparr>"

definition blk_remaining :: "block \<Rightarrow> nat" where
  "blk_remaining b = blk_capacity b - blk_back b"

definition current_block :: "string_arena \<Rightarrow> block" where
  "current_block ar = last (m_blocks ar)"

definition allocate_block :: "nat \<Rightarrow> string_arena \<Rightarrow> string_arena" where
  "allocate_block cap ar = ar\<lparr>m_blocks := m_blocks ar @ [new_block cap]\<rparr>"

definition new_arena :: "nat \<Rightarrow> string_arena" where
  "new_arena block_size =
     allocate_block block_size \<lparr>m_block_size = block_size, m_dead = 0, m_blocks = []\<rparr>"

definition set_block :: "nat \<Rightarrow> block \<Rightarrow> string_arena \<Rightarrow> string_arena" where
  "set_block i b ar = ar\<lparr>m_blocks := (m_blocks ar)[i := b]\<rparr>"

definition arena_store :: "string_arena \<Rightarrow> string \<Rightarrow> (string_ref \<times> string_arena) run" where
  "arena_store ar bytes =
     (if bytes = [] then Inr (null_ref, ar)
      else
        let ar1 = (if m_blocks ar = [] \<or> blk_remaining (current_block ar) < length bytes
                   then allocate_block (max (m_block_size ar) (length bytes)) ar
                   else ar);
            blk = current_block ar1;
            offset = blk_back blk;
            size = length bytes
        in bind_run (memcpy (blk_data blk) offset bytes) (\<lambda>data.
             Inr (\<lparr>ref_block = word_of_nat (length (m_blocks ar1) - 1),
                   ref_offset = word_of_nat offset,
                   ref_size = word_of_nat size\<rparr>,
                  set_block (length (m_blocks ar1) - 1)
                    (blk\<lparr>blk_data := data, blk_back := offset + size\<rparr>) ar1)))"

text \<open>
  \<open>difference\<close> is computed on \<open>size_t\<close>: the subtraction \<open>string.size() - ref.size\<close> is done
  modulo \<open>2 ^ 64\<close>, and \<open>memset\<close> is given that number of bytes.
\<close>

definition overwrite :: "string_arena \<Rightarrow> string_ref \<Rightarrow> string \<Rightarrow> (string_ref \<times> string_arena) run" where
  "overwrite ar ref str =
     bind_run (assert_run (length str \<le> unat (ref_size ref))) (\<lambda>_.
     if ref_empty ref then Inr (null_ref, ar)
     else if length (m_blocks ar) \<le> unat (ref_block ref) then Inr (null_ref, ar)
     else
       let blk = m_blocks ar ! unat (ref_block ref)
       in if blk_back blk < unat (ref_offset ref + ref_size ref) then Inr (null_ref, ar)
          else bind_run (memcpy (blk_data blk) (unat (ref_offset ref)) str) (\<lambda>data.
            let difference = (word_of_nat (length str) :: u64) - ucast (ref_size ref)
            in bind_run (if difference > 0
                         then memset0 data (unat (ref_offset ref) + length str) (unat difference)
                         else Inr data) (\<lambda>data'.
               Inr (\<lparr>ref_block = ref_block ref, ref_offset = ref_offset ref,
                     ref_size = word_of_nat (length str)\<rparr>,
                    set_block (unat (ref_block ref)) (blk\<lparr>blk_data := data'\<rparr>) ar))))"

definition arena_remove :: "string_arena \<Rightarrow> string_ref \<Rightarrow> (bool \<times> string_arena) run" where
  "arena_remove ar ref =
     (if length (m_blocks ar) \<le> unat (ref_block ref) then Inr (False, ar)
      else
        let blk = m_blocks ar ! unat (ref_block ref)
        in if blk_back blk \<le> unat (ref_offset ref)
              \<or> blk_back blk - unat (ref_offset ref) < unat (ref_size ref)
           then Inr (False, ar)
           else bind_run (memset0 (blk_data blk) (unat (ref_offset ref)) (unat (ref_size ref)))
             (\<lambda>data.
               let ar' = set_block (unat (ref_block ref))
                           (blk\<lparr>blk_data := data, blk_dead := blk_dead blk + unat (ref_size ref)\<rparr>) ar
               in Inr (True, ar'\<lparr>m_dead := m_dead ar' + unat (ref_size ref)\<rparr>)))"

definition arena_capacity :: "string_arena \<Rightarrow> nat" where
  "arena_capacity ar = foldl (\<lambda>c b. c + blk_capacity b) 0 (m_blocks ar)"

definition should_reallocate :: "string_arena \<Rightarrow> bool" where
  "should_reallocate ar \<longleftrightarrow> arena_capacity ar \<le> m_dead ar * 2"

definition used_size :: "string_arena \<Rightarrow> nat" where
  "used_size ar = foldl (\<lambda>c b. c + blk_back b) 0 (m_blocks ar)"

text \<open>
  \<open>view\<close> returns a \<open>string_view\<close> on the bytes; the model reads them at once and faults where
  the view would reach outside the buffer.
\<close>

definition arena_view :: "string_arena \<Rightarrow> string_ref \<Rightarrow> string run" where
  "arena_view ar ref =
     (if ref_empty ref then Inr []
      else if length (m_blocks ar) \<le> unat (ref_block ref) then Inr []
      else
        let blk = m_blocks ar ! unat (ref_block ref)
        in if blk_back blk < unat (ref_offset ref + ref_size ref) then Inr []
           else if length (blk_data blk) < unat (ref_offset ref) + unat (ref_size ref)
           then Inl Out_Of_Bounds
           else Inr (read_at (unat (ref_offset ref)) (unat (ref_size ref)) (blk_data blk)))"

text \<open>The copying loop of \<open>compact_into\<close>, over the blocks from index \<open>i\<close>.\<close>

fun compact_loop ::
  "block list \<Rightarrow> nat \<Rightarrow> nat \<Rightarrow> string \<Rightarrow> u32 list \<Rightarrow> (u32 list \<times> string) run" where
  "compact_loop [] i processed dest offs = Inr (offs, dest)"
| "compact_loop (b # bs) i processed dest offs =
     (if length (blk_data b) < blk_back b then Inl Out_Of_Bounds
      else bind_run (memcpy dest processed (take (blk_back b) (blk_data b))) (\<lambda>dest'.
        compact_loop bs (Suc i) (processed + blk_back b) dest'
          (offs[i := word_of_nat processed])))"

definition compact_into :: "string_arena \<Rightarrow> string \<Rightarrow> (compacted_layout \<times> string) run" where
  "compact_into ar dest =
     bind_run (assert_run (length dest = used_size ar)) (\<lambda>_.
     bind_run (compact_loop (m_blocks ar) 0 0 dest (replicate (length (m_blocks ar)) 0))
       (\<lambda>(offs, dest').
         Inr (\<lparr>m_block_offsets = offs, m_layout_size = length dest\<rparr>, dest')))"

definition layout_size :: "compacted_layout \<Rightarrow> nat" where
  "layout_size l = m_layout_size l"

definition offset_of :: "compacted_layout \<Rightarrow> string_ref \<Rightarrow> u32 run" where
  "offset_of l ref =
     bind_run (assert_run (unat (ref_block ref) < length (m_block_offsets l))) (\<lambda>_.
       Inr (m_block_offsets l ! unat (ref_block ref) + ref_offset ref))"

section \<open>Well-formed arenas\<close>

definition wf_block :: "block \<Rightarrow> bool" where
  "wf_block b \<longleftrightarrow> length (blk_data b) = blk_capacity b \<and> blk_back b \<le> blk_capacity b
     \<and> blk_capacity b < 4294967296"

definition wf_arena :: "string_arena \<Rightarrow> bool" where
  "wf_arena ar \<longleftrightarrow> (\<forall>b \<in> set (m_blocks ar). wf_block b)
     \<and> length (m_blocks ar) \<le> 4294967296 \<and> m_block_size ar < 4294967296"

definition valid_ref :: "string_arena \<Rightarrow> string_ref \<Rightarrow> bool" where
  "valid_ref ar r \<longleftrightarrow> ref_empty r \<or>
     (unat (ref_block r) < length (m_blocks ar)
      \<and> unat (ref_offset r) + unat (ref_size r)
          \<le> blk_back (m_blocks ar ! unat (ref_block r)))"

definition ref_region :: "string_ref \<Rightarrow> (nat \<times> nat) set" where
  "ref_region r =
     {unat (ref_block r)} \<times> {unat (ref_offset r) ..< unat (ref_offset r) + unat (ref_size r)}"

definition ref_str :: "string_arena \<Rightarrow> string_ref \<Rightarrow> string" where
  "ref_str ar r =
     (if ref_empty r then []
      else read_at (unat (ref_offset r)) (unat (ref_size r))
             (blk_data (m_blocks ar ! unat (ref_block r))))"

definition arena_room :: "string_arena \<Rightarrow> string \<Rightarrow> bool" where
  "arena_room ar s \<longleftrightarrow> length s < 4294967296 \<and> length (m_blocks ar) < 4294967296"

lemma null_ref_simps [simp]:
  "ref_empty null_ref" "valid_ref ar null_ref" "ref_region null_ref = {}" "ref_str ar null_ref = []"
  "ref_size null_ref = 0" "ref_block null_ref = 0" "ref_offset null_ref = 0"
  by (simp_all add: null_ref_def ref_empty_def valid_ref_def ref_region_def ref_str_def)

lemma wf_arenaD:
  assumes "wf_arena ar" and "i < length (m_blocks ar)"
  shows "length (blk_data (m_blocks ar ! i)) = blk_capacity (m_blocks ar ! i)"
    and "blk_back (m_blocks ar ! i) \<le> blk_capacity (m_blocks ar ! i)"
    and "blk_capacity (m_blocks ar ! i) < 4294967296"
  using assms by (auto simp: wf_arena_def wf_block_def)

lemma valid_ref_sum:
  assumes "wf_arena ar" and "valid_ref ar r" and "\<not> ref_empty r"
  shows "unat (ref_offset r + ref_size r) = unat (ref_offset r) + unat (ref_size r)"
proof -
  have "unat (ref_offset r) + unat (ref_size r) < 4294967296"
    using assms wf_arenaD [OF assms(1), of "unat (ref_block r)"] by (auto simp: valid_ref_def)
  then show ?thesis by (rule unat_add_u32)
qed

lemma arena_view_valid:
  assumes "wf_arena ar" and "valid_ref ar r"
  shows "arena_view ar r = Inr (ref_str ar r)"
  using assms wf_arenaD [OF assms(1), of "unat (ref_block r)"] valid_ref_sum [OF assms]
  by (auto simp: arena_view_def ref_str_def valid_ref_def Let_def)

lemma length_ref_str:
  assumes "wf_arena ar" and "valid_ref ar r"
  shows "length (ref_str ar r) = unat (ref_size r)"
  using assms wf_arenaD [OF assms(1), of "unat (ref_block r)"]
  by (auto simp: ref_str_def valid_ref_def ref_empty_def length_read_at)

lemma ref_str_eq_Nil:
  assumes "wf_arena ar" and "valid_ref ar r"
  shows "ref_str ar r = [] \<longleftrightarrow> ref_empty r"
  using length_ref_str [OF assms] by (auto simp: ref_empty_def unat_eq_0)

lemma set_block_simps [simp]:
  "m_blocks (set_block i b ar) = (m_blocks ar)[i := b]"
  "m_block_size (set_block i b ar) = m_block_size ar"
  "m_dead (set_block i b ar) = m_dead ar"
  by (simp_all add: set_block_def)

lemma allocate_block_simps [simp]:
  "m_blocks (allocate_block c ar) = m_blocks ar @ [new_block c]"
  "m_block_size (allocate_block c ar) = m_block_size ar"
  "m_dead (allocate_block c ar) = m_dead ar"
  by (simp_all add: allocate_block_def)

lemma new_block_simps [simp]:
  "blk_data (new_block c) = replicate c nul" "blk_capacity (new_block c) = c"
  "blk_back (new_block c) = 0" "blk_dead (new_block c) = 0"
  by (simp_all add: new_block_def)

lemma wf_allocate_block:
  "wf_arena ar \<Longrightarrow> length (m_blocks ar) < 4294967296 \<Longrightarrow> c < 4294967296 \<Longrightarrow>
   wf_arena (allocate_block c ar)"
  by (auto simp: wf_arena_def wf_block_def)

lemma wf_set_block:
  "wf_arena ar \<Longrightarrow> wf_block b \<Longrightarrow> wf_arena (set_block i b ar)"
  by (auto simp: wf_arena_def dest: set_update_subset_insert [THEN subsetD])

lemma allocate_block_ref:
  assumes "valid_ref ar r"
  shows "valid_ref (allocate_block c ar) r" and "ref_str (allocate_block c ar) r = ref_str ar r"
  using assms by (auto simp: valid_ref_def ref_str_def nth_append)

text \<open>
  Writing a run of bytes into one block leaves every valid reference alone whose region does not
  meet the written range.
\<close>

lemma set_block_ref:
  assumes wf: "wf_arena ar" and v: "valid_ref ar r"
    and bk: "blk_back (m_blocks ar ! i) \<le> blk_back b"
    and data: "blk_data b = write_at off src (blk_data (m_blocks ar ! i))"
    and fits: "off + length src \<le> length (blk_data (m_blocks ar ! i))"
    and disj: "({i} \<times> {off ..< off + length src}) \<inter> ref_region r = {}"
  shows "valid_ref (set_block i b ar) r" and "ref_str (set_block i b ar) r = ref_str ar r"
proof -
  show "valid_ref (set_block i b ar) r"
    using v bk by (cases "unat (ref_block r) = i") (auto simp: valid_ref_def)
  show "ref_str (set_block i b ar) r = ref_str ar r"
  proof (cases "ref_empty r \<or> unat (ref_block r) \<noteq> i")
    case True
    then show ?thesis by (auto simp: ref_str_def)
  next
    case False
    then have i: "unat (ref_block r) = i" and ne: "\<not> ref_empty r" by auto
    with v have lt: "i < length (m_blocks ar)"
      and le: "unat (ref_offset r) + unat (ref_size r) \<le> blk_back (m_blocks ar ! i)"
      by (auto simp: valid_ref_def)
    have pos: "0 < unat (ref_size r)" using ne by (simp add: ref_empty_def unat_gt_0)
    have sep: "unat (ref_offset r) + unat (ref_size r) \<le> off \<or> off + length src \<le> unat (ref_offset r)
        \<or> src = []"
    proof (rule ccontr)
      assume "\<not> ?thesis"
      then have "(i, max off (unat (ref_offset r)))
          \<in> ({i} \<times> {off ..< off + length src}) \<inter> ref_region r"
        using i pos by (auto simp: ref_region_def)
      with disj show False by blast
    qed
    have "read_at (unat (ref_offset r)) (unat (ref_size r))
            (write_at off src (blk_data (m_blocks ar ! i)))
        = read_at (unat (ref_offset r)) (unat (ref_size r)) (blk_data (m_blocks ar ! i))"
    proof (cases "src = []")
      case True
      then show ?thesis by (simp add: write_at_def)
    next
      case False
      then show ?thesis
        using sep fits le wf_arenaD [OF wf lt] by (intro read_write_disjoint) auto
    qed
    then show ?thesis using i lt ne data by (simp add: ref_str_def)
  qed
qed

subsection \<open>Storing\<close>

text \<open>The write into the current block, once it has room.\<close>

lemma store_current:
  assumes wf: "wf_arena ar" and ne: "m_blocks ar \<noteq> []" and s: "s \<noteq> []"
    and room: "length s \<le> blk_remaining (current_block ar)"
  defines "i \<equiv> length (m_blocks ar) - 1"
  defines "b \<equiv> m_blocks ar ! i"
  defines "b' \<equiv> b\<lparr>blk_data := write_at (blk_back b) s (blk_data b), blk_back := blk_back b + length s\<rparr>"
  defines "r \<equiv> \<lparr>ref_block = word_of_nat i, ref_offset = word_of_nat (blk_back b),
                 ref_size = word_of_nat (length s)\<rparr>"
  shows "memcpy (blk_data b) (blk_back b) s = Inr (blk_data b')"
    and "wf_arena (set_block i b' ar)"
    and "valid_ref (set_block i b' ar) r"
    and "ref_str (set_block i b' ar) r = s"
    and "valid_ref ar q \<Longrightarrow> valid_ref (set_block i b' ar) q"
    and "valid_ref ar q \<Longrightarrow> ref_str (set_block i b' ar) q = ref_str ar q"
    and "valid_ref ar q \<Longrightarrow> ref_region r \<inter> ref_region q = {}"
proof -
  have lt: "i < length (m_blocks ar)" using ne by (simp add: i_def)
  have "current_block ar = b" using ne by (simp add: current_block_def b_def i_def last_conv_nth)
  with room wf_arenaD [OF wf lt] have fits: "blk_back b + length s \<le> length (blk_data b)"
    and cap: "length (blk_data b) = blk_capacity b" "blk_capacity b < 4294967296"
    by (auto simp: blk_remaining_def b_def)
  show "memcpy (blk_data b) (blk_back b) s = Inr (blk_data b')"
    using fits by (simp add: memcpy_ok b'_def)
  have wfb: "wf_block b'"
    using fits cap by (simp add: wf_block_def b'_def length_write_at)
  show "wf_arena (set_block i b' ar)" using wf wfb by (rule wf_set_block)
  have "i < 4294967296" using lt wf by (simp add: wf_arena_def)
  then have r: "unat (ref_block r) = i" "unat (ref_offset r) = blk_back b"
      "unat (ref_size r) = length s"
    using fits cap by (simp_all add: r_def unat_word_of_nat_u32)
  then have rne: "\<not> ref_empty r" using s by (auto simp: ref_empty_def unat_eq_0)
  show "valid_ref (set_block i b' ar) r"
    using lt r by (simp add: valid_ref_def b'_def)
  show "ref_str (set_block i b' ar) r = s"
    using lt r rne fits by (simp add: ref_str_def b'_def read_write_same)
  show dis: "ref_region r \<inter> ref_region q = {}" if "valid_ref ar q" for q
    using that r by (auto simp: ref_region_def valid_ref_def b_def ref_empty_def)
  show "valid_ref (set_block i b' ar) q" if "valid_ref ar q"
    using dis [OF that] r fits
    by (intro set_block_ref [OF wf that]) (auto simp: b'_def b_def ref_region_def)
  show "ref_str (set_block i b' ar) q = ref_str ar q" if "valid_ref ar q"
    using dis [OF that] r fits
    by (intro set_block_ref [OF wf that, where off = "blk_back b" and src = s])
       (auto simp: b'_def b_def ref_region_def)
qed

lemma arena_store_Nil [simp]: "arena_store ar [] = Inr (null_ref, ar)"
  by (simp add: arena_store_def)

lemma arena_store_ok:
  assumes wf: "wf_arena ar" and room: "arena_room ar s"
  obtains r ar' where "arena_store ar s = Inr (r, ar')" and "wf_arena ar'"
    and "valid_ref ar' r" and "ref_str ar' r = s"
    and "length (m_blocks ar') \<le> Suc (length (m_blocks ar))"
    and "\<And>q. valid_ref ar q \<Longrightarrow> valid_ref ar' q"
    and "\<And>q. valid_ref ar q \<Longrightarrow> ref_str ar' q = ref_str ar q"
    and "\<And>q. valid_ref ar q \<Longrightarrow> ref_region r \<inter> ref_region q = {}"
proof (cases "s = []")
  case True
  then show thesis using that [of null_ref ar] wf by simp
next
  case False
  define ar1 where "ar1 = (if m_blocks ar = [] \<or> blk_remaining (current_block ar) < length s
      then allocate_block (max (m_block_size ar) (length s)) ar else ar)"
  have wf1: "wf_arena ar1"
    using wf room by (auto simp: ar1_def arena_room_def wf_arena_def [of ar] intro!: wf_allocate_block)
  have ne1: "m_blocks ar1 \<noteq> []" by (simp add: ar1_def)
  have room1: "length s \<le> blk_remaining (current_block ar1)"
    by (auto simp: ar1_def current_block_def blk_remaining_def)
  have keep: "valid_ref ar1 q" "ref_str ar1 q = ref_str ar q" if "valid_ref ar q" for q
    using that by (auto simp: ar1_def allocate_block_ref)
  have cur: "current_block ar1 = m_blocks ar1 ! (length (m_blocks ar1) - 1)"
    using ne1 by (simp add: current_block_def last_conv_nth)
  define i where "i = length (m_blocks ar1) - 1"
  define b where "b = m_blocks ar1 ! i"
  define b' where
    "b' = b\<lparr>blk_data := write_at (blk_back b) s (blk_data b), blk_back := blk_back b + length s\<rparr>"
  define r :: string_ref where "r = \<lparr>ref_block = word_of_nat i, ref_offset = word_of_nat (blk_back b),
                      ref_size = word_of_nat (length s)\<rparr>"
  note sc = store_current [OF wf1 ne1 False room1, folded i_def, folded b_def,
      folded b'_def r_def]
  have eq: "arena_store ar s = Inr (r, set_block i b' ar1)"
    using False sc(1) unfolding arena_store_def ar1_def [symmetric] Let_def cur i_def [symmetric]
      b_def [symmetric] by (simp add: r_def b'_def)
  show thesis
    by (rule that [OF eq sc(2-4)]) (use sc(5-7) keep in \<open>auto simp: ar1_def\<close>)
qed

subsection \<open>Overwriting\<close>

lemma overwrite_same_size:
  assumes wf: "wf_arena ar" and v: "valid_ref ar ref" and len: "length s = unat (ref_size ref)"
  obtains r ar' where "overwrite ar ref s = Inr (r, ar')" and "wf_arena ar'"
    and "valid_ref ar' r" and "ref_str ar' r = s" and "ref_region r \<subseteq> ref_region ref"
    and "length (m_blocks ar') = length (m_blocks ar)"
    and "\<And>q. valid_ref ar q \<Longrightarrow> ref_region ref \<inter> ref_region q = {} \<Longrightarrow> valid_ref ar' q"
    and "\<And>q. valid_ref ar q \<Longrightarrow> ref_region ref \<inter> ref_region q = {} \<Longrightarrow>
           ref_str ar' q = ref_str ar q"
proof (cases "ref_empty ref")
  case True
  then have "overwrite ar ref s = Inr (null_ref, ar)" and "s = []"
    using len by (simp_all add: overwrite_def ref_empty_def)
  with wf show thesis by (intro that) auto
next
  case False
  define i where "i = unat (ref_block ref)"
  define b where "b = m_blocks ar ! i"
  define b' where "b' = b\<lparr>blk_data := write_at (unat (ref_offset ref)) s (blk_data b)\<rparr>"
  have lt: "i < length (m_blocks ar)" and le: "unat (ref_offset ref) + unat (ref_size ref) \<le> blk_back b"
    using v False by (auto simp: valid_ref_def i_def b_def)
  note wfb = wf_arenaD [OF wf lt, folded b_def]
  have fits: "unat (ref_offset ref) + length s \<le> length (blk_data b)"
    using le wfb len by simp
  have ref: "\<lparr>ref_block = ref_block ref, ref_offset = ref_offset ref, ref_size = word_of_nat (length s)\<rparr> = ref"
    using len by simp
  have eq: "overwrite ar ref s = Inr (ref, set_block i b' ar)"
    using False lt le fits len valid_ref_sum [OF wf v False]
    by (simp add: overwrite_def i_def [symmetric] b_def [symmetric] Let_def memcpy_ok b'_def
        ref_empty_def)
  have wfb': "wf_block b'" using wfb fits by (simp add: wf_block_def b'_def length_write_at)
  have frame: "valid_ref (set_block i b' ar) q" "ref_str (set_block i b' ar) q = ref_str ar q"
    if q: "valid_ref ar q" "ref_region ref \<inter> ref_region q = {}" for q
  proof -
    have "({i} \<times> {unat (ref_offset ref) ..< unat (ref_offset ref) + length s}) \<inter> ref_region q = {}"
      using q(2) by (simp add: ref_region_def [of ref] i_def len)
    note fr = set_block_ref [OF wf q(1) _ _ _ this, of b', folded b_def]
    show "valid_ref (set_block i b' ar) q" and "ref_str (set_block i b' ar) q = ref_str ar q"
      using fr fits by (simp_all add: b'_def)
  qed
  show thesis
  proof (rule that [OF eq wf_set_block [OF wf wfb']])
    show "valid_ref (set_block i b' ar) ref"
      using lt le by (simp add: valid_ref_def i_def [symmetric] b'_def)
    show "ref_str (set_block i b' ar) ref = s"
      using False lt fits len read_write_same [of "unat (ref_offset ref)" s "blk_data b"]
      by (simp add: ref_str_def i_def [symmetric] b'_def)
  qed (use frame in auto)
qed

text \<open>
  With a strictly shorter string \<open>size_t difference\<close> wraps around: the number of bytes handed to
  \<open>memset\<close> exceeds every block.
\<close>

lemma size_difference_wraps:
  assumes "n < unat (w :: u32)"
  shows "unat ((word_of_nat n :: u64) - ucast w) = 18446744073709551616 - (unat w - n)"
proof -
  have "unat w < 4294967296" by (rule unat_u32_bound)
  then have n: "unat (word_of_nat n :: u64) = n" and w: "unat (ucast w :: u64) = unat w"
    using assms by (simp_all add: unat_word_of_nat_u64 unsigned_ucast_eq take_bit_nat_eq_self)
  show ?thesis
    using assms \<open>unat w < 4294967296\<close> by (simp add: unat_sub_if' n w)
qed

lemma overwrite_shorter:
  assumes wf: "wf_arena ar" and v: "valid_ref ar ref" and len: "length s < unat (ref_size ref)"
  shows "overwrite ar ref s = Inl Out_Of_Bounds"
proof -
  have ne: "\<not> ref_empty ref" using len by (auto simp: ref_empty_def)
  define i where "i = unat (ref_block ref)"
  define b where "b = m_blocks ar ! i"
  define d where "d = (word_of_nat (length s) :: u64) - ucast (ref_size ref)"
  have lt: "i < length (m_blocks ar)" and le: "unat (ref_offset ref) + unat (ref_size ref) \<le> blk_back b"
    using v ne by (auto simp: valid_ref_def i_def b_def)
  note wfb = wf_arenaD [OF wf lt, folded b_def]
  have fits: "unat (ref_offset ref) + length s \<le> length (blk_data b)"
    using le wfb len by simp
  have d: "unat d = 18446744073709551616 - (unat (ref_size ref) - length s)"
    unfolding d_def by (rule size_difference_wraps [OF len])
  have big: "4294967296 \<le> unat d" using d unat_u32_bound [of "ref_size ref"] by simp
  then have pos: "d > 0" by (auto simp: word_gt_0)
  have "\<not> unat (ref_offset ref) + length s + unat d \<le> length (blk_data b)"
    using big wfb by simp
  then show ?thesis
    using ne lt le fits len pos valid_ref_sum [OF wf v ne]
    by (simp add: overwrite_def i_def [symmetric] b_def [symmetric] Let_def memcpy_ok memset0_def
        length_write_at d_def [symmetric])
qed

subsection \<open>Removing\<close>

lemma arena_remove_ok:
  assumes wf: "wf_arena ar" and v: "valid_ref ar ref"
  obtains flag ar' where "arena_remove ar ref = Inr (flag, ar')" and "wf_arena ar'"
    and "\<not> ref_empty ref \<Longrightarrow> flag"
    and "length (m_blocks ar') = length (m_blocks ar)"
    and "m_dead ar' = m_dead ar + unat (ref_size ref)"
    and "\<And>q. valid_ref ar q \<Longrightarrow> ref_region ref \<inter> ref_region q = {} \<Longrightarrow> valid_ref ar' q"
    and "\<And>q. valid_ref ar q \<Longrightarrow> ref_region ref \<inter> ref_region q = {} \<Longrightarrow>
           ref_str ar' q = ref_str ar q"
proof -
  define i where "i = unat (ref_block ref)"
  define b where "b = m_blocks ar ! i"
  show thesis
  proof (cases "length (m_blocks ar) \<le> i \<or> blk_back b \<le> unat (ref_offset ref)
      \<or> blk_back b - unat (ref_offset ref) < unat (ref_size ref)")
    case True
    then have e: "ref_empty ref"
      using v unat_gt_0 [of "ref_size ref"] by (auto simp: valid_ref_def i_def b_def ref_empty_def)
    have eq: "arena_remove ar ref = Inr (False, ar)"
      using True by (auto simp: arena_remove_def i_def b_def)
    show thesis by (rule that [OF eq wf]) (use e in \<open>auto simp: ref_empty_def\<close>)
  next
    case False
    define src where "src = replicate (unat (ref_size ref)) nul"
    define b' where "b' = b\<lparr>blk_data := write_at (unat (ref_offset ref)) src (blk_data b),
        blk_dead := blk_dead b + unat (ref_size ref)\<rparr>"
    define ar' where "ar' = (set_block i b' ar)\<lparr>m_dead := m_dead ar + unat (ref_size ref)\<rparr>"
    from False have lt: "i < length (m_blocks ar)" and "unat (ref_offset ref) < blk_back b"
      and "unat (ref_size ref) \<le> blk_back b - unat (ref_offset ref)"
      by simp_all
    then have le: "unat (ref_offset ref) + unat (ref_size ref) \<le> blk_back b" by linarith
    note wfb = wf_arenaD [OF wf lt, folded b_def]
    have fits: "unat (ref_offset ref) + length src \<le> length (blk_data b)"
      using le wfb by (simp add: src_def)
    have eq: "arena_remove ar ref = Inr (True, ar')"
      using False fits
      by (simp add: arena_remove_def i_def [symmetric] b_def [symmetric] memset0_ok src_def
          b'_def ar'_def Let_def)
    have wfb': "wf_block b'" using wfb fits by (simp add: wf_block_def b'_def length_write_at)
    have same: "valid_ref ar' q = valid_ref (set_block i b' ar) q"
        "ref_str ar' q = ref_str (set_block i b' ar) q" for q
      by (simp_all add: ar'_def valid_ref_def ref_str_def)
    have frame: "valid_ref (set_block i b' ar) q" "ref_str (set_block i b' ar) q = ref_str ar q"
      if q: "valid_ref ar q" "ref_region ref \<inter> ref_region q = {}" for q
    proof -
      have "({i} \<times> {unat (ref_offset ref) ..< unat (ref_offset ref) + length src}) \<inter> ref_region q = {}"
        using q(2) by (simp add: ref_region_def [of ref] i_def src_def)
      note fr = set_block_ref [OF wf q(1) _ _ _ this, of b', folded b_def]
      show "valid_ref (set_block i b' ar) q" and "ref_str (set_block i b' ar) q = ref_str ar q"
        using fr fits by (simp_all add: b'_def)
    qed
    have "wf_arena ar'"
      using wf_set_block [OF wf wfb', of i] by (simp add: ar'_def wf_arena_def)
    then show thesis
      by (rule that [OF eq]) (simp_all add: same frame, simp_all add: ar'_def)
  qed
qed

section \<open>The arena as a heap of strings\<close>

interpretation heap: string_heap wf_arena valid_ref ref_region ref_str null_ref arena_room
  "\<lambda>ar. length (m_blocks ar)" arena_view arena_store overwrite arena_remove
proof (unfold_locales, goal_cases)
  case (4 h r)
  then show ?case by (rule arena_view_valid)
next
  case (5 h s)
  show ?case
    by (rule arena_store_ok [OF 5], intro exI conjI allI impI, (assumption | simp)+)
next
  case (6 h p s)
  then have len: "length s = unat (ref_size p)" by (simp add: length_ref_str)
  show ?case
    by (rule overwrite_same_size [OF 6(1,2) len], intro exI conjI allI impI, (assumption | simp)+)
next
  case (7 h p)
  show ?case
    by (rule arena_remove_ok [OF 7], intro exI conjI allI impI, (assumption | simp)+)
qed simp_all

lemma wf_new_arena: "n < 4294967296 \<Longrightarrow> wf_arena (new_arena n)"
  by (simp add: new_arena_def wf_arena_def wf_block_def)

lemma new_arena_blocks [simp]: "length (m_blocks (new_arena n)) = 1"
  by (simp add: new_arena_def)

section \<open>Compaction\<close>

abbreviation back_sum :: "block list \<Rightarrow> nat" where
  "back_sum bs \<equiv> sum_list (map blk_back bs)"

lemma foldl_add_sum_list: "foldl (\<lambda>c b. c + f b) (n :: nat) bs = n + sum_list (map f bs)"
  by (induction bs arbitrary: n) simp_all

lemma used_size_eq: "used_size ar = back_sum (m_blocks ar)"
  by (simp add: used_size_def foldl_add_sum_list)

lemma arena_capacity_eq: "arena_capacity ar = sum_list (map blk_capacity (m_blocks ar))"
  by (simp add: arena_capacity_def foldl_add_sum_list)

text \<open>What the copying loop leaves in \<open>dest\<close> and in the vector of offsets.\<close>

lemma compact_loop_ok:
  assumes "\<forall>b \<in> set bs. wf_block b" and "processed + back_sum bs \<le> length dest"
    and "i + length bs \<le> length offs"
  shows "\<exists>offs' dest'. compact_loop bs i processed dest offs = Inr (offs', dest')
    \<and> length offs' = length offs \<and> length dest' = length dest
    \<and> (\<forall>j<i. offs' ! j = offs ! j) \<and> take processed dest' = take processed dest
    \<and> (\<forall>j<length bs. offs' ! (i + j) = word_of_nat (processed + back_sum (take j bs))
         \<and> read_at (processed + back_sum (take j bs)) (blk_back (bs ! j)) dest'
             = take (blk_back (bs ! j)) (blk_data (bs ! j)))"
  using assms
proof (induction bs arbitrary: i processed dest offs)
  case Nil
  then show ?case by simp
next
  case (Cons b bs)
  have wfb: "length (take (blk_back b) (blk_data b)) = blk_back b" "\<not> length (blk_data b) < blk_back b"
    using Cons.prems(1) by (simp_all add: wf_block_def)
  define dest1 where "dest1 = write_at processed (take (blk_back b) (blk_data b)) dest"
  have mc: "memcpy dest processed (take (blk_back b) (blk_data b)) = Inr dest1"
    using Cons.prems(2) wfb by (simp add: memcpy_ok dest1_def)
  have len1: "length dest1 = length dest"
    using Cons.prems(2) wfb by (simp add: dest1_def length_write_at)
  have pre1: "take processed dest1 = take processed dest"
      "read_at processed (blk_back b) dest1 = take (blk_back b) (blk_data b)"
    using Cons.prems(2) wfb read_write_same [of processed "take (blk_back b) (blk_data b)" dest]
    by (simp_all add: dest1_def write_at_def min_def)
  let ?p = "processed + blk_back b" and ?offs = "offs[i := word_of_nat processed]"
  from Cons.IH [of ?p dest1 "Suc i" ?offs] Cons.prems len1 obtain offs' dest' where
    run: "compact_loop bs (Suc i) ?p dest1 ?offs = Inr (offs', dest')" and
    len: "length offs' = length offs" "length dest' = length dest" and
    lo: "\<forall>j<Suc i. offs' ! j = ?offs ! j" "take ?p dest' = take ?p dest1" and
    hi: "\<forall>j<length bs. offs' ! (Suc i + j) = word_of_nat (?p + back_sum (take j bs))
         \<and> read_at (?p + back_sum (take j bs)) (blk_back (bs ! j)) dest'
             = take (blk_back (bs ! j)) (blk_data (bs ! j))"
    by auto
  have low: "take processed dest' = take processed dest"
    using arg_cong [OF lo(2), of "take processed"] pre1 by (simp add: min_def)
  have first: "read_at processed (blk_back b) dest' = take (blk_back b) (blk_data b)"
    using arg_cong [OF lo(2), of "drop processed"] pre1 by (simp add: read_at_def drop_take)
  have "offs' ! (i + j) = word_of_nat (processed + back_sum (take j (b # bs)))
      \<and> read_at (processed + back_sum (take j (b # bs))) (blk_back ((b # bs) ! j)) dest'
          = take (blk_back ((b # bs) ! j)) (blk_data ((b # bs) ! j))" if j: "j < length (b # bs)" for j
  proof (cases j)
    case 0
    then show ?thesis using lo first Cons.prems(3) by simp
  next
    case (Suc k)
    then show ?thesis using hi j by (simp add: add.assoc)
  qed
  moreover have "\<forall>j<i. offs' ! j = offs ! j" using lo by simp
  ultimately show ?case
    using wfb mc run len low by simp
qed

lemma read_at_read_at:
  "o2 + n2 \<le> n1 \<Longrightarrow> read_at o2 n2 (read_at o1 n1 xs) = read_at (o1 + o2) n2 xs"
  by (simp add: read_at_def drop_take add.commute min_def)

lemma back_sum_take_le: "j < length bs \<Longrightarrow> back_sum (take j bs) + blk_back (bs ! j) \<le> back_sum bs"
proof (induction bs arbitrary: j)
  case (Cons b bs)
  then show ?case by (cases j) auto
qed simp

lemma compact_into_ok:
  assumes wf: "wf_arena ar" and len: "length dest = used_size ar" and small: "used_size ar < 4294967296"
  obtains l dest' where "compact_into ar dest = Inr (l, dest')"
    and "length dest' = length dest" and "layout_size l = used_size ar"
    and "\<And>r. valid_ref ar r \<Longrightarrow> \<not> ref_empty r \<Longrightarrow>
      \<exists>off. offset_of l r = Inr off \<and> unat off + unat (ref_size r) \<le> length dest'
        \<and> read_at (unat off) (unat (ref_size r)) dest' = ref_str ar r"
proof -
  define bs where "bs = m_blocks ar"
  have wfbs: "\<forall>b \<in> set bs. wf_block b" using wf by (simp add: wf_arena_def bs_def)
  have us: "back_sum bs = length dest" using len by (simp add: used_size_eq bs_def)
  from compact_loop_ok [OF wfbs, of 0 dest 0 "replicate (length bs) 0"] us obtain offs dest' where
    run: "compact_loop bs 0 0 dest (replicate (length bs) 0) = Inr (offs, dest')" and
    lens: "length offs = length bs" "length dest' = length dest" and
    at: "\<And>j. j < length bs \<Longrightarrow> offs ! j = word_of_nat (back_sum (take j bs))
         \<and> read_at (back_sum (take j bs)) (blk_back (bs ! j)) dest'
             = take (blk_back (bs ! j)) (blk_data (bs ! j))"
    by auto
  define l where "l = \<lparr>m_block_offsets = offs, m_layout_size = length dest\<rparr>"
  have eq: "compact_into ar dest = Inr (l, dest')"
    using run len by (simp add: compact_into_def bs_def l_def)
  show thesis
  proof (rule that [OF eq])
    fix r assume v: "valid_ref ar r" and ne: "\<not> ref_empty r"
    define j where "j = unat (ref_block r)"
    have j: "j < length bs" and le: "unat (ref_offset r) + unat (ref_size r) \<le> blk_back (bs ! j)"
      using v ne by (auto simp: valid_ref_def j_def bs_def)
    define s where "s = back_sum (take j bs)"
    have sum: "s + blk_back (bs ! j) \<le> length dest"
      using back_sum_take_le [OF j] us by (simp add: s_def)
    have pos: "0 < unat (ref_size r)" using ne by (simp add: ref_empty_def unat_gt_0)
    have "unat (word_of_nat s :: u32) = s"
      using sum le pos small len by (intro unat_word_of_nat_u32) linarith
    then have off: "unat (offs ! j + ref_offset r) = s + unat (ref_offset r)"
      using at [OF j] sum le small len by (subst unat_add_u32) (simp_all add: s_def)
    have "read_at s (blk_back (bs ! j)) dest' = take (blk_back (bs ! j)) (blk_data (bs ! j))"
      using at [OF j] by (simp add: s_def)
    then have "read_at (s + unat (ref_offset r)) (unat (ref_size r)) dest'
        = read_at (unat (ref_offset r)) (unat (ref_size r)) (blk_data (bs ! j))"
      using read_at_read_at [OF le, of s dest'] read_at_read_at [OF le, of 0 "blk_data (bs ! j)"]
      by (simp add: read_at_def)
    then show "\<exists>off. offset_of l r = Inr off \<and> unat off + unat (ref_size r) \<le> length dest'
        \<and> read_at (unat off) (unat (ref_size r)) dest' = ref_str ar r"
      using j lens off sum le ne
      by (simp add: offset_of_def l_def j_def [symmetric] ref_str_def bs_def)
  qed (simp_all add: lens l_def layout_size_def len)
qed

section \<open>Properties\<close>

text \<open>A small arena with one stored string, for the concrete instances below.\<close>

lemma arena_example:
  obtains r ar where "arena_store (new_arena 8) ''one'' = Inr (r, ar)" and "wf_arena ar"
    and "valid_ref ar r" and "unat (ref_size r) = 3" and "\<not> ref_empty r"
proof (rule arena_store_ok [of "new_arena 8" "''one''"])
  show "wf_arena (new_arena 8)" and "arena_room (new_arena 8) ''one''"
    by (simp_all add: wf_new_arena arena_room_def)
next
  fix r ar
  assume a: "arena_store (new_arena 8) ''one'' = Inr (r, ar)" "wf_arena ar" "valid_ref ar r"
    "ref_str ar r = ''one''"
  have "unat (ref_size r) = 3" using length_ref_str [OF a(2,3)] a(4) by simp
  moreover from this have "\<not> ref_empty r" by (auto simp: ref_empty_def)
  ultimately show thesis using a by (intro that)
qed

text \<open>C20: storing a string of fewer than 2^32 bytes never faults; the returned reference views
  exactly that string, every reference that was valid before still views what it viewed, and the
  new string shares no byte with any of them.\<close>

theorem arena_store_view:
  assumes "wf_arena ar" and "arena_room ar s"
  shows "\<exists>r ar'. arena_store ar s = Inr (r, ar') \<and> wf_arena ar' \<and> valid_ref ar' r
    \<and> arena_view ar' r = Inr s
    \<and> (\<forall>q. valid_ref ar q \<longrightarrow> valid_ref ar' q \<and> arena_view ar' q = arena_view ar q
          \<and> ref_region r \<inter> ref_region q = {})"
proof -
  from arena_store_ok [OF assms] obtain r ar' where
    r: "arena_store ar s = Inr (r, ar')" "wf_arena ar'" "valid_ref ar' r" "ref_str ar' r = s" and
    q: "\<And>q. valid_ref ar q \<Longrightarrow> valid_ref ar' q"
       "\<And>q. valid_ref ar q \<Longrightarrow> ref_str ar' q = ref_str ar q"
       "\<And>q. valid_ref ar q \<Longrightarrow> ref_region r \<inter> ref_region q = {}"
    by blast
  then show ?thesis
    using assms(1) by (intro exI [of _ r] exI [of _ ar']) (simp add: arena_view_valid)
qed

theorem arena_store_view_witness:
  "\<exists>r ar'. arena_store (new_arena 8) ''abcdefghijkl'' = Inr (r, ar')
    \<and> arena_view ar' r = Inr ''abcdefghijkl''"
  using arena_store_view [of "new_arena 8" "''abcdefghijkl''"]
  by (auto simp: wf_new_arena arena_room_def)

text \<open>Overwriting a stored string by one of the same length succeeds in place: the returned
  reference views the new string, and every string whose region is disjoint from the overwritten
  one is unchanged.\<close>

theorem overwrite_in_place:
  assumes "wf_arena ar" and "valid_ref ar ref" and "length s = unat (ref_size ref)"
  shows "\<exists>r ar'. overwrite ar ref s = Inr (r, ar') \<and> wf_arena ar' \<and> arena_view ar' r = Inr s
    \<and> ref_region r \<subseteq> ref_region ref
    \<and> (\<forall>q. valid_ref ar q \<and> ref_region ref \<inter> ref_region q = {} \<longrightarrow>
          arena_view ar' q = arena_view ar q)"
proof -
  from overwrite_same_size [OF assms] obtain r ar' where
    r: "overwrite ar ref s = Inr (r, ar')" "wf_arena ar'" "valid_ref ar' r" "ref_str ar' r = s"
       "ref_region r \<subseteq> ref_region ref" and
    q: "\<And>q. valid_ref ar q \<Longrightarrow> ref_region ref \<inter> ref_region q = {} \<Longrightarrow> valid_ref ar' q"
       "\<And>q. valid_ref ar q \<Longrightarrow> ref_region ref \<inter> ref_region q = {} \<Longrightarrow>
          ref_str ar' q = ref_str ar q"
    by blast
  then show ?thesis
    using assms(1) by (intro exI [of _ r] exI [of _ ar']) (simp add: arena_view_valid)
qed

theorem overwrite_in_place_witness:
  "\<exists>r0 ar r ar'. arena_store (new_arena 8) ''one'' = Inr (r0, ar)
    \<and> overwrite ar r0 ''two'' = Inr (r, ar') \<and> arena_view ar' r = Inr ''two''"
proof -
  obtain r ar where s: "arena_store (new_arena 8) ''one'' = Inr (r, ar)" "wf_arena ar"
    "valid_ref ar r" "unat (ref_size r) = 3" "\<not> ref_empty r"
    by (rule arena_example)
  then have "length ''two'' = unat (ref_size r)" by simp
  from overwrite_in_place [OF s(2,3) this] s(1) show ?thesis by blast
qed

text \<open>C21: overwriting a stored string by a strictly shorter one, which the header allows
  (precondition \<open>string.size <= ref.size\<close>), is undefined behaviour: the unsigned difference of
  the sizes wraps around and \<open>memset\<close> is called far beyond the block.\<close>

theorem overwrite_shorter_faults:
  assumes "wf_arena ar" and "valid_ref ar ref" and "length s < unat (ref_size ref)"
  shows "overwrite ar ref s = Inl Out_Of_Bounds"
  using assms by (rule overwrite_shorter)

theorem overwrite_shorter_faults_witness:
  "\<exists>r ar. arena_store (new_arena 8) ''one'' = Inr (r, ar)
    \<and> overwrite ar r ''x'' = Inl Out_Of_Bounds"
proof -
  obtain r ar where s: "arena_store (new_arena 8) ''one'' = Inr (r, ar)" "wf_arena ar"
    "valid_ref ar r" "unat (ref_size r) = 3" "\<not> ref_empty r"
    by (rule arena_example)
  then have "length ''x'' < unat (ref_size r)" by simp
  from overwrite_shorter_faults [OF s(2,3) this] s(1) show ?thesis by blast
qed

text \<open>Removing a stored string that is not empty never faults and reports success, adds its size to the dead bytes of the arena, and leaves every string with a disjoint
  region as it was.\<close>

theorem arena_remove_frame:
  assumes "wf_arena ar" and "valid_ref ar ref" and "\<not> ref_empty ref"
  shows "\<exists>ar'. arena_remove ar ref = Inr (True, ar') \<and> wf_arena ar'
    \<and> m_dead ar' = m_dead ar + unat (ref_size ref)
    \<and> (\<forall>q. valid_ref ar q \<and> ref_region ref \<inter> ref_region q = {} \<longrightarrow>
          arena_view ar' q = arena_view ar q)"
proof (rule arena_remove_ok [OF assms(1,2)])
  fix flag ar'
  assume r: "arena_remove ar ref = Inr (flag, ar')" "wf_arena ar'" "\<not> ref_empty ref \<Longrightarrow> flag"
      "m_dead ar' = m_dead ar + unat (ref_size ref)" and
    q: "\<And>q. valid_ref ar q \<Longrightarrow> ref_region ref \<inter> ref_region q = {} \<Longrightarrow> valid_ref ar' q"
      "\<And>q. valid_ref ar q \<Longrightarrow> ref_region ref \<inter> ref_region q = {} \<Longrightarrow>
         ref_str ar' q = ref_str ar q"
  have "arena_view ar' q = arena_view ar q"
    if "valid_ref ar q" "ref_region ref \<inter> ref_region q = {}" for q
    using that q [OF that] r(2) assms(1) by (simp add: arena_view_valid)
  with r assms(3) show ?thesis by auto
qed

theorem arena_remove_frame_witness:
  "\<exists>r ar ar'. arena_store (new_arena 8) ''one'' = Inr (r, ar)
    \<and> arena_remove ar r = Inr (True, ar')"
proof -
  obtain r ar where s: "arena_store (new_arena 8) ''one'' = Inr (r, ar)" "wf_arena ar"
    "valid_ref ar r" "unat (ref_size r) = 3" "\<not> ref_empty r"
    by (rule arena_example)
  from arena_remove_frame [OF s(2,3,5)] s(1) show ?thesis by blast
qed

lemma two_strings_example:
  "\<exists>r q ar1 ar. arena_store (new_arena 8) ''one'' = Inr (r, ar1) \<and> arena_store ar1 ''a longer text'' = Inr (q, ar)
    \<and> used_size ar = 16 \<and> ref_size r = 3 \<and> ref_size q = 13 \<and> length (m_blocks ar1) = 1"
  by (simp add: arena_store_def new_arena_def allocate_block_def new_block_def blk_remaining_def
      current_block_def memcpy_def set_block_def used_size_def Let_def)

text \<open>C19: \<open>compact_into\<close> a destination of \<open>used_size()\<close> bytes never fails, and the layout it
  returns maps every reference that existed in the arena to the offset of the same string in the
  compacted bytes.\<close>

theorem compact_preserves_strings:
  assumes "wf_arena ar" and "length dest = used_size ar" and "used_size ar < 4294967296"
  shows "\<exists>l dest'. compact_into ar dest = Inr (l, dest')
    \<and> length dest' = length dest \<and> layout_size l = used_size ar
    \<and> (\<forall>r. valid_ref ar r \<and> \<not> ref_empty r \<longrightarrow>
        (\<exists>off. offset_of l r = Inr off \<and> unat off + unat (ref_size r) \<le> length dest'
           \<and> Inr (read_at (unat off) (unat (ref_size r)) dest') = arena_view ar r))"
proof (rule compact_into_ok [OF assms])
  fix l dest'
  assume c: "compact_into ar dest = Inr (l, dest')" "length dest' = length dest"
      "layout_size l = used_size ar" and
    at: "\<And>r. valid_ref ar r \<Longrightarrow> \<not> ref_empty r \<Longrightarrow>
      \<exists>off. offset_of l r = Inr off \<and> unat off + unat (ref_size r) \<le> length dest'
        \<and> read_at (unat off) (unat (ref_size r)) dest' = ref_str ar r"
  have "\<exists>off. offset_of l r = Inr off \<and> unat off + unat (ref_size r) \<le> length dest'
      \<and> Inr (read_at (unat off) (unat (ref_size r)) dest') = arena_view ar r"
    if v: "valid_ref ar r \<and> \<not> ref_empty r" for r
    using at [of r] v arena_view_valid [OF assms(1)] by simp
  with c show ?thesis by auto
qed

theorem compact_preserves_strings_witness:
  \<comment> \<open>two strings in two blocks, read back behind the offsets of the layout\<close>
  "\<exists>r q ar1 ar l dest' i j. arena_store (new_arena 8) ''one'' = Inr (r, ar1)
    \<and> arena_store ar1 ''a longer text'' = Inr (q, ar) \<and> compact_into ar (replicate 16 nul) = Inr (l, dest')
    \<and> offset_of l r = Inr i \<and> read_at (unat i) 3 dest' = ''one''
    \<and> offset_of l q = Inr j \<and> read_at (unat j) 13 dest' = ''a longer text''"
proof -
  obtain r q ar1 ar where s: "arena_store (new_arena 8) ''one'' = Inr (r, ar1)"
    "arena_store ar1 ''a longer text'' = Inr (q, ar)" "used_size ar = 16" "ref_size r = 3" "ref_size q = 13"
    "length (m_blocks ar1) = 1"
    using two_strings_example by blast
  have new: "wf_arena (new_arena 8)" "arena_room (new_arena 8) ''one''"
    by (simp_all add: wf_new_arena arena_room_def)
  have one: "wf_arena ar1 \<and> valid_ref ar1 r \<and> ref_str ar1 r = ''one''"
    by (rule arena_store_ok [OF new]) (use s(1) in simp)
  have room: "arena_room ar1 ''a longer text''" using s(6) by (simp add: arena_room_def)
  have "wf_arena ar \<and> valid_ref ar q \<and> ref_str ar q = ''a longer text'' \<and> valid_ref ar r \<and> ref_str ar r = ''one''"
    by (rule arena_store_ok [OF conjunct1 [OF one] room]) (use s(2) one in simp)
  then have two: "wf_arena ar" "valid_ref ar q" "ref_str ar q = ''a longer text''" "valid_ref ar r" "ref_str ar r = ''one''"
    by simp_all
  have live: "\<not> ref_empty r" "\<not> ref_empty q" using s(4,5) by (simp_all add: ref_empty_def)
  have "length (replicate 16 nul) = used_size ar" "used_size ar < 4294967296" using s(3) by simp_all
  from compact_preserves_strings [OF two(1) this] obtain l dest' where
    c: "compact_into ar (replicate 16 nul) = Inr (l, dest')" and
    kept: "\<And>p. valid_ref ar p \<Longrightarrow> \<not> ref_empty p \<Longrightarrow> \<exists>off. offset_of l p = Inr off
      \<and> Inr (read_at (unat off) (unat (ref_size p)) dest') = arena_view ar p" by blast
  from kept [OF two(4) live(1)] kept [OF two(2) live(2)] obtain i j where
    "offset_of l r = Inr i" "read_at (unat i) 3 dest' = ''one''"
    "offset_of l q = Inr j" "read_at (unat j) 13 dest' = ''a longer text''"
    using s(4,5) two(3,5) arena_view_valid [OF two(1)] two(2,4) by auto
  with s(1,2) c show ?thesis by blast
qed

end
