(* ===== verification/FnvHash.thy ===== *)
theory FnvHash
  imports AttoPrelude
begin

text \<open>
  The hash of server/src/map.cpp.  \<open>hash ^= b\<close> takes \<open>b\<close> as a \<open>char\<close>, which is signed on the
  platforms the program is built for (Linux on x86-64): the byte is sign-extended to 64 bits.
  \<open>reference_fnv_1a\<close> is the published FNV-1a, which uses the octet itself.  It is written down from its
  publication (Fowler, Noll and Vo) and shares nothing with the code: arithmetic modulo
  \<open>2 ^ 64\<close> on natural numbers, the prime \<open>2 ^ 40 + 2 ^ 8 + 0xb3\<close>, and as offset basis the hash that FNV-0
  gives to the signature of one of its authors.
\<close>

definition k_fnv_offset :: u64 where
  "k_fnv_offset = 0xcbf29ce484222325"

definition k_fnv_prime :: u64 where
  "k_fnv_prime = 0x100000001b3"

definition char_to_u64 :: "char \<Rightarrow> u64" where
  "char_to_u64 b = scast (of_char b :: u8)"

definition fnv_1a :: "string \<Rightarrow> u64" where
  "fnv_1a input = foldl (\<lambda>hash b. (hash XOR char_to_u64 b) * k_fnv_prime) k_fnv_offset input"

text \<open>\<open>hash % capacity\<close>; a zero divisor is undefined.\<close>

definition get_slot :: "string \<Rightarrow> nat \<Rightarrow> nat run" where
  "get_slot key capacity =
     (if capacity = 0 then Inl Division_By_Zero else Inr (unat (fnv_1a key) mod capacity))"

section \<open>The published hash\<close>

definition fnv_prime :: nat where
  "fnv_prime = 2 ^ 40 + 2 ^ 8 + 0xb3"

definition fnv_0 :: "string \<Rightarrow> nat" where
  "fnv_0 octets = foldl (\<lambda>hash octet. (hash * fnv_prime mod 2 ^ 64) XOR of_char octet) 0 octets"

definition fnv_offset_basis :: nat where
  "fnv_offset_basis = fnv_0 (''chongo <Landon Curt Noll> /'' @ [CHR 0x5C] @ ''../'' @ [CHR 0x5C])"

definition reference_fnv_1a :: "string \<Rightarrow> nat" where
  "reference_fnv_1a octets =
     foldl (\<lambda>hash octet. (hash XOR of_char octet) * fnv_prime mod 2 ^ 64) fnv_offset_basis octets"

text \<open>The constants of the code are the published ones.\<close>

lemma k_fnv_prime_published: "unat k_fnv_prime = fnv_prime"
  by (simp add: k_fnv_prime_def fnv_prime_def)

lemma k_fnv_offset_published: "unat k_fnv_offset = fnv_offset_basis"
  by (simp add: k_fnv_offset_def fnv_offset_basis_def fnv_0_def fnv_prime_def)

section \<open>The hash of the code\<close>

lemma char_to_u64_ascii:
  assumes "of_char c < (128 :: nat)"
  shows "char_to_u64 c = of_char c"
proof -
  have c: "(of_char c :: 'a::len word) = word_of_nat (of_char c)"
    by (simp add: of_nat_of_char)
  have "\<not> bit (of_char c :: nat) 7"
    using assms by (simp add: bit_iff_odd)
  then have "sint (of_char c :: u8) = int (of_char c)"
    using assms unfolding c by (simp add: signed_of_nat signed_take_bit_eq_if_positive
        bit_of_nat_iff_bit take_bit_int_eq_self of_nat_less_iff)
  then show ?thesis
    by (simp add: char_to_u64_def scast_eq of_nat_of_char of_int_of_char)
qed

lemma unat_of_char_word: "unat (of_char b :: u64) = of_char b"
proof -
  have "(of_char b :: nat) < 256" by (metis of_char_mod_256 mod_less_divisor zero_less_numeral)
  then have "(of_char b :: nat) < 2 ^ 64" by (rule less_trans) simp
  then have "take_bit 64 (of_char b :: nat) = of_char b" by (rule take_bit_nat_eq_self)
  then have "unat (word_of_nat (of_char b) :: u64) = of_char b" by (simp add: unsigned_of_nat)
  then show ?thesis by (simp add: of_nat_of_char)
qed

lemma unat_step: "unat ((hash XOR of_char b) * k_fnv_prime) = (unat hash XOR of_char b) * fnv_prime mod 2 ^ 64"
  by (simp add: unat_word_ariths k_fnv_prime_published unsigned_xor_eq unat_of_char_word)

text \<open>On ASCII keys the hash is exactly FNV-1a.\<close>

theorem fnv_1a_ascii:
  assumes "\<forall>c \<in> set s. of_char c < (128 :: nat)"
  shows "unat (fnv_1a s) = reference_fnv_1a s"
proof -
  have "unat (foldl (\<lambda>hash b. (hash XOR char_to_u64 b) * k_fnv_prime) h s)
      = foldl (\<lambda>hash octet. (hash XOR of_char octet) * fnv_prime mod 2 ^ 64) (unat h) s" for h
    using assms
  proof (induction s arbitrary: h)
    case (Cons c s)
    then have "char_to_u64 c = of_char c" by (simp add: char_to_u64_ascii)
    then show ?case using Cons by (simp add: unat_step)
  qed simp
  then show ?thesis by (simp add: fnv_1a_def reference_fnv_1a_def k_fnv_offset_published [symmetric])
qed

theorem fnv_1a_ascii_witness: "unat (fnv_1a ''foobar'') = reference_fnv_1a ''foobar''"
  by (rule fnv_1a_ascii) simp

text \<open>A byte outside ASCII is sign-extended, which the multiplication by the odd prime does not undo.\<close>

lemma char_to_u64_not_ascii:
  assumes "128 \<le> (of_char c :: nat)"
  shows "char_to_u64 c \<noteq> of_char c"
proof
  assume eq: "char_to_u64 c = of_char c"
  have small: "(of_char c :: nat) < 256" by (metis of_char_mod_256 mod_less_divisor zero_less_numeral)
  then have "(of_char c :: nat) div 128 = 1" using assms by (intro div_nat_eqI) simp_all
  then have b7: "bit (of_char c :: nat) 7" by (simp add: bit_iff_odd)
  have w: "(of_char c :: 'a::len word) = word_of_nat (of_char c)" by (simp add: of_nat_of_char)
  have "bit (char_to_u64 c) 8" unfolding char_to_u64_def w
    using b7 by (simp add: bit_signed_iff bit_simps)
  moreover have "(of_char c :: nat) div 256 = 0" using small by simp
  then have "\<not> bit (of_char c :: nat) 8" by (simp add: bit_iff_odd)
  then have "\<not> bit (of_char c :: u64) 8" unfolding w by (simp add: bit_simps)
  ultimately show False using eq by simp
qed

lemma times_prime_inject: "x * k_fnv_prime = y * k_fnv_prime \<Longrightarrow> x = y"
proof -
  assume "x * k_fnv_prime = y * k_fnv_prime"
  then have "x * (k_fnv_prime * 0xce965057aff6957b) = y * (k_fnv_prime * 0xce965057aff6957b)"
    by (simp only: mult.assoc [symmetric])
  moreover have "k_fnv_prime * 0xce965057aff6957b = 1" by (simp add: k_fnv_prime_def)
  ultimately show "x = y" by simp
qed

theorem fnv_1a_not_reference:
  assumes "\<forall>b \<in> set s. of_char b < (128 :: nat)" and "128 \<le> (of_char c :: nat)"
  shows "unat (fnv_1a (s @ [c])) \<noteq> reference_fnv_1a (s @ [c])"
proof -
  have "reference_fnv_1a (s @ [c]) = (unat (fnv_1a s) XOR of_char c) * fnv_prime mod 2 ^ 64"
    using fnv_1a_ascii [OF assms(1)] by (simp add: reference_fnv_1a_def)
  also have "\<dots> = unat ((fnv_1a s XOR of_char c) * k_fnv_prime)" by (rule unat_step [symmetric])
  finally have "reference_fnv_1a (s @ [c]) = unat ((fnv_1a s XOR of_char c) * k_fnv_prime)" .
  moreover have "fnv_1a (s @ [c]) = (fnv_1a s XOR char_to_u64 c) * k_fnv_prime" by (simp add: fnv_1a_def)
  moreover have "(fnv_1a s XOR char_to_u64 c) * k_fnv_prime \<noteq> (fnv_1a s XOR of_char c) * k_fnv_prime"
  proof
    assume "(fnv_1a s XOR char_to_u64 c) * k_fnv_prime = (fnv_1a s XOR of_char c) * k_fnv_prime"
    then have "fnv_1a s XOR char_to_u64 c = fnv_1a s XOR of_char c" by (rule times_prime_inject)
    then have "fnv_1a s XOR (fnv_1a s XOR char_to_u64 c) = fnv_1a s XOR (fnv_1a s XOR of_char c)" by simp
    then show False using char_to_u64_not_ascii [OF assms(2)] by (simp add: xor.left_commute)
  qed
  ultimately show ?thesis by (simp only: word_unat_eq_iff not_False_eq_True)
qed

text \<open>C40: on ASCII keys \<open>fnv_1a\<close> is the published FNV-1a, with the published prime and offset basis, and
  no further: a byte above 127 behind any such key is sign-extended before it is combined with the hash,
  and so gives another hash.\<close>

theorem fnv_1a_equivalence:
  assumes "\<forall>b \<in> set s. of_char b < (128 :: nat)"
  shows "unat (fnv_1a s) = reference_fnv_1a s
    \<and> (\<forall>c. 128 \<le> (of_char c :: nat) \<longrightarrow> unat (fnv_1a (s @ [c])) \<noteq> reference_fnv_1a (s @ [c]))"
  using fnv_1a_ascii [OF assms] fnv_1a_not_reference [OF assms] by blast

theorem fnv_1a_equivalence_witness:
  "unat (fnv_1a ''foobar'') = reference_fnv_1a ''foobar'' \<and> unat (fnv_1a ''foobar'') = 0x85944171f73967e8
    \<and> unat (fnv_1a (''foobar'' @ [CHR 0x80])) \<noteq> reference_fnv_1a (''foobar'' @ [CHR 0x80])"
proof -
  have "\<forall>b \<in> set ''foobar''. of_char b < (128 :: nat)" by simp
  from fnv_1a_equivalence [OF this]
  have "unat (fnv_1a ''foobar'') = reference_fnv_1a ''foobar''"
    "unat (fnv_1a (''foobar'' @ [CHR 0x80])) \<noteq> reference_fnv_1a (''foobar'' @ [CHR 0x80])" by simp_all
  moreover have "unat (fnv_1a ''foobar'') = 0x85944171f73967e8"
    by (simp add: fnv_1a_def char_to_u64_def k_fnv_offset_def k_fnv_prime_def)
  ultimately show ?thesis by blast
qed

end
