(* ===== verification/MapTable.thy ===== *)
theory MapTable
  imports StringArena FnvHash
begin

text \<open>
  The open-addressing table of server/src/map.cpp and server/include/attokv_server/map.h: the
  \<open>Entry\<close> with its tombstone flag, the probing function \<open>get_entry\<close> in its three template
  instances, and \<open>resize\<close>.  A pointer to an entry is the index of its slot, the null pointer is
  \<open>None\<close>.
\<close>

section \<open>Entries\<close>

definition k_deleted :: nat where
  "k_deleted = 0"

record entry =
  e_flags :: u8
  e_key :: string_ref
  e_value :: string_ref

definition null_entry :: entry where
  "null_entry = \<lparr>e_flags = 0, e_key = null_ref, e_value = null_ref\<rparr>"

definition entry_empty :: "entry \<Rightarrow> bool" where
  "entry_empty e = ref_empty (e_key e)"

definition deleted :: "entry \<Rightarrow> bool" where
  "deleted e = bit (e_flags e) k_deleted"

definition mark_deleted :: "entry \<Rightarrow> entry" where
  "mark_deleted e = e\<lparr>e_flags := set_bit k_deleted (e_flags e)\<rparr>"

definition unmark_deleted :: "entry \<Rightarrow> entry" where
  "unmark_deleted e = e\<lparr>e_flags := unset_bit k_deleted (e_flags e)\<rparr>"

section \<open>Probing\<close>

datatype slot_match = Slot_Empty | Slot_Match_Or_Empty | Slot_Match

text \<open>
  The \<open>for\<close> loop of \<open>get_entry\<close>; the fourth argument counts the slots still to be checked
  (\<open>capacity - checked\<close>).
\<close>

fun get_entry_loop ::
  "slot_match \<Rightarrow> entry list \<Rightarrow> nat \<Rightarrow> string_arena \<Rightarrow> string \<Rightarrow> nat \<Rightarrow> nat \<Rightarrow> nat option
    \<Rightarrow> nat option run" where
  "get_entry_loop sm table capacity arena key 0 slot deleted_entry =
     Inr (if sm = Slot_Empty \<or> sm = Slot_Match_Or_Empty then deleted_entry else None)"
| "get_entry_loop sm table capacity arena key (Suc n) slot deleted_entry =
     (if length table \<le> slot then Inl Out_Of_Bounds
      else
        let entry = table ! slot
        in if entry_empty entry \<and> \<not> deleted entry then
             Inr (if sm = Slot_Empty \<or> sm = Slot_Match_Or_Empty
                  then (case deleted_entry of Some d \<Rightarrow> Some d | None \<Rightarrow> Some slot)
                  else None)
           else if deleted entry then
             get_entry_loop sm table capacity arena key n ((slot + 1) mod capacity)
               (if sm = Slot_Match_Or_Empty \<and> deleted_entry = None then Some slot
                else deleted_entry)
           else if sm = Slot_Match \<or> sm = Slot_Match_Or_Empty then
             bind_run (arena_view arena (e_key entry)) (\<lambda>str.
               if str = key then Inr (Some slot)
               else get_entry_loop sm table capacity arena key n ((slot + 1) mod capacity)
                      deleted_entry)
           else
             get_entry_loop sm table capacity arena key n ((slot + 1) mod capacity) deleted_entry)"

definition get_entry ::
  "slot_match \<Rightarrow> entry list \<Rightarrow> nat \<Rightarrow> string_arena \<Rightarrow> string \<Rightarrow> nat option run" where
  "get_entry sm table capacity arena key =
     (if capacity = 0 then Inl Division_By_Zero
      else get_entry_loop sm table capacity arena key capacity
             (unat (fnv_1a key) mod capacity) None)"

section \<open>Resizing\<close>

fun resize_loop :: "entry list \<Rightarrow> string_arena \<Rightarrow> nat \<Rightarrow> entry list \<Rightarrow> entry list run" where
  "resize_loop [] arena new_capacity new_table = Inr new_table"
| "resize_loop (e # es) arena new_capacity new_table =
     (if \<not> entry_empty e then
        bind_run (arena_view arena (e_key e)) (\<lambda>key.
        bind_run (get_entry Slot_Empty new_table new_capacity arena key) (\<lambda>p.
          case p of
            None \<Rightarrow> Inl Null_Dereference
          | Some i \<Rightarrow> resize_loop es arena new_capacity
              (new_table[i := (new_table ! i)\<lparr>e_key := e_key e, e_value := e_value e\<rparr>])))
      else resize_loop es arena new_capacity new_table)"

definition resize :: "entry list \<Rightarrow> nat \<Rightarrow> string_arena \<Rightarrow> nat \<Rightarrow> entry list run" where
  "resize table old_capacity arena new_capacity =
     (if length table < old_capacity then Inl Out_Of_Bounds
      else resize_loop (take old_capacity table) arena new_capacity
             (replicate new_capacity null_entry))"

section \<open>Facts on entries\<close>

lemma entry_flag_simps [simp]:
  "deleted (mark_deleted e)" "\<not> deleted (unmark_deleted e)"
  "e_key (mark_deleted e) = e_key e" "e_value (mark_deleted e) = e_value e"
  "e_key (unmark_deleted e) = e_key e" "e_value (unmark_deleted e) = e_value e"
  by (simp_all add: deleted_def mark_deleted_def unmark_deleted_def k_deleted_def
      bit_set_bit_iff bit_unset_bit_iff)

lemma null_entry_simps [simp]:
  "e_key null_entry = null_ref" "e_value null_entry = null_ref"
  "entry_empty null_entry" "\<not> deleted null_entry"
  by (simp_all add: null_entry_def entry_empty_def deleted_def)

lemma deleted_upd [simp]:
  "deleted (e\<lparr>e_key := r\<rparr>) = deleted e" "deleted (e\<lparr>e_value := r\<rparr>) = deleted e"
  by (simp_all add: deleted_def)

lemma entry_empty_upd [simp]:
  "entry_empty (e\<lparr>e_value := r\<rparr>) = entry_empty e" "entry_empty (e\<lparr>e_key := r\<rparr>) = ref_empty r"
  "entry_empty (mark_deleted e) = entry_empty e" "entry_empty (unmark_deleted e) = entry_empty e"
  by (simp_all add: entry_empty_def)

section \<open>The probe sequence\<close>

definition probe :: "nat \<Rightarrow> string \<Rightarrow> nat \<Rightarrow> nat" where
  "probe cap k d = (unat (fnv_1a k) mod cap + d) mod cap"

definition clean :: "entry \<Rightarrow> bool" where
  "clean e \<longleftrightarrow> entry_empty e \<and> \<not> deleted e"

text \<open>Slot \<open>i\<close> is on the probe path of \<open>k\<close> with no never-used slot before it.\<close>

definition path_to :: "entry list \<Rightarrow> string \<Rightarrow> nat \<Rightarrow> bool" where
  "path_to table k i \<longleftrightarrow> (\<exists>d < length table. i = probe (length table) k d
     \<and> (\<forall>d' < d. \<not> clean (table ! probe (length table) k d')))"

lemma probe_bound: "0 < cap \<Longrightarrow> probe cap k d < cap"
  by (simp add: probe_def)

lemma probe_0: "probe cap k 0 = unat (fnv_1a k) mod cap"
  by (simp add: probe_def)

lemma probe_Suc: "(probe cap k d + 1) mod cap = probe cap k (Suc d)"
  by (simp add: probe_def mod_Suc_eq)

lemma probe_onto:
  assumes "i < cap"
  obtains d where "d < cap" and "probe cap k d = i"
proof
  define h where "h = unat (fnv_1a k) mod cap"
  have h: "h < cap" using assms by (simp add: h_def)
  define d where "d = (if h \<le> i then i - h else i + cap - h)"
  show "d < cap" using assms h by (auto simp: d_def)
  show "probe cap k d = i"
    using assms h by (auto simp: probe_def d_def h_def [symmetric])
qed

lemma path_to_update:
  assumes "path_to table k j" and "\<not> clean e"
  shows "path_to (table[i := e]) k j"
proof -
  have "\<not> clean (table[i := e] ! n)" if "\<not> clean (table ! n)" for n
    using that assms(2) by (cases "i < length table"; cases "n = i") (auto simp: list_update_beyond)
  then show ?thesis using assms(1) by (auto simp: path_to_def)
qed

section \<open>Probing is correct\<close>

text \<open>Tombstones hold no key, a slot without a key holds no reference, and the keys of a table can be viewed in the arena.\<close>

definition table_ok :: "string_arena \<Rightarrow> entry list \<Rightarrow> bool" where
  "table_ok arena table \<longleftrightarrow> table \<noteq> []
     \<and> (\<forall>e \<in> set table. (deleted e \<longrightarrow> entry_empty e)
          \<and> (entry_empty e \<longrightarrow> e_key e = null_ref \<and> e_value e = null_ref)
          \<and> arena_view arena (e_key e) = Inr (ref_str arena (e_key e)))"

abbreviation key_str :: "string_arena \<Rightarrow> entry \<Rightarrow> string" where
  "key_str arena e \<equiv> ref_str arena (e_key e)"

lemma table_okD:
  assumes "table_ok arena table" and "i < length table"
  shows "deleted (table ! i) \<Longrightarrow> entry_empty (table ! i)"
    and "arena_view arena (e_key (table ! i)) = Inr (key_str arena (table ! i))"
  using assms by (auto simp: table_ok_def)

lemma get_entry_loop_found:
  assumes ok: "table_ok arena table" and cap: "capacity = length table"
    and sm: "sm \<noteq> Slot_Empty"
    and uniq: "\<forall>j < length table. \<not> entry_empty (table ! j) \<and> key_str arena (table ! j) = key
                 \<longrightarrow> j = probe capacity key d"
    and hit: "\<not> entry_empty (table ! probe capacity key d)"
      "key_str arena (table ! probe capacity key d) = key"
    and path: "\<forall>d' < d. \<not> clean (table ! probe capacity key d')"
    and "d0 \<le> d" and "d < capacity" and "n = capacity - d0"
  shows "get_entry_loop sm table capacity arena key n (probe capacity key d0) del
    = Inr (Some (probe capacity key d))"
  using assms(8-)
proof (induction n arbitrary: d0 del)
  case 0
  then show ?case by simp
next
  case (Suc n)
  let ?s = "probe capacity key d0"
  have pos: "0 < capacity" using Suc.prems by simp
  then have s: "?s < length table" using cap by (simp add: probe_bound)
  note t = table_okD [OF ok s]
  show ?case
  proof (cases "d0 = d")
    case True
    then have "\<not> entry_empty (table ! ?s)" "key_str arena (table ! ?s) = key" using hit by simp_all
    then show ?thesis using t s sm True
      by (cases sm) (auto simp: Let_def)
  next
    case False
    then have d0: "Suc d0 \<le> d" using Suc.prems by simp
    have nc: "\<not> clean (table ! ?s)" using path d0 by simp
    have IH: "get_entry_loop sm table capacity arena key n (probe capacity key (Suc d0)) del'
        = Inr (Some (probe capacity key d))" for del'
    proof (rule Suc.IH)
      show "Suc d0 \<le> d" "d < capacity" by (fact d0, fact Suc.prems)
      show "n = capacity - Suc d0" using Suc.prems by simp
    qed
    show ?thesis
    proof (cases "deleted (table ! ?s)")
      case True
      then show ?thesis
        using s IH unfolding get_entry_loop.simps probe_Suc by (simp add: Let_def)
    next
      case del: False
      then have ne: "\<not> entry_empty (table ! ?s)" using nc by (simp add: clean_def)
      have "key_str arena (table ! ?s) = key \<Longrightarrow> ?s = probe capacity key d"
        using uniq s ne by blast
      then show ?thesis
        using s IH del ne t(2) sm unfolding get_entry_loop.simps probe_Suc
        by (cases sm) (auto simp: Let_def)
    qed
  qed
qed

text \<open>
  The search for a free slot, for a key that is not in the table (or when keys are not compared):
  the loop returns the first tombstone or never-used slot of the probe path.
\<close>

lemma get_entry_loop_free:
  assumes ok: "table_ok arena table" and cap: "capacity = length table"
    and sm: "sm \<noteq> Slot_Match"
    and absent: "sm = Slot_Empty \<or>
      (\<forall>j < length table. \<not> entry_empty (table ! j) \<longrightarrow> key_str arena (table ! j) \<noteq> key)"
    and "n = capacity - d0" and "d0 \<le> capacity"
    and "\<forall>d' < d0. \<not> clean (table ! probe capacity key d')"
    and "case del of
           None \<Rightarrow> sm = Slot_Match_Or_Empty \<longrightarrow> (\<forall>d' < d0. \<not> entry_empty (table ! probe capacity key d'))
         | Some j \<Rightarrow> entry_empty (table ! j) \<and> path_to table key j"
  shows "\<exists>r. get_entry_loop sm table capacity arena key n (probe capacity key d0) del = Inr r
    \<and> (case r of
         None \<Rightarrow> \<forall>i < capacity. \<not> clean (table ! i)
                   \<and> (sm = Slot_Match_Or_Empty \<longrightarrow> \<not> entry_empty (table ! i))
       | Some j \<Rightarrow> entry_empty (table ! j) \<and> path_to table key j)"
  using assms(5-)
proof (induction n arbitrary: d0 del)
  case 0
  then have d0: "d0 = capacity" by simp
  have all: "\<exists>d < capacity. probe capacity key d = i" if "i < capacity" for i
    using probe_onto [OF that, of key] by blast
  show ?case
  proof (cases del)
    case None
    then have "\<forall>i < capacity. \<not> clean (table ! i)
        \<and> (sm = Slot_Match_Or_Empty \<longrightarrow> \<not> entry_empty (table ! i))"
      using "0.prems" d0 all by fastforce
    then show ?thesis using None sm by (cases sm) auto
  next
    case (Some j)
    then show ?thesis using "0.prems" sm by (cases sm) auto
  qed
next
  case (Suc n)
  let ?s = "probe capacity key d0"
  have pos: "d0 < capacity" using Suc.prems by simp
  then have s: "?s < length table" using cap probe_bound [of capacity] by fastforce
  note t = table_okD [OF ok s]
  have path: "path_to table key ?s"
    using pos Suc.prems(3) cap by (auto simp: path_to_def)
  have next_path: "\<not> clean (table ! ?s) \<Longrightarrow> \<forall>d' < Suc d0. \<not> clean (table ! probe capacity key d')"
    using Suc.prems(3) by (auto simp: less_Suc_eq)
  have n: "n = capacity - Suc d0" "Suc d0 \<le> capacity" using Suc.prems by simp_all
  show ?case
  proof (cases "clean (table ! ?s)")
    case True
    then show ?thesis
      using s sm Suc.prems(4) path by (cases sm) (auto simp: Let_def clean_def split: option.splits)
  next
    case nc: False
    show ?thesis
    proof (cases "deleted (table ! ?s)")
      case True
      define del' where
        "del' = (if sm = Slot_Match_Or_Empty \<and> del = None then Some ?s else del)"
      have "case del' of
           None \<Rightarrow> sm = Slot_Match_Or_Empty
                     \<longrightarrow> (\<forall>d' < Suc d0. \<not> entry_empty (table ! probe capacity key d'))
         | Some j \<Rightarrow> entry_empty (table ! j) \<and> path_to table key j"
        using Suc.prems(4) True t(1) path by (auto simp: del'_def split: option.splits)
      from Suc.IH [OF n next_path [OF nc] this] show ?thesis
        using s True unfolding get_entry_loop.simps probe_Suc by (simp add: Let_def del'_def)
    next
      case nd: False
      then have ne: "\<not> entry_empty (table ! ?s)" using nc by (simp add: clean_def)
      have "case del of
           None \<Rightarrow> sm = Slot_Match_Or_Empty
                     \<longrightarrow> (\<forall>d' < Suc d0. \<not> entry_empty (table ! probe capacity key d'))
         | Some j \<Rightarrow> entry_empty (table ! j) \<and> path_to table key j"
        using Suc.prems(4) ne by (auto simp: less_Suc_eq split: option.splits)
      note IH = Suc.IH [OF n next_path [OF nc] this]
      have "sm = Slot_Empty \<or> key_str arena (table ! ?s) \<noteq> key" using absent s ne by blast
      then show ?thesis
        using s nd ne IH t(2) sm unfolding get_entry_loop.simps probe_Suc
        by (cases sm) (auto simp: Let_def)
    qed
  qed
qed

text \<open>Looking for a key that is not there finds nothing, whatever the tombstones.\<close>

lemma get_entry_loop_absent:
  assumes ok: "table_ok arena table" and cap: "capacity = length table"
    and absent: "\<forall>j < length table. \<not> entry_empty (table ! j) \<longrightarrow> key_str arena (table ! j) \<noteq> key"
    and "slot < capacity"
  shows "get_entry_loop Slot_Match table capacity arena key n slot del = Inr None"
  using assms(4)
proof (induction n arbitrary: slot del)
  case 0
  then show ?case by simp
next
  case (Suc n)
  then have s: "slot < length table" using cap by simp
  have pos: "0 < capacity" using Suc.prems by linarith
  note t = table_okD [OF ok s]
  have IH: "get_entry_loop Slot_Match table capacity arena key n ((slot + 1) mod capacity) del'
      = Inr None" for del'
    by (rule Suc.IH) (simp only: mod_less_divisor pos)
  show ?case
    using s IH t absent by (auto simp: Let_def)
qed

section \<open>The table as a map from keys to references\<close>

definition live_count :: "entry list \<Rightarrow> nat" where
  "live_count table = length (filter (\<lambda>e. \<not> entry_empty e) table)"

text \<open>
  \<open>table_rep kf table E\<close>: the entries in use hold exactly the references of the map \<open>E\<close>, each key
  (as read by \<open>kf\<close>) occurs once, and each entry is on the probe path of its key.
\<close>

abbreviation refs_of :: "entry \<Rightarrow> string_ref \<times> string_ref" where
  "refs_of e \<equiv> (e_key e, e_value e)"

definition table_rep :: "(entry \<Rightarrow> string) \<Rightarrow> entry list \<Rightarrow> (string \<rightharpoonup> string_ref \<times> string_ref) \<Rightarrow> bool" where
  "table_rep kf table E \<longleftrightarrow>
     (\<forall>k p. E k = Some p \<longleftrightarrow> (\<exists>i < length table. refs_of (table ! i) = p
          \<and> \<not> entry_empty (table ! i) \<and> kf (table ! i) = k))
     \<and> (\<forall>i < length table. \<forall>j < length table. \<not> entry_empty (table ! i) \<and> \<not> entry_empty (table ! j)
          \<and> kf (table ! i) = kf (table ! j) \<longrightarrow> i = j)
     \<and> (\<forall>i < length table. \<not> entry_empty (table ! i) \<longrightarrow> path_to table (kf (table ! i)) i)"

lemma table_repD:
  assumes "table_rep kf table E"
  shows "E k = Some p \<longleftrightarrow> (\<exists>i < length table. refs_of (table ! i) = p
      \<and> \<not> entry_empty (table ! i) \<and> kf (table ! i) = k)"
    and "i < length table \<Longrightarrow> j < length table \<Longrightarrow> \<not> entry_empty (table ! i) \<Longrightarrow>
      \<not> entry_empty (table ! j) \<Longrightarrow> kf (table ! i) = kf (table ! j) \<Longrightarrow> i = j"
    and "i < length table \<Longrightarrow> \<not> entry_empty (table ! i) \<Longrightarrow> path_to table (kf (table ! i)) i"
  using assms unfolding table_rep_def by blast+

lemma table_rep_live:
  assumes "table_rep kf table E" and "i < length table" and "\<not> entry_empty (table ! i)"
  shows "E (kf (table ! i)) = Some (refs_of (table ! i))"
  using assms table_repD(1) [OF assms(1)] by blast

lemma table_rep_Some:
  assumes "table_rep kf table E" and "E k = Some p"
  obtains i where "i < length table" and "refs_of (table ! i) = p"
    and "\<not> entry_empty (table ! i)" and "kf (table ! i) = k"
    and "path_to table k i"
proof -
  from assms(2) table_repD(1) [OF assms(1)] obtain i where
    i: "i < length table" "refs_of (table ! i) = p" "\<not> entry_empty (table ! i)" "kf (table ! i) = k"
    by blast
  with table_repD(3) [OF assms(1), of i] show thesis by (intro that) auto
qed

lemma table_rep_None:
  assumes "table_rep kf table E" and "E k = None" and "i < length table"
    and "\<not> entry_empty (table ! i)"
  shows "kf (table ! i) \<noteq> k"
  using table_rep_live [OF assms(1,3,4)] assms(2) by auto

text \<open>Writing an entry for key \<open>k\<close>: into a free slot of its path, or over the entry it has.\<close>

lemma table_rep_write:
  assumes rep: "table_rep kf table E" and i: "i < length table"
    and slot: "entry_empty (table ! i) \<and> E k = None \<and> path_to table k i
        \<or> \<not> entry_empty (table ! i) \<and> kf (table ! i) = k"
    and e: "\<not> entry_empty e" "kf' e = k"
    and same: "\<And>j. j < length table \<Longrightarrow> \<not> entry_empty (table ! j) \<Longrightarrow> j \<noteq> i \<Longrightarrow>
        kf' (table ! j) = kf (table ! j)"
  shows "table_rep kf' (table[i := e]) (E(k \<mapsto> refs_of e))"
proof -
  have nc: "\<not> clean e" using e by (simp add: clean_def)
  have upd: "table[i := e] ! j = (if j = i then e else table ! j)" for j
    using i by (simp add: nth_list_update)
  have other: "kf (table ! j) \<noteq> k" if "j < length table" "\<not> entry_empty (table ! j)" "j \<noteq> i" for j
    using that slot table_rep_None [OF rep _ that(1,2)] table_repD(2) [OF rep that(1) i that(2)]
    by metis
  have path: "path_to table k i" using slot table_repD(3) [OF rep i] by auto
  show ?thesis
    unfolding table_rep_def length_list_update
  proof (intro conjI allI impI)
    fix k' e'
    show "(E(k \<mapsto> refs_of e)) k' = Some e' \<longleftrightarrow>
      (\<exists>j < length table. refs_of (table[i := e] ! j) = e'
        \<and> \<not> entry_empty (table[i := e] ! j) \<and> kf' (table[i := e] ! j) = k')"
    proof (cases "k' = k")
      case True
      then show ?thesis using i e other same by (fastforce simp: upd)
    next
      case False
      have "(\<exists>j < length table. refs_of (table[i := e] ! j) = e'
        \<and> \<not> entry_empty (table[i := e] ! j) \<and> kf' (table[i := e] ! j) = k') \<longleftrightarrow>
          (\<exists>j < length table. refs_of (table ! j) = e'
        \<and> \<not> entry_empty (table ! j) \<and> kf (table ! j) = k')"
        using False e same slot by (fastforce simp: upd)
      then show ?thesis using False table_repD(1) [OF rep, of k' e'] by simp
    qed
  next
    fix j l
    assume "j < length table" "l < length table" "\<not> entry_empty (table[i := e] ! j)
        \<and> \<not> entry_empty (table[i := e] ! l) \<and> kf' (table[i := e] ! j) = kf' (table[i := e] ! l)"
    then show "j = l"
      using other [of j] other [of l] same [of j] same [of l] e table_repD(2) [OF rep, of j l]
      by (auto simp: upd split: if_splits)
  next
    fix j
    assume "j < length table" "\<not> entry_empty (table[i := e] ! j)"
    then show "path_to (table[i := e]) (kf' (table[i := e] ! j)) j"
      using same [of j] table_repD(3) [OF rep, of j] nc e path
      by (auto simp: upd path_to_update split: if_splits)
  qed
qed

text \<open>Replacing an entry by a tombstone.\<close>

lemma table_rep_delete:
  assumes rep: "table_rep kf table E" and i: "i < length table"
    and slot: "\<not> entry_empty (table ! i)" "kf (table ! i) = k"
    and e: "entry_empty e" "deleted e"
    and same: "\<And>j. j < length table \<Longrightarrow> \<not> entry_empty (table ! j) \<Longrightarrow> j \<noteq> i \<Longrightarrow>
        kf' (table ! j) = kf (table ! j)"
  shows "table_rep kf' (table[i := e]) (E(k := None))"
proof -
  have nc: "\<not> clean e" using e by (simp add: clean_def)
  have upd: "table[i := e] ! j = (if j = i then e else table ! j)" for j
    using i by (simp add: nth_list_update)
  have other: "kf (table ! j) \<noteq> k" if "j < length table" "\<not> entry_empty (table ! j)" "j \<noteq> i" for j
    using that slot table_repD(2) [OF rep that(1) i that(2)] by metis
  show ?thesis
    unfolding table_rep_def length_list_update
  proof (intro conjI allI impI)
    fix k' e'
    show "(E(k := None)) k' = Some e' \<longleftrightarrow>
      (\<exists>j < length table. refs_of (table[i := e] ! j) = e'
        \<and> \<not> entry_empty (table[i := e] ! j) \<and> kf' (table[i := e] ! j) = k')"
    proof (cases "k' = k")
      case True
      have False if "j < length table" "\<not> entry_empty (table[i := e] ! j)" "kf' (table[i := e] ! j) = k" for j
        using that e other [of j] same [of j] by (auto simp: upd split: if_splits)
      then show ?thesis using True by auto
    next
      case False
      have "(\<exists>j < length table. refs_of (table[i := e] ! j) = e'
        \<and> \<not> entry_empty (table[i := e] ! j) \<and> kf' (table[i := e] ! j) = k') \<longleftrightarrow>
          (\<exists>j < length table. refs_of (table ! j) = e'
        \<and> \<not> entry_empty (table ! j) \<and> kf (table ! j) = k')"
        using False e same slot by (fastforce simp: upd)
      then show ?thesis using False table_repD(1) [OF rep, of k' e'] by simp
    qed
  next
    fix j l
    assume "j < length table" "l < length table" "\<not> entry_empty (table[i := e] ! j)
        \<and> \<not> entry_empty (table[i := e] ! l) \<and> kf' (table[i := e] ! j) = kf' (table[i := e] ! l)"
    then show "j = l"
      using same [of j] same [of l] e table_repD(2) [OF rep, of j l]
      by (auto simp: upd split: if_splits)
  next
    fix j
    assume "j < length table" "\<not> entry_empty (table[i := e] ! j)"
    then show "path_to (table[i := e]) (kf' (table[i := e] ! j)) j"
      using same [of j] table_repD(3) [OF rep, of j] nc e
      by (auto simp: upd path_to_update split: if_splits)
  qed
qed

lemma table_rep_cong:
  assumes "table_rep kf table E"
    and "\<And>e. e \<in> set table \<Longrightarrow> \<not> entry_empty e \<Longrightarrow> kf' e = kf e"
  shows "table_rep kf' table E"
proof -
  have k: "kf' (table ! i) = kf (table ! i)" if "i < length table" "\<not> entry_empty (table ! i)" for i
    using assms(2) [OF nth_mem [OF that(1)] that(2)] .
  have "(\<exists>i < length table. refs_of (table ! i) = p \<and> \<not> entry_empty (table ! i)
        \<and> kf' (table ! i) = k) \<longleftrightarrow>
      (\<exists>i < length table. refs_of (table ! i) = p \<and> \<not> entry_empty (table ! i)
        \<and> kf (table ! i) = k)" for p k
    using k by auto
  note at = this
  have inj: "i = j" if "i < length table" "j < length table" "\<not> entry_empty (table ! i)"
      "\<not> entry_empty (table ! j)" "kf' (table ! i) = kf' (table ! j)" for i j
    using table_repD(2) [OF assms(1) that(1-4)] that k by simp
  show ?thesis
    unfolding table_rep_def at table_repD(1) [OF assms(1)]
    by (intro conjI allI impI) (use inj k table_repD(3) [OF assms(1)] in auto)
qed

lemma table_rep_fresh: "table_rep kf (replicate n null_entry) Map.empty"
  by (simp add: table_rep_def)

section \<open>Counting the entries in use\<close>

lemma live_count_update:
  assumes "i < length table"
  shows "live_count (table[i := e]) + (if entry_empty (table ! i) then 0 else 1)
    = live_count table + (if entry_empty e then 0 else 1)"
  using assms
proof (induction table arbitrary: i)
  case (Cons a table)
  show ?case
  proof (cases i)
    case 0
    then show ?thesis by (simp add: live_count_def)
  next
    case (Suc m)
    then show ?thesis using Cons.IH [of m] Cons.prems by (auto simp: live_count_def)
  qed
qed (simp add: live_count_def)

lemma live_count_fresh [simp]: "live_count (replicate n null_entry) = 0"
  by (simp add: live_count_def)

lemma live_count_pos:
  "i < length table \<Longrightarrow> \<not> entry_empty (table ! i) \<Longrightarrow> 0 < live_count table"
  by (auto simp: live_count_def filter_empty_conv intro!: bexI [OF _ nth_mem])

lemma live_count_free:
  assumes "live_count table < length table"
  shows "\<exists>i < length table. entry_empty (table ! i)"
proof (rule ccontr)
  assume "\<not> ?thesis"
  then have "\<forall>e \<in> set table. \<not> entry_empty e" by (auto simp: in_set_conv_nth)
  then have "live_count table = length table" by (simp add: live_count_def)
  with assms show False by simp
qed

section \<open>get_entry on a represented table\<close>

lemma table_ok_pos: "table_ok arena table \<Longrightarrow> 0 < length table"
  by (simp add: table_ok_def)

lemma get_entry_Some:
  assumes ok: "table_ok arena table" and rep: "table_rep (key_str arena) table E"
    and E: "E key = Some p" and sm: "sm \<noteq> Slot_Empty"
  obtains i where "get_entry sm table (length table) arena key = Inr (Some i)"
    and "i < length table" and "refs_of (table ! i) = p" and "\<not> entry_empty (table ! i)"
    and "key_str arena (table ! i) = key"
proof -
  from table_rep_Some [OF rep E] obtain i where
    i: "i < length table" "refs_of (table ! i) = p" "\<not> entry_empty (table ! i)"
       "key_str arena (table ! i) = key"
       "path_to table key i" .
  then obtain d where d: "d < length table" "i = probe (length table) key d"
      "\<forall>d' < d. \<not> clean (table ! probe (length table) key d')"
    by (auto simp: path_to_def)
  have uniq: "\<forall>j < length table. \<not> entry_empty (table ! j) \<and> key_str arena (table ! j) = key
      \<longrightarrow> j = probe (length table) key d"
  proof (intro allI impI, elim conjE)
    fix j assume "j < length table" "\<not> entry_empty (table ! j)" "key_str arena (table ! j) = key"
    then have "j = i" by (intro table_repD(2) [OF rep _ i(1)]) (simp_all add: i)
    then show "j = probe (length table) key d" by (simp add: d)
  qed
  have "get_entry sm table (length table) arena key = Inr (Some i)"
    using get_entry_loop_found [OF ok refl sm uniq _ _ d(3), of 0] i d table_ok_pos [OF ok]
    by (simp add: get_entry_def probe_0)
  with i show thesis by (intro that)
qed

lemma get_entry_None:
  assumes ok: "table_ok arena table" and rep: "table_rep (key_str arena) table E"
    and E: "E key = None"
  shows "get_entry Slot_Match table (length table) arena key = Inr None"
  using get_entry_loop_absent [OF ok refl, of key] table_rep_None [OF rep E] table_ok_pos [OF ok]
  by (simp add: get_entry_def)

lemma get_entry_free:
  assumes ok: "table_ok arena table"
    and sm: "sm = Slot_Match_Or_Empty \<and> table_rep (key_str arena) table E \<and> E key = None
        \<and> (\<exists>i < length table. entry_empty (table ! i))
      \<or> sm = Slot_Empty \<and> (\<exists>i < length table. clean (table ! i))"
  obtains i where "get_entry sm table (length table) arena key = Inr (Some i)"
    and "i < length table" and "entry_empty (table ! i)" and "path_to table key i"
proof -
  have m: "sm \<noteq> Slot_Match" and absent: "sm = Slot_Empty \<or>
      (\<forall>j < length table. \<not> entry_empty (table ! j) \<longrightarrow> key_str arena (table ! j) \<noteq> key)"
    using sm table_rep_None [of "key_str arena" table E key] by auto
  from get_entry_loop_free [OF ok refl m absent, of "length table" 0 None] obtain r where
    r: "get_entry sm table (length table) arena key = Inr r" and
    post: "case r of
         None \<Rightarrow> \<forall>i < length table. \<not> clean (table ! i)
                   \<and> (sm = Slot_Match_Or_Empty \<longrightarrow> \<not> entry_empty (table ! i))
       | Some j \<Rightarrow> entry_empty (table ! j) \<and> path_to table key j"
    using table_ok_pos [OF ok] by (auto simp: get_entry_def probe_0)
  from sm post obtain i where i: "r = Some i" by (cases r) auto
  with post have "entry_empty (table ! i)" "path_to table key i" by simp_all
  moreover from this(2) have "i < length table"
    using probe_bound [OF table_ok_pos [OF ok]] by (auto simp: path_to_def)
  ultimately show thesis using r i by (intro that) simp_all
qed

section \<open>Resizing keeps the map\<close>

lemma distinct_map_filter_nth:
  assumes "\<And>i j. i < length xs \<Longrightarrow> j < length xs \<Longrightarrow> P (xs ! i) \<Longrightarrow> P (xs ! j) \<Longrightarrow>
    f (xs ! i) = f (xs ! j) \<Longrightarrow> i = j"
  shows "distinct (map f (filter P xs))"
  using assms
proof (induction xs)
  case (Cons x xs)
  have "f x \<notin> f ` set (filter P xs)" if "P x"
  proof
    assume "f x \<in> f ` set (filter P xs)"
    then obtain j where "j < length xs" "P (xs ! j)" "f x = f (xs ! j)"
      by (auto simp: in_set_conv_nth)
    with that Cons.prems [of 0 "Suc j"] show False by simp
  qed
  moreover have "distinct (map f (filter P xs))"
  proof (rule Cons.IH)
    fix i j
    assume "i < length xs" "j < length xs" "P (xs ! i)" "P (xs ! j)" "f (xs ! i) = f (xs ! j)"
    then show "i = j" using Cons.prems [of "Suc i" "Suc j"] by simp
  qed
  ultimately show ?case by simp
qed simp

definition live_refs :: "string_arena \<Rightarrow> entry list \<Rightarrow> (string \<times> string_ref \<times> string_ref) list" where
  "live_refs arena table =
     map (\<lambda>e. (key_str arena e, refs_of e)) (filter (\<lambda>e. \<not> entry_empty e) table)"

lemma live_refs_simps [simp]:
  "live_refs arena [] = []"
  "live_refs arena (e # es) =
     (if entry_empty e then live_refs arena es
      else (key_str arena e, refs_of e) # live_refs arena es)"
  by (simp_all add: live_refs_def)

lemma set_live_refs:
  "(k, p) \<in> set (live_refs arena table) \<longleftrightarrow>
     (\<exists>i < length table. refs_of (table ! i) = p \<and> \<not> entry_empty (table ! i)
        \<and> key_str arena (table ! i) = k)"
proof -
  have "(k, p) \<in> set (live_refs arena table) \<longleftrightarrow>
      (\<exists>e \<in> set table. refs_of e = p \<and> \<not> entry_empty e \<and> key_str arena e = k)"
    by (auto simp: live_refs_def)
  also have "\<dots> \<longleftrightarrow> (\<exists>i < length table. refs_of (table ! i) = p \<and> \<not> entry_empty (table ! i)
        \<and> key_str arena (table ! i) = k)"
    by (rule bex_set_nth)
  finally show ?thesis .
qed

lemma table_rep_distinct:
  assumes "table_rep (key_str arena) table E"
  shows "distinct (map fst (live_refs arena table))"
  unfolding live_refs_def
  by (simp add: comp_def) (rule distinct_map_filter_nth, rule table_repD(2) [OF assms])

lemma table_rep_map_of:
  assumes "table_rep (key_str arena) table E"
  shows "E = map_of (live_refs arena table)"
proof
  fix k
  have "E k = Some p \<longleftrightarrow> map_of (live_refs arena table) k = Some p" for p
    unfolding table_repD(1) [OF assms] map_of_eq_Some_iff [OF table_rep_distinct [OF assms]]
      set_live_refs ..
  then show "E k = map_of (live_refs arena table) k"
    by (rule option_eq_by_Some)
qed

lemma resize_loop_ok:
  assumes "\<forall>e \<in> set es. arena_view arena (e_key e) = Inr (key_str arena e)"
    and "distinct (map fst (live_refs arena es))"
    and "\<forall>k \<in> fst ` set (live_refs arena es). E k = None"
    and "table_ok arena new" and "\<forall>e \<in> set new. \<not> deleted e"
    and "table_rep (key_str arena) new E"
    and "live_count new + live_count es < length new"
  shows "\<exists>new'. resize_loop es arena (length new) new = Inr new' \<and> length new' = length new
    \<and> table_ok arena new' \<and> (\<forall>e \<in> set new'. \<not> deleted e)
    \<and> table_rep (key_str arena) new' (E ++ map_of (live_refs arena es))
    \<and> live_count new' = live_count new + live_count es"
  using assms
proof (induction es arbitrary: new E)
  case Nil
  then show ?case by (simp add: live_count_def)
next
  case (Cons e es)
  show ?case
  proof (cases "entry_empty e")
    case True
    then show ?thesis using Cons.IH [of E new] Cons.prems by (simp add: live_count_def)
  next
    case False
    let ?k = "key_str arena e"
    have count: "live_count (e # es) = Suc (live_count es)"
      using False by (simp add: live_count_def)
    have "\<exists>i < length new. entry_empty (new ! i)"
      using Cons.prems(7) by (intro live_count_free) simp
    then have "\<exists>i < length new. clean (new ! i)"
      using Cons.prems(5) by (auto simp: clean_def)
    then obtain i where i: "get_entry Slot_Empty new (length new) arena ?k = Inr (Some i)"
        "i < length new" "entry_empty (new ! i)" "path_to new ?k i"
      using get_entry_free [OF Cons.prems(4), of Slot_Empty "\<lambda>_. None" ?k] by auto
    define e' where "e' = (new ! i)\<lparr>e_key := e_key e, e_value := e_value e\<rparr>"
    define new1 where "new1 = new[i := e']"
    have e': "\<not> entry_empty e'" "key_str arena e' = ?k" "refs_of e' = refs_of e" "\<not> deleted e'"
      using False i Cons.prems(5) by (simp_all add: e'_def entry_empty_def deleted_def)
    have "table_rep (key_str arena) new1 (E(?k \<mapsto> refs_of e'))"
      unfolding new1_def
      using i e' Cons.prems(3) False
      by (intro table_rep_write [OF Cons.prems(6)]) simp_all
    then have rep1: "table_rep (key_str arena) new1 (E(?k \<mapsto> refs_of e))" using e' by simp
    have mem: "x = e' \<or> x \<in> set new" if "x \<in> set new1" for x
      using that set_update_subset_insert [of new i e'] by (auto simp: new1_def)
    have ok1: "table_ok arena new1"
      using Cons.prems(1,4) e' mem by (fastforce simp: table_ok_def new1_def e'_def)
    have nd1: "\<forall>x \<in> set new1. \<not> deleted x" using mem e' Cons.prems(5) by blast
    have len1: "length new1 = length new" by (simp add: new1_def)
    have count1: "live_count new1 = Suc (live_count new)"
      using live_count_update [OF i(2), of e'] i(3) e'(1) by (simp add: new1_def)
    have notin: "?k \<notin> dom (map_of (live_refs arena es))"
      using Cons.prems(2) False by (simp add: dom_map_of_conv_image_fst)
    have es: "\<forall>e \<in> set es. arena_view arena (e_key e) = Inr (key_str arena e)"
        "distinct (map fst (live_refs arena es))"
        "live_count new1 + live_count es < length new1"
      using Cons.prems(1,2,7) False count1 len1 count by auto
    have es3: "\<forall>k \<in> fst ` set (live_refs arena es). (E(?k \<mapsto> refs_of e)) k = None"
    proof
      fix k assume k: "k \<in> fst ` set (live_refs arena es)"
      moreover have "?k \<notin> fst ` set (live_refs arena es)" using Cons.prems(2) False by simp
      ultimately have "k \<noteq> ?k" by metis
      moreover note k
      ultimately show "(E(?k \<mapsto> refs_of e)) k = None" using Cons.prems(3) False by auto
    qed
    from Cons.IH [OF es(1,2) es3 ok1 nd1 rep1 es(3)] obtain new' where
      run: "resize_loop es arena (length new) new1 = Inr new'" "length new' = length new"
        "table_ok arena new'" "\<forall>e \<in> set new'. \<not> deleted e"
        "table_rep (key_str arena) new' (E(?k \<mapsto> refs_of e) ++ map_of (live_refs arena es))"
        "live_count new' = live_count new + live_count (e # es)"
      unfolding len1 count count1 add_Suc add_Suc_right by blast
    have eq: "E(?k \<mapsto> refs_of e) ++ map_of (live_refs arena es)
        = E ++ map_of (live_refs arena (e # es))"
      using notin False by (simp add: map_add_upd_left)
    have "resize_loop (e # es) arena (length new) new = Inr new'"
      using run(1) False Cons.prems(1) i(1) by (simp add: new1_def e'_def)
    then show ?thesis using run(2-6) unfolding eq by blast
  qed
qed

lemma resize_ok:
  assumes ok: "table_ok arena table" and rep: "table_rep (key_str arena) table E"
    and room: "live_count table < new_capacity"
  obtains new where "resize table (length table) arena new_capacity = Inr new"
    and "length new = new_capacity" and "table_ok arena new"
    and "table_rep (key_str arena) new E" and "live_count new = live_count table"
proof -
  let ?fresh = "replicate new_capacity null_entry"
  have "table_ok arena ?fresh"
    using room by (auto simp: table_ok_def arena_view_def)
  from resize_loop_ok [OF _ _ _ this, of table Map.empty] obtain new where
    new: "resize_loop table arena new_capacity ?fresh = Inr new" "length new = new_capacity"
    "table_ok arena new" "table_rep (key_str arena) new (map_of (live_refs arena table))"
    "live_count new = live_count table"
    using ok rep room table_rep_distinct [OF rep] table_rep_fresh [of "key_str arena" new_capacity]
    by (auto simp: table_ok_def)
  then have "resize table (length table) arena new_capacity = Inr new" by (simp add: resize_def)
  then show thesis
    using new table_rep_map_of [OF rep] by (intro that [of new]) simp_all
qed

end
