(* ===== verification/KVInterface.thy ===== *)
theory KVInterface
  imports AttoPrelude
begin

text \<open>
  The contract between the key-value map and its clients (\<open>KVStore\<close>, the commands): the
  operations with the abstract map they implement.  \<open>budget\<close> bounds the memory blocks; an
  operation is defined as long as it stays within the 32-bit block indexes.

  The contract has the restriction the code has: a \<open>set\<close> that replaces a value by a strictly
  shorter one is undefined.
\<close>

definition str_limit :: nat where
  "str_limit = 4294967296"

locale kv_map =
  fixes inv :: "'m \<Rightarrow> bool"
    and abs :: "'m \<Rightarrow> string \<rightharpoonup> string"
    and budget :: "'m \<Rightarrow> nat"
    and get :: "'m \<Rightarrow> string \<Rightarrow> string option run"
    and put :: "'m \<Rightarrow> string \<Rightarrow> string \<Rightarrow> 'm run"
    and del :: "'m \<Rightarrow> string \<Rightarrow> (bool \<times> 'm) run"
    and clear :: "'m \<Rightarrow> 'm"
  assumes get_law: "inv m \<Longrightarrow> get m k = Inr (abs m k)"
    and put_law: "inv m \<Longrightarrow> k \<noteq> [] \<Longrightarrow> length k < str_limit \<Longrightarrow> length v < str_limit \<Longrightarrow>
      budget m + 2 \<le> str_limit \<Longrightarrow>
      (\<And>old. abs m k = Some old \<Longrightarrow> length old \<le> length v) \<Longrightarrow>
      \<exists>m'. put m k v = Inr m' \<and> inv m' \<and> abs m' = (abs m)(k \<mapsto> v) \<and> budget m' \<le> budget m + 2"
    and put_fault: "inv m \<Longrightarrow> length k < str_limit \<Longrightarrow> length v < str_limit \<Longrightarrow>
      budget m + 2 \<le> str_limit \<Longrightarrow> abs m k = Some old \<Longrightarrow> length v < length old \<Longrightarrow>
      put m k v = Inl Out_Of_Bounds"
    and del_law: "inv m \<Longrightarrow> budget m \<le> str_limit \<Longrightarrow>
      \<exists>m'. del m k = Inr (abs m k \<noteq> None, m') \<and> inv m' \<and> abs m' = (abs m)(k := None)
        \<and> budget m' \<le> budget m"
    and clear_law: "inv m \<Longrightarrow>
      inv (clear m) \<and> abs (clear m) = Map.empty \<and> budget (clear m) \<le> budget m"
begin

text \<open>A \<open>put\<close> either succeeds or meets the fault, and which of the two is decided by the old value.\<close>

lemma put_cases:
  assumes "inv m" and "k \<noteq> []" and "length k < str_limit" and "length v < str_limit"
    and "budget m + 2 \<le> str_limit"
  obtains (stored) m' where "put m k v = Inr m'" and "inv m'" and "abs m' = (abs m)(k \<mapsto> v)"
      and "budget m' \<le> budget m + 2"
      and "\<And>old. abs m k = Some old \<Longrightarrow> length old \<le> length v"
    | (shrinks) old where "abs m k = Some old" and "length v < length old"
      and "put m k v = Inl Out_Of_Bounds"
proof (cases "\<exists>old. abs m k = Some old \<and> length v < length old")
  case True
  then show thesis using put_fault [OF assms(1,3,4,5)] shrinks by blast
next
  case False
  then have le: "\<And>old. abs m k = Some old \<Longrightarrow> length old \<le> length v" by fastforce
  from put_law [OF assms le] show thesis using stored le by blast
qed

text \<open>Reading back.\<close>

lemma put_get:
  assumes "inv m" and "k \<noteq> []" and "length k < str_limit" and "length v < str_limit"
    and "budget m + 2 \<le> str_limit" and "put m k v = Inr m'"
  shows "get m' k = Inr (Some v)" and "k' \<noteq> k \<Longrightarrow> get m' k' = get m k'"
proof -
  have m': "inv m'" "abs m' = (abs m)(k \<mapsto> v)"
    using put_cases [OF assms(1-5)] assms(6) by (metis Inr_inject Inl_Inr_False)+
  then show "get m' k = Inr (Some v)" and "k' \<noteq> k \<Longrightarrow> get m' k' = get m k'"
    using get_law [OF m'(1)] get_law [OF assms(1)] by simp_all
qed

lemma del_get:
  assumes "inv m" and "budget m \<le> str_limit" and "del m k = Inr (b, m')"
  shows "get m' k = Inr None" and "k' \<noteq> k \<Longrightarrow> get m' k' = get m k'"
    and "b \<longleftrightarrow> get m k \<noteq> Inr None"
proof -
  have m': "inv m'" "abs m' = (abs m)(k := None)" "b = (abs m k \<noteq> None)"
    using del_law [OF assms(1,2), of k] assms(3) by auto
  then show "get m' k = Inr None" and "k' \<noteq> k \<Longrightarrow> get m' k' = get m k'"
    and "b \<longleftrightarrow> get m k \<noteq> Inr None"
    using get_law [OF m'(1)] get_law [OF assms(1)] by simp_all
qed

text \<open>
  Storing a list of key-value pairs one after the other, as a client that loads data does: with no
  value getting shorter, all of them are stored.
\<close>

fun put_all :: "'m \<Rightarrow> (string \<times> string) list \<Rightarrow> 'm run" where
  "put_all m [] = Inr m"
| "put_all m ((k, v) # kvs) = bind_run (put m k v) (\<lambda>m'. put_all m' kvs)"

lemma put_all_ok:
  assumes "inv m" and "budget m + 2 * length kvs \<le> str_limit"
    and "\<forall>(k, v) \<in> set kvs. k \<noteq> [] \<and> length k < str_limit \<and> length v = n"
    and "\<forall>k old. abs m k = Some old \<longrightarrow> length old \<le> n" and "n < str_limit"
  shows "\<exists>m'. put_all m kvs = Inr m' \<and> inv m' \<and> abs m' = abs m ++ map_of (rev kvs)
    \<and> budget m' \<le> budget m + 2 * length kvs"
  using assms
proof (induction kvs arbitrary: m)
  case Nil
  then show ?case by simp
next
  case (Cons kv kvs)
  obtain k v where kv: "kv = (k, v)" by (cases kv)
  have "k \<noteq> []" "length k < str_limit" "length v = n"
    using Cons.prems(3) kv by auto
  with Cons.prems kv obtain m1 where m1: "put m k v = Inr m1" "inv m1" "abs m1 = (abs m)(k \<mapsto> v)"
      "budget m1 \<le> budget m + 2"
    using put_law [of m k v] by auto
  have pre: "budget m1 + 2 * length kvs \<le> str_limit"
      "\<forall>(k, v) \<in> set kvs. k \<noteq> [] \<and> length k < str_limit \<and> length v = n"
      "\<forall>k old. abs m1 k = Some old \<longrightarrow> length old \<le> n"
    using Cons.prems(2,3,4) m1(3,4) \<open>length v = n\<close> by auto
  from Cons.IH [OF m1(2) pre Cons.prems(5)] obtain m' where
    "put_all m1 kvs = Inr m'" "inv m'" "abs m' = abs m1 ++ map_of (rev kvs)"
    "budget m' \<le> budget m1 + 2 * length kvs"
    by blast
  then show ?case using m1 kv by (simp add: map_add_upd)
qed

end

end
