(* ===== verification/FastMap.thy ===== *)
theory FastMap
  imports MapTable KVInterface
begin

text \<open>
  \<open>FastMap\<close> (server/include/attokv_server/map.h, server/src/map.cpp): the operations over the
  table and the arena, the representation invariant, and their correctness against the map from
  keys to values (\<open>fm_abs\<close>).
\<close>

section \<open>State and operations\<close>

definition k_default_capacity :: nat where
  "k_default_capacity = 8"

definition k_arena_block_size :: nat where
  "k_arena_block_size = 64 * 1024"

record fast_map =
  m_capacity :: nat
  m_size :: nat
  m_arena :: string_arena
  m_table :: "entry list"

definition fm_new :: "nat \<Rightarrow> fast_map" where
  "fm_new capacity =
     \<lparr>m_capacity = capacity, m_size = 0, m_arena = new_arena k_arena_block_size,
      m_table = replicate capacity null_entry\<rparr>"

definition fm_get :: "fast_map \<Rightarrow> string \<Rightarrow> string option run" where
  "fm_get m key =
     bind_run (get_entry Slot_Match (m_table m) (m_capacity m) (m_arena m) key) (\<lambda>p.
       case p of
         None \<Rightarrow> Inr None
       | Some i \<Rightarrow> bind_run (arena_view (m_arena m) (e_value (m_table m ! i))) (\<lambda>v. Inr (Some v)))"

text \<open>\<open>m_size >= m_capacity * k_load_factor\<close> with \<open>k_load_factor = 0.75\<close>.\<close>

definition over_load_factor :: "fast_map \<Rightarrow> bool" where
  "over_load_factor m \<longleftrightarrow> 3 * m_capacity m \<le> 4 * m_size m"

text \<open>The block of \<open>set\<close> for an entry that is empty: resize if loaded, then claim the slot.\<close>

definition claim_entry :: "fast_map \<Rightarrow> string \<Rightarrow> nat \<Rightarrow> (nat \<times> fast_map) run" where
  "claim_entry m key entry =
     bind_run
       (if over_load_factor m then
          bind_run (resize (m_table m) (m_capacity m) (m_arena m) (m_capacity m * 2)) (\<lambda>table.
            let m1 = m\<lparr>m_table := table, m_capacity := m_capacity m * 2\<rparr>
            in bind_run (get_entry Slot_Match_Or_Empty (m_table m1) (m_capacity m1) (m_arena m1) key)
                 (\<lambda>p. case p of None \<Rightarrow> Inl Null_Dereference | Some i \<Rightarrow> Inr (i, m1)))
        else Inr (entry, m))
       (\<lambda>(i, m1).
          bind_run (arena_store (m_arena m1) key) (\<lambda>(ref, arena).
            Inr (i, m1\<lparr>m_arena := arena,
                       m_table := (m_table m1)[i := (unmark_deleted (m_table m1 ! i))\<lparr>e_key := ref\<rparr>],
                       m_size := m_size m1 + 1\<rparr>)))"

text \<open>The second half of \<open>set\<close>: overwrite the value in place or store it anew.\<close>

definition assign_value :: "fast_map \<Rightarrow> nat \<Rightarrow> string \<Rightarrow> fast_map run" where
  "assign_value m entry val =
     bind_run
       (if length val \<le> unat (ref_size (e_value (m_table m ! entry)))
        then overwrite (m_arena m) (e_value (m_table m ! entry)) val
        else arena_store (m_arena m) val)
       (\<lambda>(ref, arena).
          Inr (m\<lparr>m_arena := arena,
                 m_table := (m_table m)[entry := (m_table m ! entry)\<lparr>e_value := ref\<rparr>]\<rparr>))"

definition fm_set :: "fast_map \<Rightarrow> string \<Rightarrow> string \<Rightarrow> fast_map run" where
  "fm_set m key val =
     bind_run (get_entry Slot_Match_Or_Empty (m_table m) (m_capacity m) (m_arena m) key) (\<lambda>p.
       case p of
         None \<Rightarrow> Inl Null_Dereference
       | Some i \<Rightarrow>
           bind_run (if entry_empty (m_table m ! i) then claim_entry m key i else Inr (i, m))
             (\<lambda>(j, m1). assign_value m1 j val))"

text \<open>The loop of \<open>remove\<close> that moves every string into a new arena.\<close>

fun rebuild_loop ::
  "string_arena \<Rightarrow> entry list \<Rightarrow> string_arena \<Rightarrow> (entry list \<times> string_arena) run" where
  "rebuild_loop arena [] dest = Inr ([], dest)"
| "rebuild_loop arena (e # es) dest =
     (if entry_empty e then
        bind_run (rebuild_loop arena es dest) (\<lambda>(es', a). Inr (e # es', a))
      else
        bind_run (arena_view arena (e_key e)) (\<lambda>k.
        bind_run (arena_store dest k) (\<lambda>(kr, a1).
        bind_run (arena_view arena (e_value e)) (\<lambda>v.
        bind_run (arena_store a1 v) (\<lambda>(vr, a2).
        bind_run (rebuild_loop arena es a2) (\<lambda>(es', a).
          Inr (e\<lparr>e_key := kr, e_value := vr\<rparr> # es', a)))))))"

definition rebuild :: "fast_map \<Rightarrow> fast_map run" where
  "rebuild m =
     (if length (m_table m) < m_capacity m then Inl Out_Of_Bounds
      else bind_run (rebuild_loop (m_arena m) (take (m_capacity m) (m_table m))
                       (new_arena k_arena_block_size))
             (\<lambda>(table, arena).
                Inr (m\<lparr>m_table := table @ drop (m_capacity m) (m_table m), m_arena := arena\<rparr>)))"

definition fm_remove :: "fast_map \<Rightarrow> string \<Rightarrow> (bool \<times> fast_map) run" where
  "fm_remove m key =
     bind_run (get_entry Slot_Match (m_table m) (m_capacity m) (m_arena m) key) (\<lambda>p.
       case p of
         None \<Rightarrow> Inr (False, m)
       | Some i \<Rightarrow>
           bind_run (arena_remove (m_arena m) (e_key (m_table m ! i))) (\<lambda>(_, a1).
           bind_run (arena_remove a1 (e_value (m_table m ! i))) (\<lambda>(_, a2).
             let m1 = m\<lparr>m_arena := a2,
                        m_table := (m_table m)[i := mark_deleted null_entry],
                        m_size := m_size m - 1\<rparr>
             in bind_run (if should_reallocate (m_arena m1) then rebuild m1 else Inr m1)
                  (\<lambda>m2. Inr (True, m2)))))"

definition fm_clear :: "fast_map \<Rightarrow> fast_map" where
  "fm_clear m =
     m\<lparr>m_table := replicate (m_capacity m) null_entry, m_arena := new_arena k_arena_block_size,
       m_size := 0\<rparr>"

section \<open>Abstraction and invariant\<close>

definition live_strs :: "string_arena \<Rightarrow> entry list \<Rightarrow> (string \<times> string) list" where
  "live_strs arena table =
     map (\<lambda>e. (key_str arena e, ref_str arena (e_value e))) (filter (\<lambda>e. \<not> entry_empty e) table)"

definition fm_abs :: "fast_map \<Rightarrow> string \<rightharpoonup> string" where
  "fm_abs m = map_of (live_strs (m_arena m) (m_table m))"

text \<open>The references of a represented map as a family: the key and the value of each key.\<close>

definition cells :: "(string \<rightharpoonup> string_ref \<times> string_ref) \<Rightarrow> string \<times> bool \<Rightarrow> string_ref" where
  "cells E c = (case E (fst c) of None \<Rightarrow> null_ref | Some p \<Rightarrow> if snd c then snd p else fst p)"

definition fm_rep :: "fast_map \<Rightarrow> (string \<rightharpoonup> string_ref \<times> string_ref) \<Rightarrow> bool" where
  "fm_rep m E \<longleftrightarrow> length (m_table m) = m_capacity m \<and> 4 \<le> m_capacity m
     \<and> m_size m = live_count (m_table m) \<and> m_size m < m_capacity m
     \<and> (\<forall>e \<in> set (m_table m). deleted e \<longrightarrow> entry_empty e)
     \<and> (\<forall>e \<in> set (m_table m). entry_empty e \<longrightarrow> refs_of e = (null_ref, null_ref))
     \<and> heap.owned (m_arena m) (cells E)
     \<and> table_rep (key_str (m_arena m)) (m_table m) E"

definition fm_inv :: "fast_map \<Rightarrow> bool" where
  "fm_inv m \<longleftrightarrow> fm_rep m (map_of (live_refs (m_arena m) (m_table m)))"

text \<open>
  The number of arena blocks that the map has, or may need for a compaction of its strings: a
  \<open>set\<close> adds at most 2 to it and no other operation adds to it, so 2^31 - 1 operations on a new
  map keep every block index within its 32 bits.
\<close>

definition fm_budget :: "fast_map \<Rightarrow> nat" where
  "fm_budget m = max (length (m_blocks (m_arena m))) (1 + 2 * m_size m)"

lemma fm_repD:
  assumes "fm_rep m E"
  shows "length (m_table m) = m_capacity m" and "4 \<le> m_capacity m"
    and "m_size m = live_count (m_table m)" and "m_size m < m_capacity m"
    and "heap.owned (m_arena m) (cells E)"
    and "table_rep (key_str (m_arena m)) (m_table m) E"
    and "e \<in> set (m_table m) \<Longrightarrow> deleted e \<Longrightarrow> entry_empty e"
    and "e \<in> set (m_table m) \<Longrightarrow> entry_empty e \<Longrightarrow> e_key e = null_ref"
    and "e \<in> set (m_table m) \<Longrightarrow> entry_empty e \<Longrightarrow> e_value e = null_ref"
  using assms by (auto simp: fm_rep_def)

lemma fm_rep_inv: "fm_rep m E \<Longrightarrow> fm_inv m"
  using table_rep_map_of [OF fm_repD(6)] by (metis fm_inv_def)

lemma fm_inv_rep:
  assumes "fm_inv m"
  obtains E where "fm_rep m E"
  using assms by (auto simp: fm_inv_def)

lemma cells_simps [simp]:
  "E k = None \<Longrightarrow> cells E (k, b) = null_ref"
  "E k = Some p \<Longrightarrow> cells E (k, b) = (if b then snd p else fst p)"
  "cells Map.empty = (\<lambda>_. null_ref)"
  by (simp_all add: cells_def fun_eq_iff)

lemma cells_upd: "cells (E(k \<mapsto> (a, b))) = (cells E)((k, False) := a, (k, True) := b)"
  by (auto simp: cells_def fun_eq_iff)

lemma cells_del: "cells (E(k := None)) = (cells E)((k, False) := null_ref, (k, True) := null_ref)"
  by (auto simp: cells_def fun_eq_iff)

text \<open>What the abstract map is, in terms of the references.\<close>

lemma live_strs_live_refs:
  "live_strs arena table = map (\<lambda>(k, p). (k, ref_str arena (snd p))) (live_refs arena table)"
  by (simp add: live_strs_def live_refs_def)

lemma fm_abs_rep:
  assumes "fm_rep m E"
  shows "fm_abs m k = map_option (\<lambda>p. ref_str (m_arena m) (snd p)) (E k)"
proof -
  have "fm_abs m = map_option (\<lambda>p. ref_str (m_arena m) (snd p)) \<circ> map_of (live_refs (m_arena m) (m_table m))"
    by (simp add: fm_abs_def live_strs_live_refs map_of_map)
  then show ?thesis
    using table_rep_map_of [OF fm_repD(6) [OF assms]] by simp
qed

lemma fm_abs_contents:
  assumes "fm_rep m E"
  shows "fm_abs m k =
    (if E k = None then None else Some (heap.contents (m_arena m) (cells E) (k, True)))"
  using fm_abs_rep [OF assms, of k] by (cases "E k") (simp_all add: heap.contents_def)

text \<open>The strings at the key cells are the keys.\<close>

lemma fm_rep_entry:
  assumes rep: "fm_rep m E" and i: "i < length (m_table m)" "\<not> entry_empty (m_table m ! i)"
  shows "E (key_str (m_arena m) (m_table m ! i)) = Some (refs_of (m_table m ! i))"
  by (rule table_rep_live [OF fm_repD(6) [OF rep] i])

lemma fm_rep_key:
  assumes rep: "fm_rep m E" and E: "E k = Some p"
  shows "ref_str (m_arena m) (fst p) = k" and "\<not> ref_empty (fst p)"
proof -
  obtain i where "i < length (m_table m)" "refs_of (m_table m ! i) = p"
      "\<not> entry_empty (m_table m ! i)" "key_str (m_arena m) (m_table m ! i) = k"
    by (rule table_rep_Some [OF fm_repD(6) [OF rep] E])
  then show "ref_str (m_arena m) (fst p) = k" and "\<not> ref_empty (fst p)"
    by (auto simp: entry_empty_def)
qed

lemma fm_rep_key_contents:
  assumes rep: "fm_rep m E" and E: "E k = Some p"
  shows "heap.contents (m_arena m) (cells E) (k, False) = k"
  using fm_rep_key [OF rep E] E by (simp add: heap.contents_def)

lemma fm_rep_table_ok:
  assumes rep: "fm_rep m E"
  shows "table_ok (m_arena m) (m_table m)"
proof -
  have "arena_view (m_arena m) (e_key e) = Inr (key_str (m_arena m) e)" if e: "e \<in> set (m_table m)" for e
  proof (cases "entry_empty e")
    case True
    then show ?thesis using fm_repD(8) [OF rep e] by (simp add: arena_view_def)
  next
    case False
    from e obtain i where i: "i < length (m_table m)" "m_table m ! i = e"
      by (auto simp: in_set_conv_nth)
    with False have "E (key_str (m_arena m) e) = Some (refs_of e)"
      using fm_rep_entry [OF rep, of i] by simp
    then have "cells E (key_str (m_arena m) e, False) = e_key e" by simp
    then have "valid_ref (m_arena m) (e_key e)"
      using heap.ownedD(2) [OF fm_repD(5) [OF rep]] by metis
    then show ?thesis
      by (intro arena_view_valid) (rule heap.ownedD(1) [OF fm_repD(5) [OF rep]])
  qed
  moreover have "m_table m \<noteq> []" using fm_repD(1,2) [OF rep] by auto
  ultimately show ?thesis using fm_repD(7-9) [OF rep] by (auto simp: table_ok_def)
qed

section \<open>get\<close>

lemma fm_get_ok:
  assumes rep: "fm_rep m E"
  shows "fm_get m k = Inr (fm_abs m k)"
proof (cases "E k")
  case None
  then show ?thesis
    using get_entry_None [OF fm_rep_table_ok [OF rep] fm_repD(6) [OF rep]] fm_repD(1) [OF rep]
      fm_abs_rep [OF rep, of k]
    by (simp add: fm_get_def)
next
  case (Some p)
  from get_entry_Some [OF fm_rep_table_ok [OF rep] fm_repD(6) [OF rep] Some, of Slot_Match]
  obtain i where i: "get_entry Slot_Match (m_table m) (length (m_table m)) (m_arena m) k = Inr (Some i)"
    "refs_of (m_table m ! i) = p" by auto
  have "arena_view (m_arena m) (cells E (k, True))
      = Inr (heap.contents (m_arena m) (cells E) (k, True))"
    by (rule heap.owned_look [OF fm_repD(5) [OF rep]])
  then show ?thesis
    using i Some fm_repD(1) [OF rep] fm_abs_contents [OF rep, of k]
    by (auto simp: fm_get_def)
qed

section \<open>set\<close>

lemma fm_rep_entry_valid:
  assumes rep: "fm_rep m E" and E: "E k = Some p"
  shows "valid_ref (m_arena m) (fst p)" and "valid_ref (m_arena m) (snd p)"
  using heap.ownedD(2) [OF fm_repD(5) [OF rep], of "(k, False)"]
    heap.ownedD(2) [OF fm_repD(5) [OF rep], of "(k, True)"] E by simp_all

text \<open>A step that changes only cells of the key \<open>k\<close> leaves the keys of the other entries.\<close>

lemma fm_rep_other_keys:
  assumes rep: "fm_rep m E"
    and cont: "\<And>k'. k' \<noteq> k \<Longrightarrow> E k' \<noteq> None \<Longrightarrow>
      ref_str arena' (cells E (k', False)) = ref_str (m_arena m) (cells E (k', False))"
    and i: "i < length (m_table m)" "\<not> entry_empty (m_table m ! i)"
    and ne: "key_str (m_arena m) (m_table m ! i) \<noteq> k"
  shows "key_str arena' (m_table m ! i) = key_str (m_arena m) (m_table m ! i)"
  using cont [OF ne] fm_rep_entry [OF rep i] by simp

lemma fm_rep_unique:
  assumes rep: "fm_rep m E" and "i < length (m_table m)" "\<not> entry_empty (m_table m ! i)"
    and "j < length (m_table m)" "\<not> entry_empty (m_table m ! j)" and "j \<noteq> i"
  shows "key_str (m_arena m) (m_table m ! j) \<noteq> key_str (m_arena m) (m_table m ! i)"
  using table_repD(2) [OF fm_repD(6) [OF rep] assms(4,2,5,3)] assms(6) by blast

text \<open>
  Putting together a represented map after the entry at \<open>i\<close> has been given new references.
\<close>

lemma fm_rep_write:
  assumes rep: "fm_rep m E" and i: "i < length (m_table m)"
    and slot: "entry_empty (m_table m ! i) \<and> E k = None \<and> path_to (m_table m) k i
        \<or> \<not> entry_empty (m_table m ! i) \<and> key_str (m_arena m) (m_table m ! i) = k"
    and own: "heap.owned arena (cells (E(k \<mapsto> refs_of e)))"
    and cont: "\<And>k'. k' \<noteq> k \<Longrightarrow>
      heap.contents arena (cells (E(k \<mapsto> refs_of e))) (k', False)
        = heap.contents (m_arena m) (cells E) (k', False)"
    and key: "key_str arena e = k" and ne: "\<not> entry_empty e" and nd: "\<not> deleted e"
    and size: "n = m_size m + (if entry_empty (m_table m ! i) then 1 else 0)"
    and small: "n < m_capacity m"
  shows "fm_rep (m\<lparr>m_arena := arena, m_table := (m_table m)[i := e], m_size := n\<rparr>)
    (E(k \<mapsto> refs_of e))"
proof -
  note d = fm_repD [OF rep]
  have cont': "ref_str arena (cells E (k', False)) = ref_str (m_arena m) (cells E (k', False))"
    if "k' \<noteq> k" for k'
    using cont [OF that] that by (simp add: heap.contents_def cells_def)
  have same: "key_str arena (m_table m ! j) = key_str (m_arena m) (m_table m ! j)"
    if j: "j < length (m_table m)" "\<not> entry_empty (m_table m ! j)" "j \<noteq> i" for j
  proof -
    have "key_str (m_arena m) (m_table m ! j) \<noteq> k"
      using slot fm_rep_unique [OF rep i _ j] table_rep_None [OF d(6) _ j(1,2), of k] by metis
    then show ?thesis using cont' fm_rep_other_keys [OF rep _ j(1,2), of k arena] by blast
  qed
  have "table_rep (key_str arena) ((m_table m)[i := e]) (E(k \<mapsto> refs_of e))"
    by (rule table_rep_write [OF d(6) i slot ne key same])
  moreover have "live_count ((m_table m)[i := e]) = n"
    using live_count_update [OF i, of e] ne size d(3) by (auto split: if_splits)
  moreover have "x = e \<or> x \<in> set (m_table m)" if "x \<in> set ((m_table m)[i := e])" for x
    using that set_update_subset_insert [of "m_table m" i e] by auto
  ultimately show ?thesis
    unfolding fm_rep_def using d own small ne nd by auto
qed

lemma assign_value_ok:
  assumes rep: "fm_rep m E" and i: "i < length (m_table m)" "\<not> entry_empty (m_table m ! i)"
    and k: "key_str (m_arena m) (m_table m ! i) = k" and room: "arena_room (m_arena m) val"
    and old: "fm_abs m k = Some old" "length old \<le> length val"
  obtains m' E' where "assign_value m i val = Inr m'" and "fm_rep m' E'"
    and "fm_abs m' = (fm_abs m)(k \<mapsto> val)" and "m_size m' = m_size m"
    and "length (m_blocks (m_arena m')) \<le> Suc (length (m_blocks (m_arena m)))"
proof -
  note own = fm_repD(5) [OF rep]
  let ?e = "m_table m ! i"
  have E: "E k = Some (refs_of ?e)" using fm_rep_entry [OF rep i] k by simp
  have cellv: "cells E (k, True) = e_value ?e" and cellk: "cells E (k, False) = e_key ?e"
    using E by simp_all
  have valv: "heap.contents (m_arena m) (cells E) (k, True) = old"
    using fm_abs_contents [OF rep, of k] old(1) E by simp
  have size: "unat (ref_size (e_value ?e)) = length old"
    using length_ref_str [OF heap.ownedD(1) [OF own] fm_rep_entry_valid(2) [OF rep E]] valv cellv
    by (simp add: heap.contents_def)
  obtain r a where
    step: "(if length val \<le> unat (ref_size (e_value ?e)) then overwrite (m_arena m) (e_value ?e) val
            else arena_store (m_arena m) val) = Inr (r, a)" and
    own': "heap.owned a ((cells E)((k, True) := r))" and
    cont: "heap.contents a ((cells E)((k, True) := r))
        = (heap.contents (m_arena m) (cells E))((k, True) := val)" and
    blocks: "length (m_blocks a) \<le> Suc (length (m_blocks (m_arena m)))"
  proof (cases "length val \<le> length old")
    case True
    then have "length val = length (heap.contents (m_arena m) (cells E) (k, True))"
      using old(2) valv by simp
    from heap.owned_over [OF own this] show thesis
      using that True size cellv by (metis order_refl le_SucI)
  next
    case False
    from heap.owned_put [OF own room, of "(k, True)"] show thesis
      using that False size by metis
  qed
  define e' where "e' = ?e\<lparr>e_value := r\<rparr>"
  have cellsE: "cells (E(k \<mapsto> refs_of e')) = (cells E)((k, True) := r)"
    using E by (auto simp: cells_def e'_def fun_eq_iff)
  have eq: "assign_value m i val = Inr (m\<lparr>m_arena := a, m_table := (m_table m)[i := e'], m_size := m_size m\<rparr>)"
    using step by (simp add: assign_value_def e'_def)
  have keya: "key_str a e' = k"
    using fun_cong [OF cont, of "(k, False)"] fm_rep_key_contents [OF rep E] cellk
    by (simp add: heap.contents_def e'_def)
  have nd: "\<not> deleted e'" and ne: "\<not> entry_empty e'"
    using fm_repD(7) [OF rep nth_mem [OF i(1)]] i(2) by (auto simp: e'_def)
  have rep': "fm_rep (m\<lparr>m_arena := a, m_table := (m_table m)[i := e'], m_size := m_size m\<rparr>)
      (E(k \<mapsto> refs_of e'))"
    by (rule fm_rep_write [OF rep i(1)])
       (use own' cont keya nd ne i k fm_repD(4) [OF rep] in \<open>simp_all add: cellsE\<close>)
  have "fm_abs (m\<lparr>m_arena := a, m_table := (m_table m)[i := e'], m_size := m_size m\<rparr>)
      = (fm_abs m)(k \<mapsto> val)"
    using fm_abs_contents [OF rep'] fm_abs_contents [OF rep] cont
    by (auto simp: fun_eq_iff cellsE)
  with eq rep' show thesis by (rule that) (simp_all add: blocks)
qed

text \<open>A value that is strictly shorter than the one it replaces is never stored.\<close>

lemma assign_value_shorter:
  assumes rep: "fm_rep m E" and i: "i < length (m_table m)" "\<not> entry_empty (m_table m ! i)"
    and k: "key_str (m_arena m) (m_table m ! i) = k"
    and old: "fm_abs m k = Some old" "length val < length old"
  shows "assign_value m i val = Inl Out_Of_Bounds"
proof -
  have E: "E k = Some (refs_of (m_table m ! i))" using fm_rep_entry [OF rep i] k by simp
  note v = heap.ownedD(1) [OF fm_repD(5) [OF rep]] fm_rep_entry_valid(2) [OF rep E]
  have "unat (ref_size (e_value (m_table m ! i))) = length old"
    using length_ref_str [OF v] fm_abs_rep [OF rep, of k] old(1) E by simp
  then show ?thesis
    using overwrite_shorter [OF v, of val] old(2) by (simp add: assign_value_def)
qed

text \<open>Claiming a free slot of the probe path, without a resize.\<close>

lemma claim_slot:
  assumes rep: "fm_rep m E" and i: "i < length (m_table m)" "entry_empty (m_table m ! i)"
    and path: "path_to (m_table m) k i" and k: "E k = None" "k \<noteq> []"
    and room: "arena_room (m_arena m) k" and size: "Suc (m_size m) < m_capacity m"
  obtains r a m' E' where "arena_store (m_arena m) k = Inr (r, a)"
    and "m' = m\<lparr>m_arena := a, m_table := (m_table m)[i := (unmark_deleted (m_table m ! i))\<lparr>e_key := r\<rparr>],
                m_size := m_size m + 1\<rparr>"
    and "fm_rep m' E'" and "fm_abs m' = (fm_abs m)(k \<mapsto> [])"
    and "length (m_blocks a) \<le> Suc (length (m_blocks (m_arena m)))"
    and "\<not> entry_empty (m_table m' ! i)" and "key_str a (m_table m' ! i) = k"
proof -
  note own = fm_repD(5) [OF rep]
  from heap.owned_put [OF own room, of "(k, False)"] obtain r a where
    st: "arena_store (m_arena m) k = Inr (r, a)" and
    own': "heap.owned a ((cells E)((k, False) := r))" and
    cont: "heap.contents a ((cells E)((k, False) := r))
        = (heap.contents (m_arena m) (cells E))((k, False) := k)" and
    blocks: "length (m_blocks a) \<le> Suc (length (m_blocks (m_arena m)))"
    by metis
  define e where "e = (unmark_deleted (m_table m ! i))\<lparr>e_key := r\<rparr>"
  define m' where "m' = m\<lparr>m_arena := a, m_table := (m_table m)[i := e], m_size := m_size m + 1\<rparr>"
  have refs: "refs_of e = (r, null_ref)"
    using fm_repD(9) [OF rep nth_mem [OF i(1)] i(2)] by (simp add: e_def)
  have cellsE: "cells (E(k \<mapsto> refs_of e)) = (cells E)((k, False) := r)"
    using k by (auto simp: cells_def refs fun_eq_iff)
  have key: "key_str a e = k"
    using fun_cong [OF cont, of "(k, False)"] refs by (simp add: heap.contents_def)
  have "valid_ref a r" using heap.ownedD(2) [OF own', of "(k, False)"] by simp
  then have ne: "\<not> entry_empty e"
    using ref_str_eq_Nil [OF heap.ownedD(1) [OF own'], of r] key k refs by (auto simp: entry_empty_def)
  have nd: "\<not> deleted e" by (simp add: e_def)
  have rep': "fm_rep m' (E(k \<mapsto> refs_of e))"
    unfolding m'_def
    by (rule fm_rep_write [OF rep i(1)])
       (use own' cont key ne nd i k path size in \<open>simp_all add: cellsE\<close>)
  have abs: "fm_abs m' = (fm_abs m)(k \<mapsto> [])"
  proof
    fix x
    have c: "heap.contents (m_arena m') (cells (E(k \<mapsto> refs_of e))) (x, True)
        = heap.contents (m_arena m) (cells E) (x, True)"
      using fun_cong [OF cont, of "(x, True)"] unfolding cellsE by (simp add: m'_def)
    have "heap.contents (m_arena m) (cells E) (k, True) = []"
      using k by (simp add: heap.contents_def)
    with c show "fm_abs m' x = ((fm_abs m)(k \<mapsto> [])) x"
      using fm_abs_contents [OF rep', of x] fm_abs_contents [OF rep, of x] by auto
  qed
  show thesis
    by (rule that [OF st _ rep' abs])
       (use blocks ne key i in \<open>simp_all add: m'_def e_def\<close>)
qed

lemma fm_rep_resized:
  assumes rep: "fm_rep m E"
  obtains table where "resize (m_table m) (m_capacity m) (m_arena m) (m_capacity m * 2) = Inr table"
    and "fm_rep (m\<lparr>m_table := table, m_capacity := m_capacity m * 2\<rparr>) E"
proof -
  note d = fm_repD [OF rep]
  have "live_count (m_table m) < m_capacity m * 2" using d(3,4) by simp
  from resize_ok [OF fm_rep_table_ok [OF rep] d(6) this] obtain table where
    t: "resize (m_table m) (m_capacity m) (m_arena m) (m_capacity m * 2) = Inr table"
      "length table = m_capacity m * 2" "table_ok (m_arena m) table"
      "table_rep (key_str (m_arena m)) table E" "live_count table = live_count (m_table m)"
    using d(1) by metis
  then show thesis using d
    by (intro that) (auto simp: fm_rep_def table_ok_def)
qed

lemma fm_rep_free_slot:
  assumes rep: "fm_rep m E" and k: "E k = None"
  obtains i where "get_entry Slot_Match_Or_Empty (m_table m) (m_capacity m) (m_arena m) k = Inr (Some i)"
    and "i < length (m_table m)" and "entry_empty (m_table m ! i)" and "path_to (m_table m) k i"
proof -
  have "\<exists>i < length (m_table m). entry_empty (m_table m ! i)"
    using fm_repD(1,3,4) [OF rep] by (intro live_count_free) simp
  then show thesis
    using get_entry_free [OF fm_rep_table_ok [OF rep], of Slot_Match_Or_Empty E k] k
      fm_repD(1,6) [OF rep] that by auto
qed

lemma claim_entry_ok:
  assumes rep: "fm_rep m E" and i: "i < length (m_table m)" "entry_empty (m_table m ! i)"
    and path: "path_to (m_table m) k i" and k: "E k = None" "k \<noteq> []"
    and room: "arena_room (m_arena m) k"
  obtains j m' E' where "claim_entry m k i = Inr (j, m')" and "fm_rep m' E'"
    and "j < length (m_table m')" and "\<not> entry_empty (m_table m' ! j)"
    and "key_str (m_arena m') (m_table m' ! j) = k" and "fm_abs m' = (fm_abs m)(k \<mapsto> [])"
    and "m_size m' = Suc (m_size m)"
    and "length (m_blocks (m_arena m')) \<le> Suc (length (m_blocks (m_arena m)))"
proof -
  obtain j m1 where
    grow: "(if over_load_factor m then
          bind_run (resize (m_table m) (m_capacity m) (m_arena m) (m_capacity m * 2)) (\<lambda>table.
            let m1 = m\<lparr>m_table := table, m_capacity := m_capacity m * 2\<rparr>
            in bind_run (get_entry Slot_Match_Or_Empty (m_table m1) (m_capacity m1) (m_arena m1) k)
                 (\<lambda>p. case p of None \<Rightarrow> Inl Null_Dereference | Some i \<Rightarrow> Inr (i, m1)))
        else Inr (i, m)) = Inr (j, m1)" and
    m1: "fm_rep m1 E" "m_arena m1 = m_arena m" "m_size m1 = m_size m"
      "Suc (m_size m1) < m_capacity m1" and
    j: "j < length (m_table m1)" "entry_empty (m_table m1 ! j)" "path_to (m_table m1) k j"
  proof (cases "over_load_factor m")
    case True
    obtain table where t: "resize (m_table m) (m_capacity m) (m_arena m) (m_capacity m * 2) = Inr table"
      "fm_rep (m\<lparr>m_table := table, m_capacity := m_capacity m * 2\<rparr>) E"
      by (rule fm_rep_resized [OF rep])
    obtain j where "get_entry Slot_Match_Or_Empty table (m_capacity m * 2) (m_arena m) k = Inr (Some j)"
      "j < length table" "entry_empty (table ! j)" "path_to table k j"
      by (rule fm_rep_free_slot [OF t(2) k(1)]) simp
    then show thesis
      using t True fm_repD(2,4) [OF rep]
      by (intro that [of j "m\<lparr>m_table := table, m_capacity := m_capacity m * 2\<rparr>"]) simp_all
  next
    case False
    then have "Suc (m_size m) < m_capacity m"
      using fm_repD(2) [OF rep] by (simp add: over_load_factor_def)
    then show thesis using False rep i path by (intro that [of i m]) simp_all
  qed
  have room1: "arena_room (m_arena m1) k" using room m1(2) by simp
  obtain r a m' E' where c: "arena_store (m_arena m1) k = Inr (r, a)"
    "m' = m1\<lparr>m_arena := a, m_table := (m_table m1)[j := (unmark_deleted (m_table m1 ! j))\<lparr>e_key := r\<rparr>],
              m_size := m_size m1 + 1\<rparr>"
    "fm_rep m' E'" "fm_abs m' = (fm_abs m1)(k \<mapsto> [])"
    "length (m_blocks a) \<le> Suc (length (m_blocks (m_arena m1)))"
    "\<not> entry_empty (m_table m' ! j)" "key_str a (m_table m' ! j) = k"
    by (rule claim_slot [OF m1(1) j k room1 m1(4)])
  have abs: "fm_abs m1 = fm_abs m"
    using fm_abs_rep [OF m1(1)] fm_abs_rep [OF rep] m1(2) by (simp add: fun_eq_iff)
  have eq: "claim_entry m k i = Inr (j, m')"
    unfolding claim_entry_def grow using c(1,2) by simp
  show thesis
    by (rule that [OF eq c(3)]) (use c m1 j abs in simp_all)
qed

text \<open>
  \<open>set\<close> splits into finding the slot, which never faults and makes the key present, and the
  assignment of the value.
\<close>

lemma fm_set_slot:
  assumes rep: "fm_rep m E" and k: "k \<noteq> []" and room: "arena_room (m_arena m) k"
  obtains m1 j E1 where "\<forall>v. fm_set m k v = assign_value m1 j v" and "fm_rep m1 E1"
    and "j < length (m_table m1)" and "\<not> entry_empty (m_table m1 ! j)"
    and "key_str (m_arena m1) (m_table m1 ! j) = k"
    and "fm_abs m1 = (case fm_abs m k of None \<Rightarrow> (fm_abs m)(k \<mapsto> []) | Some _ \<Rightarrow> fm_abs m)"
    and "m_size m1 = (case fm_abs m k of None \<Rightarrow> Suc (m_size m) | Some _ \<Rightarrow> m_size m)"
    and "length (m_blocks (m_arena m1)) \<le> Suc (length (m_blocks (m_arena m)))"
proof (cases "E k")
  case None
  then have abs: "fm_abs m k = None" using fm_abs_rep [OF rep] by simp
  obtain i where i: "get_entry Slot_Match_Or_Empty (m_table m) (m_capacity m) (m_arena m) k = Inr (Some i)"
    "i < length (m_table m)" "entry_empty (m_table m ! i)" "path_to (m_table m) k i"
    by (rule fm_rep_free_slot [OF rep None])
  obtain j m1 E1 where c: "claim_entry m k i = Inr (j, m1)" "fm_rep m1 E1"
    "j < length (m_table m1)" "\<not> entry_empty (m_table m1 ! j)"
    "key_str (m_arena m1) (m_table m1 ! j) = k" "fm_abs m1 = (fm_abs m)(k \<mapsto> [])"
    "m_size m1 = Suc (m_size m)"
    "length (m_blocks (m_arena m1)) \<le> Suc (length (m_blocks (m_arena m)))"
    by (rule claim_entry_ok [OF rep i(2-4) None k room])
  have "\<forall>v. fm_set m k v = assign_value m1 j v"
    using i c(1) by (simp add: fm_set_def)
  then show thesis
    by (rule that [OF _ c(2-5)]) (simp_all add: abs c(6-8))
next
  case (Some p)
  then have abs: "fm_abs m k \<noteq> None" using fm_abs_rep [OF rep] by simp
  obtain i where i: "get_entry Slot_Match_Or_Empty (m_table m) (length (m_table m)) (m_arena m) k = Inr (Some i)"
    "i < length (m_table m)" "\<not> entry_empty (m_table m ! i)"
    "key_str (m_arena m) (m_table m ! i) = k"
    by (rule get_entry_Some [OF fm_rep_table_ok [OF rep] fm_repD(6) [OF rep] Some,
          of Slot_Match_Or_Empty]) simp
  have "\<forall>v. fm_set m k v = assign_value m i v"
    using i fm_repD(1) [OF rep] by (simp add: fm_set_def)
  then show thesis
    by (rule that [OF _ rep i(2-4)]) (use abs in auto)
qed

definition fm_room :: "fast_map \<Rightarrow> string \<Rightarrow> string \<Rightarrow> bool" where
  "fm_room m k val \<longleftrightarrow> length k < 4294967296 \<and> length val < 4294967296
     \<and> fm_budget m + 2 \<le> 4294967296"

lemma fm_set_ok:
  assumes rep: "fm_rep m E" and k: "k \<noteq> []" and room: "fm_room m k val"
    and fits: "\<And>old. fm_abs m k = Some old \<Longrightarrow> length old \<le> length val"
  obtains m' E' where "fm_set m k val = Inr m'" and "fm_rep m' E'"
    and "fm_abs m' = (fm_abs m)(k \<mapsto> val)" and "fm_budget m' \<le> fm_budget m + 2"
proof -
  have "arena_room (m_arena m) k" using room by (simp add: fm_room_def arena_room_def fm_budget_def)
  then obtain m1 j E1 where s: "\<forall>v. fm_set m k v = assign_value m1 j v" "fm_rep m1 E1"
    "j < length (m_table m1)" "\<not> entry_empty (m_table m1 ! j)"
    "key_str (m_arena m1) (m_table m1 ! j) = k"
    "fm_abs m1 = (case fm_abs m k of None \<Rightarrow> (fm_abs m)(k \<mapsto> []) | Some _ \<Rightarrow> fm_abs m)"
    "m_size m1 = (case fm_abs m k of None \<Rightarrow> Suc (m_size m) | Some _ \<Rightarrow> m_size m)"
    "length (m_blocks (m_arena m1)) \<le> Suc (length (m_blocks (m_arena m)))"
    by (rule fm_set_slot [OF rep k])
  have room1: "arena_room (m_arena m1) val"
    using room s(8) by (simp add: fm_room_def arena_room_def fm_budget_def)
  obtain old where old: "fm_abs m1 k = Some old" "length old \<le> length val"
    using s(6) fits by (cases "fm_abs m k") auto
  obtain m' E' where a: "assign_value m1 j val = Inr m'" "fm_rep m' E'"
    "fm_abs m' = (fm_abs m1)(k \<mapsto> val)" "m_size m' = m_size m1"
    "length (m_blocks (m_arena m')) \<le> Suc (length (m_blocks (m_arena m1)))"
    by (rule assign_value_ok [OF s(2-5) room1 old])
  have "fm_abs m' = (fm_abs m)(k \<mapsto> val)"
    unfolding a(3) s(6) by (cases "fm_abs m k") simp_all
  moreover have "fm_budget m' \<le> fm_budget m + 2"
    using a(4,5) s(7,8) by (cases "fm_abs m k") (auto simp: fm_budget_def max_def)
  ultimately show thesis using a(1,2) s(1) by (intro that) simp_all
qed

lemma fm_set_shorter:
  assumes rep: "fm_rep m E" and room: "fm_room m k val"
    and old: "fm_abs m k = Some old" "length val < length old"
  shows "fm_set m k val = Inl Out_Of_Bounds"
proof -
  have r: "arena_room (m_arena m) k" using room by (simp add: fm_room_def arena_room_def fm_budget_def)
  obtain p where p: "E k = Some p" using old(1) fm_abs_rep [OF rep] by auto
  have "ref_str (m_arena m) (fst p) \<noteq> []"
    using ref_str_eq_Nil [OF heap.ownedD(1) [OF fm_repD(5) [OF rep]] fm_rep_entry_valid(1) [OF rep p]]
      fm_rep_key(2) [OF rep p] by simp
  then have k: "k \<noteq> []" using fm_rep_key(1) [OF rep p] by simp
  obtain m1 j E1 where s: "\<forall>v. fm_set m k v = assign_value m1 j v" "fm_rep m1 E1"
    "j < length (m_table m1)" "\<not> entry_empty (m_table m1 ! j)"
    "key_str (m_arena m1) (m_table m1 ! j) = k"
    "fm_abs m1 = (case fm_abs m k of None \<Rightarrow> (fm_abs m)(k \<mapsto> []) | Some _ \<Rightarrow> fm_abs m)"
    "m_size m1 = (case fm_abs m k of None \<Rightarrow> Suc (m_size m) | Some _ \<Rightarrow> m_size m)"
    "length (m_blocks (m_arena m1)) \<le> Suc (length (m_blocks (m_arena m)))"
    by (rule fm_set_slot [OF rep k r])
  then have "fm_abs m1 k = Some old" using old(1) by simp
  then show ?thesis
    using s(1) assign_value_shorter [OF s(2-5) _ old(2)] by simp
qed

section \<open>clear and the constructor\<close>

lemma fm_rep_fresh:
  assumes "4 \<le> cap"
  shows "fm_rep (fm_new cap) Map.empty"
proof -
  have "heap.owned (new_arena k_arena_block_size) (cells Map.empty)"
    unfolding cells_simps
    by (rule heap.owned_none) (simp add: wf_new_arena k_arena_block_size_def)
  then show ?thesis
    using assms by (auto simp: fm_rep_def fm_new_def table_rep_fresh)
qed

lemma fm_clear_eq: "fm_clear m = fm_new (m_capacity m)"
  by (simp add: fm_clear_def fm_new_def)

lemma fm_new_abs [simp]: "fm_abs (fm_new cap) = Map.empty"
  by (simp add: fm_abs_def fm_new_def live_strs_def)

lemma fm_new_budget [simp]: "fm_budget (fm_new cap) = 1"
  by (simp add: fm_budget_def fm_new_def)

section \<open>Moving the strings to a new arena\<close>

text \<open>How an entry relates to what the rebuilding loop makes of it.\<close>

definition moved ::
  "string_arena \<Rightarrow> string_arena \<Rightarrow> (string \<rightharpoonup> string_ref \<times> string_ref) \<Rightarrow> entry \<Rightarrow> entry \<Rightarrow> bool" where
  "moved arena arena' G e e' \<longleftrightarrow>
     (if entry_empty e then e' = e
      else \<not> entry_empty e' \<and> deleted e' = deleted e
        \<and> key_str arena' e' = key_str arena e
        \<and> ref_str arena' (e_value e') = ref_str arena (e_value e)
        \<and> G (key_str arena e) = Some (refs_of e'))"

definition movable :: "string_arena \<Rightarrow> entry \<Rightarrow> bool" where
  "movable arena e \<longleftrightarrow> entry_empty e \<or>
     (arena_view arena (e_key e) = Inr (key_str arena e)
      \<and> arena_view arena (e_value e) = Inr (ref_str arena (e_value e))
      \<and> key_str arena e \<noteq> [] \<and> length (key_str arena e) < 4294967296
      \<and> length (ref_str arena (e_value e)) < 4294967296)"

lemma rebuild_loop_ok:
  assumes "\<forall>e \<in> set es. movable arena e"
    and "distinct (map fst (live_refs arena es))"
    and "\<forall>k \<in> fst ` set (live_refs arena es). G k = None"
    and "heap.owned a (cells G)"
    and "length (m_blocks a) + 2 * live_count es \<le> 4294967296"
  shows "\<exists>es' a' G'. rebuild_loop arena es a = Inr (es', a') \<and> heap.owned a' (cells G')
    \<and> (\<forall>k. G k \<noteq> None \<longrightarrow> G' k = G k
         \<and> (\<forall>b. heap.contents a' (cells G') (k, b) = heap.contents a (cells G) (k, b)))
    \<and> (\<forall>k. G' k \<noteq> None \<longrightarrow> G k \<noteq> None \<or> k \<in> fst ` set (live_refs arena es))
    \<and> list_all2 (moved arena a' G') es es'
    \<and> length (m_blocks a') \<le> length (m_blocks a) + 2 * live_count es"
  using assms
proof (induction es arbitrary: a G)
  case Nil
  then show ?case by (intro exI [of _ "[]"] exI [of _ a] exI [of _ G]) (simp add: live_count_def)
next
  case (Cons e es)
  show ?case
  proof (cases "entry_empty e")
    case True
    from Cons.IH [of G a] Cons.prems True obtain es' a' G' where
      IH: "rebuild_loop arena es a = Inr (es', a')" "heap.owned a' (cells G')"
      "\<forall>k. G k \<noteq> None \<longrightarrow> G' k = G k
         \<and> (\<forall>b. heap.contents a' (cells G') (k, b) = heap.contents a (cells G) (k, b))"
      "\<forall>k. G' k \<noteq> None \<longrightarrow> G k \<noteq> None \<or> k \<in> fst ` set (live_refs arena es)"
      "list_all2 (moved arena a' G') es es'"
      "length (m_blocks a') \<le> length (m_blocks a) + 2 * live_count es"
      by (auto simp: live_count_def)
    have "rebuild_loop arena (e # es) a = Inr (e # es', a')" using IH(1) True by simp
    moreover have "list_all2 (moved arena a' G') (e # es) (e # es')"
      using IH(5) True by (simp add: moved_def)
    moreover have "live_count (e # es) = live_count es" using True by (simp add: live_count_def)
    ultimately show ?thesis using IH(2,3,4,6) True
      by (intro exI [of _ "e # es'"] exI [of _ a'] exI [of _ G']) simp
  next
    case False
    let ?k = "key_str arena e" and ?v = "ref_str arena (e_value e)"
    have count: "live_count (e # es) = Suc (live_count es)"
      using False by (simp add: live_count_def)
    have mv: "arena_view arena (e_key e) = Inr ?k" "arena_view arena (e_value e) = Inr ?v"
        "?k \<noteq> []" "length ?k < 4294967296" "length ?v < 4294967296"
      using Cons.prems(1) False by (simp_all add: movable_def)
    have Gk: "G ?k = None" using Cons.prems(3) False by simp
    have "arena_room a ?k" using Cons.prems(5) mv(4) count by (simp add: arena_room_def)
    from heap.owned_put [OF Cons.prems(4) this, of "(?k, False)"] obtain kr a1 where
      p1: "arena_store a ?k = Inr (kr, a1)" "heap.owned a1 ((cells G)((?k, False) := kr))"
      "heap.contents a1 ((cells G)((?k, False) := kr))
         = (heap.contents a (cells G))((?k, False) := ?k)"
      "length (m_blocks a1) \<le> Suc (length (m_blocks a))"
      by metis
    have "arena_room a1 ?v" using Cons.prems(5) mv(5) count p1(4) by (simp add: arena_room_def)
    from heap.owned_put [OF p1(2) this, of "(?k, True)"] obtain vr a2 where
      p2: "arena_store a1 ?v = Inr (vr, a2)"
      "heap.owned a2 ((cells G)((?k, False) := kr, (?k, True) := vr))"
      "heap.contents a2 ((cells G)((?k, False) := kr, (?k, True) := vr))
         = (heap.contents a1 ((cells G)((?k, False) := kr)))((?k, True) := ?v)"
      "length (m_blocks a2) \<le> Suc (length (m_blocks a1))"
      by metis
    define G1 where "G1 = G(?k \<mapsto> (kr, vr))"
    have own1: "heap.owned a2 (cells G1)" using p2(2) by (simp only: G1_def cells_upd)
    have cont1: "heap.contents a2 (cells G1)
        = (heap.contents a (cells G))((?k, False) := ?k, (?k, True) := ?v)"
      using p1(3) p2(3) by (simp only: G1_def cells_upd)
    have fresh: "\<forall>k \<in> fst ` set (live_refs arena es). G1 k = None"
    proof
      fix k assume k: "k \<in> fst ` set (live_refs arena es)"
      moreover have "?k \<notin> fst ` set (live_refs arena es)" using Cons.prems(2) False by simp
      ultimately have "k \<noteq> ?k" by metis
      with k show "G1 k = None" using Cons.prems(3) False by (auto simp: G1_def)
    qed
    have es: "\<forall>e \<in> set es. movable arena e" "distinct (map fst (live_refs arena es))"
        "length (m_blocks a2) + 2 * live_count es \<le> 4294967296"
      using Cons.prems(1,2,5) False count p1(4) p2(4) by simp_all
    from Cons.IH [OF es(1,2) fresh own1 es(3)] obtain es' a' G' where
      IH: "rebuild_loop arena es a2 = Inr (es', a')" "heap.owned a' (cells G')"
      "\<And>k b. G1 k \<noteq> None \<Longrightarrow> G' k = G1 k
         \<and> heap.contents a' (cells G') (k, b) = heap.contents a2 (cells G1) (k, b)"
      "\<And>k. G' k \<noteq> None \<Longrightarrow> G1 k \<noteq> None \<or> k \<in> fst ` set (live_refs arena es)"
      "list_all2 (moved arena a' G') es es'"
      "length (m_blocks a') \<le> length (m_blocks a2) + 2 * live_count es"
      by blast
    define e' where "e' = e\<lparr>e_key := kr, e_value := vr\<rparr>"
    have Gk': "G' ?k = Some (kr, vr)" using IH(3) [of ?k] by (simp add: G1_def)
    have "heap.contents a' (cells G') (?k, False) = ?k" "heap.contents a' (cells G') (?k, True) = ?v"
      using IH(3) [of ?k] cont1 by (simp_all add: G1_def)
    then have strs: "ref_str a' kr = ?k" "ref_str a' vr = ?v"
      using Gk' by (simp_all add: heap.contents_def)
    have "valid_ref a' kr" using heap.ownedD(2) [OF IH(2), of "(?k, False)"] Gk' by simp
    then have "\<not> ref_empty kr"
      using ref_str_eq_Nil [OF heap.ownedD(1) [OF IH(2)], of kr] strs(1) mv(3) by simp
    then have "moved arena a' G' e e'"
      using False strs Gk' by (simp add: moved_def e'_def entry_empty_def)
    then have all: "list_all2 (moved arena a' G') (e # es) (e' # es')" using IH(5) by simp
    have run: "rebuild_loop arena (e # es) a = Inr (e' # es', a')"
      using False mv(1,2) p1(1) p2(1) IH(1) by (simp add: e'_def)
    have keep: "G' k = G k \<and> heap.contents a' (cells G') (k, b) = heap.contents a (cells G) (k, b)"
      if "G k \<noteq> None" for k b
    proof -
      have "k \<noteq> ?k" using that Gk by auto
      then show ?thesis using IH(3) [of k b] that cont1 by (simp add: G1_def)
    qed
    have new: "G k \<noteq> None \<or> k \<in> fst ` set (live_refs arena (e # es))" if "G' k \<noteq> None" for k
      using IH(4) [OF that] False by (auto simp: G1_def split: if_splits)
    have blocks: "length (m_blocks a') \<le> length (m_blocks a) + 2 * live_count (e # es)"
      using IH(6) p1(4) p2(4) count by simp
    show ?thesis using run IH(2) keep new all blocks by blast
  qed
qed

lemma moved_empty: "moved arena a G e e' \<Longrightarrow> entry_empty e' = entry_empty e"
  by (auto simp: moved_def split: if_splits)

lemma moved_clean: "moved arena a G e e' \<Longrightarrow> clean e' = clean e"
  by (auto simp: moved_def clean_def split: if_splits)

lemma live_count_all2:
  "list_all2 (\<lambda>e e'. entry_empty e' = entry_empty e) xs ys \<Longrightarrow> live_count ys = live_count xs"
  by (induction rule: list_all2_induct) (simp_all add: live_count_def)

lemma path_to_cong:
  assumes "length table' = length table"
    and "\<And>i. i < length table \<Longrightarrow> clean (table' ! i) = clean (table ! i)"
  shows "path_to table' k i = path_to table k i"
proof (cases "length table = 0")
  case False
  then show ?thesis using assms probe_bound [of "length table" k] by (simp add: path_to_def)
qed (simp add: path_to_def assms(1))

lemma table_rep_moved:
  assumes rep: "table_rep (key_str arena) table E"
    and all: "list_all2 (moved arena a G) table table'"
    and dom: "\<And>k. G k \<noteq> None \<Longrightarrow> k \<in> fst ` set (live_refs arena table)"
  shows "table_rep (key_str a) table' G"
proof -
  have len: "length table' = length table" using all by (simp add: list_all2_lengthD)
  have mv: "moved arena a G (table ! i) (table' ! i)" if "i < length table" for i
    using all that by (rule list_all2_nthD)
  have live: "entry_empty (table' ! i) = entry_empty (table ! i)" if "i < length table" for i
    using moved_empty [OF mv [OF that]] .
  have key: "key_str a (table' ! i) = key_str arena (table ! i)"
      "G (key_str arena (table ! i)) = Some (refs_of (table' ! i))"
    if "i < length table" "\<not> entry_empty (table ! i)" for i
    using mv [OF that(1)] that(2) by (simp_all add: moved_def)
  show ?thesis
    unfolding table_rep_def len
  proof (intro conjI allI impI)
    fix k p
    show "G k = Some p \<longleftrightarrow> (\<exists>i < length table. refs_of (table' ! i) = p
        \<and> \<not> entry_empty (table' ! i) \<and> key_str a (table' ! i) = k)" (is "_ \<longleftrightarrow> ?r")
    proof
      assume G: "G k = Some p"
      then have "k \<in> fst ` set (live_refs arena table)" by (intro dom) simp
      then obtain q where "(k, q) \<in> set (live_refs arena table)" by auto
      then obtain i where i: "i < length table" "\<not> entry_empty (table ! i)"
          "key_str arena (table ! i) = k"
        by (auto simp: set_live_refs)
      with key [OF i(1,2)] G live [OF i(1)] show ?r by auto
    next
      assume ?r
      then show "G k = Some p" using key live by auto
    qed
  next
    fix i j
    assume "i < length table" "j < length table" "\<not> entry_empty (table' ! i)
        \<and> \<not> entry_empty (table' ! j) \<and> key_str a (table' ! i) = key_str a (table' ! j)"
    then show "i = j" using table_repD(2) [OF rep, of i j] key live by auto
  next
    fix i
    assume "i < length table" "\<not> entry_empty (table' ! i)"
    then show "path_to table' (key_str a (table' ! i)) i"
      using table_repD(3) [OF rep, of i] key [of i] live [of i]
        path_to_cong [OF len, of "key_str arena (table ! i)" i] moved_clean [OF mv] by simp
  qed
qed

lemma fm_rep_movable:
  assumes rep: "fm_rep m E" and e: "e \<in> set (m_table m)"
  shows "movable (m_arena m) e"
proof (cases "entry_empty e")
  case False
  from e obtain i where i: "i < length (m_table m)" "m_table m ! i = e"
    by (auto simp: in_set_conv_nth)
  with False have E: "E (key_str (m_arena m) e) = Some (refs_of e)"
    using fm_rep_entry [OF rep, of i] by simp
  note wf = heap.ownedD(1) [OF fm_repD(5) [OF rep]]
  note v = fm_rep_entry_valid [OF rep E]
  show ?thesis
    using False arena_view_valid [OF wf v(1)] arena_view_valid [OF wf v(2)]
      length_ref_str [OF wf v(1)] length_ref_str [OF wf v(2)] ref_str_eq_Nil [OF wf v(1)]
    by (simp add: movable_def entry_empty_def unat_u32_bound)
qed (simp add: movable_def)

lemma rebuild_ok:
  assumes rep: "fm_rep m E" and small: "1 + 2 * m_size m \<le> 4294967296"
  obtains m' E' where "rebuild m = Inr m'" and "fm_rep m' E'" and "fm_abs m' = fm_abs m"
    and "m_size m' = m_size m"
    and "length (m_blocks (m_arena m')) \<le> 1 + 2 * m_size m"
    and "m_capacity m' = m_capacity m"
proof -
  note d = fm_repD [OF rep]
  let ?fresh = "new_arena k_arena_block_size"
  have own0: "heap.owned ?fresh (cells Map.empty)"
    unfolding cells_simps by (rule heap.owned_none) (simp add: wf_new_arena k_arena_block_size_def)
  have "length (m_blocks ?fresh) + 2 * live_count (m_table m) \<le> 4294967296"
    using small d(3) by simp
  from rebuild_loop_ok [OF _ table_rep_distinct [OF d(6)] _ own0 this] fm_rep_movable [OF rep]
  obtain table a G where r:
    "rebuild_loop (m_arena m) (m_table m) ?fresh = Inr (table, a)" "heap.owned a (cells G)"
    "\<forall>k. G k \<noteq> None \<longrightarrow> k \<in> fst ` set (live_refs (m_arena m) (m_table m))"
    "list_all2 (moved (m_arena m) a G) (m_table m) table"
    "length (m_blocks a) \<le> 1 + 2 * live_count (m_table m)"
    by auto
  define m' where "m' = m\<lparr>m_table := table, m_arena := a\<rparr>"
  have eq: "rebuild m = Inr m'" using r(1) d(1) by (simp add: rebuild_def m'_def)
  have len: "length table = length (m_table m)" using r(4) by (simp add: list_all2_lengthD)
  have mv: "moved (m_arena m) a G (m_table m ! i) (table ! i)" if "i < length (m_table m)" for i
    using r(4) that by (rule list_all2_nthD)
  have count: "live_count table = live_count (m_table m)"
    using r(4) by (intro live_count_all2) (auto elim: list_all2_mono dest: moved_empty)
  have flags: "(deleted e \<longrightarrow> entry_empty e) \<and> (entry_empty e \<longrightarrow> refs_of e = (null_ref, null_ref))"
    if "e \<in> set table" for e
  proof -
    from that obtain i where i: "i < length (m_table m)" "table ! i = e"
      by (auto simp: in_set_conv_nth len)
    show ?thesis
      using mv [OF i(1)] i(2) d(7-9) [OF nth_mem [OF i(1)]]
      by (auto simp: moved_def split: if_splits)
  qed
  have rep': "fm_rep m' G"
    unfolding fm_rep_def m'_def
    using d(1-4) len count flags r(2) table_rep_moved [OF d(6) r(4)] r(3) by auto
  have "fm_abs m' k = fm_abs m k" for k
  proof (cases "E k")
    case None
    have "k \<notin> fst ` set (live_refs (m_arena m) (m_table m))"
      using None table_rep_map_of [OF d(6)] by (metis map_of_eq_None_iff)
    then have "G k = None" using r(3) by blast
    then show ?thesis using None fm_abs_rep [OF rep, of k] fm_abs_rep [OF rep', of k] by simp
  next
    case (Some p)
    obtain i where i: "i < length (m_table m)" "refs_of (m_table m ! i) = p"
      "\<not> entry_empty (m_table m ! i)" "key_str (m_arena m) (m_table m ! i) = k"
      "path_to (m_table m) k i"
      by (rule table_rep_Some [OF d(6) Some])
    then have "G k = Some (refs_of (table ! i))"
        "ref_str a (e_value (table ! i)) = ref_str (m_arena m) (snd p)"
      using mv [OF i(1)] by (auto simp: moved_def)
    then show ?thesis using Some fm_abs_rep [OF rep, of k] fm_abs_rep [OF rep', of k]
      by (simp add: m'_def)
  qed
  then have "fm_abs m' = fm_abs m" by (rule ext)
  then show thesis
    using r(5) d(3) by (intro that [OF eq rep']) (simp_all add: m'_def fm_budget_def)
qed

section \<open>remove\<close>

lemma fm_remove_absent:
  assumes rep: "fm_rep m E" and "fm_abs m k = None"
  shows "fm_remove m k = Inr (False, m)"
proof -
  have "E k = None" using fm_abs_rep [OF rep, of k] assms(2) by simp
  then show ?thesis
    using get_entry_None [OF fm_rep_table_ok [OF rep] fm_repD(6) [OF rep]] fm_repD(1) [OF rep]
    by (simp add: fm_remove_def)
qed

text \<open>A represented map after the entry at \<open>i\<close> has been replaced by a tombstone.\<close>

lemma fm_rep_tombstone:
  assumes rep: "fm_rep m E" and i: "i < length (m_table m)" "\<not> entry_empty (m_table m ! i)"
    and k: "key_str (m_arena m) (m_table m ! i) = k"
    and own: "heap.owned arena (cells (E(k := None)))"
    and cont: "\<And>c. fst c \<noteq> k \<Longrightarrow>
      heap.contents arena (cells (E(k := None))) c = heap.contents (m_arena m) (cells E) c"
  defines "m' \<equiv> m\<lparr>m_arena := arena, m_table := (m_table m)[i := mark_deleted null_entry],
                   m_size := m_size m - 1\<rparr>"
  shows "fm_rep m' (E(k := None))" and "fm_abs m' = (fm_abs m)(k := None)"
proof -
  note d = fm_repD [OF rep]
  have cont': "ref_str arena (cells E (k', False)) = ref_str (m_arena m) (cells E (k', False))"
    if "k' \<noteq> k" for k'
    using cont [of "(k', False)"] that by (simp add: heap.contents_def cells_def)
  have same: "key_str arena (m_table m ! j) = key_str (m_arena m) (m_table m ! j)"
    if j: "j < length (m_table m)" "\<not> entry_empty (m_table m ! j)" "j \<noteq> i" for j
  proof -
    have "key_str (m_arena m) (m_table m ! j) \<noteq> k" using fm_rep_unique [OF rep i j] k by metis
    then show ?thesis using cont' fm_rep_other_keys [OF rep _ j(1,2), of k arena] by blast
  qed
  have "table_rep (key_str arena) ((m_table m)[i := mark_deleted null_entry]) (E(k := None))"
    by (rule table_rep_delete [OF d(6) i k _ _ same]) simp_all
  moreover have "live_count ((m_table m)[i := mark_deleted null_entry]) = m_size m - 1"
    using live_count_update [OF i(1), of "mark_deleted null_entry"] i(2) d(3) by simp
  moreover have "(deleted x \<longrightarrow> entry_empty x) \<and> (entry_empty x \<longrightarrow> refs_of x = (null_ref, null_ref))"
    if "x \<in> set ((m_table m)[i := mark_deleted null_entry])" for x
  proof -
    have "x = mark_deleted null_entry \<or> x \<in> set (m_table m)"
      using that set_update_subset_insert [of "m_table m" i "mark_deleted null_entry"] by auto
    then show ?thesis using d(7-9) [of x] by auto
  qed
  ultimately show rep': "fm_rep m' (E(k := None))"
    unfolding fm_rep_def m'_def using d own by auto
  show "fm_abs m' = (fm_abs m)(k := None)"
    using fm_abs_contents [OF rep'] fm_abs_contents [OF rep] cont
    by (auto simp: fun_eq_iff m'_def)
qed

lemma fm_remove_present:
  assumes rep: "fm_rep m E" and v: "fm_abs m k = Some v" and small: "fm_budget m \<le> 4294967296"
  obtains m' E' where "fm_remove m k = Inr (True, m')" and "fm_rep m' E'"
    and "fm_abs m' = (fm_abs m)(k := None)" and "fm_budget m' \<le> fm_budget m"
proof -
  note d = fm_repD [OF rep]
  obtain p where E: "E k = Some p" using fm_abs_rep [OF rep, of k] v by (cases "E k") auto
  obtain i where i: "get_entry Slot_Match (m_table m) (length (m_table m)) (m_arena m) k = Inr (Some i)"
    "i < length (m_table m)" "refs_of (m_table m ! i) = p" "\<not> entry_empty (m_table m ! i)"
    "key_str (m_arena m) (m_table m ! i) = k"
    by (rule get_entry_Some [OF fm_rep_table_ok [OF rep] d(6) E, of Slot_Match]) simp
  have ck: "cells E (k, False) = e_key (m_table m ! i)"
    and cv: "((cells E)((k, False) := null_ref)) (k, True) = e_value (m_table m ! i)"
    using E i(3) by auto
  obtain b1 a1 where f1: "arena_remove (m_arena m) (cells E (k, False)) = Inr (b1, a1)"
    "heap.owned a1 ((cells E)((k, False) := null_ref))"
    "heap.contents a1 ((cells E)((k, False) := null_ref))
       = (heap.contents (m_arena m) (cells E))((k, False) := [])"
    "length (m_blocks a1) = length (m_blocks (m_arena m))"
    by (rule heap.owned_free [OF d(5)])
  obtain b2 a2 where f2:
    "arena_remove a1 (((cells E)((k, False) := null_ref)) (k, True)) = Inr (b2, a2)"
    "heap.owned a2 ((cells E)((k, False) := null_ref, (k, True) := null_ref))"
    "heap.contents a2 ((cells E)((k, False) := null_ref, (k, True) := null_ref))
       = (heap.contents a1 ((cells E)((k, False) := null_ref)))((k, True) := [])"
    "length (m_blocks a2) = length (m_blocks a1)"
    by (rule heap.owned_free [OF f1(2)])
  define m1 where "m1 = m\<lparr>m_arena := a2, m_table := (m_table m)[i := mark_deleted null_entry],
                          m_size := m_size m - 1\<rparr>"
  have own: "heap.owned a2 (cells (E(k := None)))" using f2(2) by (simp only: cells_del)
  have cont: "heap.contents a2 (cells (E(k := None))) c = heap.contents (m_arena m) (cells E) c"
    if "fst c \<noteq> k" for c
    unfolding cells_del f2(3) f1(3) using that by auto
  have rep1: "fm_rep m1 (E(k := None))" and abs1: "fm_abs m1 = (fm_abs m)(k := None)"
    unfolding m1_def by (rule fm_rep_tombstone [OF rep i(2,4,5) own cont], assumption)+
  have pos: "0 < m_size m" using live_count_pos [OF i(2,4)] d(3) by simp
  have step: "fm_remove m k = bind_run (if should_reallocate (m_arena m1) then rebuild m1 else Inr m1)
      (\<lambda>m2. Inr (True, m2))"
    using i(1) d(1) f1(1) f2(1) unfolding ck cv by (simp add: fm_remove_def m1_def Let_def)
  have size1: "m_size m1 = m_size m - 1" and blocks1: "length (m_blocks (m_arena m1)) = length (m_blocks (m_arena m))"
    using f1(4) f2(4) by (simp_all add: m1_def)
  show thesis
  proof (cases "should_reallocate (m_arena m1)")
    case True
    have "1 + 2 * m_size m1 \<le> 4294967296"
      using small pos size1 unfolding fm_budget_def by linarith
    then obtain m2 E2 where r: "rebuild m1 = Inr m2" "fm_rep m2 E2" "fm_abs m2 = fm_abs m1"
      "m_size m2 = m_size m1" "length (m_blocks (m_arena m2)) \<le> 1 + 2 * m_size m1"
      "m_capacity m2 = m_capacity m1"
      by (rule rebuild_ok [OF rep1])
    have "fm_remove m k = Inr (True, m2)" using step True r(1) by simp
    moreover have "fm_budget m2 \<le> fm_budget m"
      using r(4,5) size1 pos unfolding fm_budget_def by linarith
    ultimately show thesis
      using r(2,3) abs1 by (intro that) simp_all
  next
    case False
    then have "fm_remove m k = Inr (True, m1)" using step by simp
    moreover have "fm_budget m1 \<le> fm_budget m"
      using size1 blocks1 unfolding fm_budget_def by linarith
    ultimately show thesis using rep1 abs1 by (intro that) simp_all
  qed
qed

section \<open>The contract of the map\<close>

lemma fm_put_law:
  assumes "fm_inv m" and "k \<noteq> []" and "fm_room m k v"
    and "\<And>old. fm_abs m k = Some old \<Longrightarrow> length old \<le> length v"
  shows "\<exists>m'. fm_set m k v = Inr m' \<and> fm_inv m' \<and> fm_abs m' = (fm_abs m)(k \<mapsto> v)
    \<and> fm_budget m' \<le> fm_budget m + 2"
proof -
  obtain E where E: "fm_rep m E" using assms(1) by (rule fm_inv_rep)
  from E assms(2-4) show ?thesis by (rule fm_set_ok) (auto intro: fm_rep_inv)
qed

lemma fm_put_fault:
  assumes "fm_inv m" and "fm_room m k v" and "fm_abs m k = Some old" and "length v < length old"
  shows "fm_set m k v = Inl Out_Of_Bounds"
  using assms by (meson fm_inv_rep fm_set_shorter)

lemma fm_del_law:
  assumes "fm_inv m" and "fm_budget m \<le> 4294967296"
  shows "\<exists>m'. fm_remove m k = Inr (fm_abs m k \<noteq> None, m') \<and> fm_inv m'
    \<and> fm_abs m' = (fm_abs m)(k := None) \<and> fm_budget m' \<le> fm_budget m"
proof -
  obtain E where E: "fm_rep m E" using assms(1) by (rule fm_inv_rep)
  show ?thesis
  proof (cases "fm_abs m k")
    case None
    then show ?thesis using fm_remove_absent [OF E None] assms(1) by (auto simp: fun_upd_idem)
  next
    case (Some v)
    from E Some assms(2) show ?thesis by (rule fm_remove_present) (auto simp: Some intro: fm_rep_inv)
  qed
qed

lemma fm_inv_new: "4 \<le> cap \<Longrightarrow> fm_inv (fm_new cap)"
  by (rule fm_rep_inv [OF fm_rep_fresh])

lemma fm_inv_capacity: "fm_inv m \<Longrightarrow> 4 \<le> m_capacity m"
  by (erule fm_inv_rep) (rule fm_repD(2))

lemma fm_clear_law:
  "fm_inv m \<Longrightarrow> fm_inv (fm_clear m) \<and> fm_abs (fm_clear m) = Map.empty
    \<and> fm_budget (fm_clear m) \<le> fm_budget m"
  by (simp add: fm_clear_eq fm_inv_new fm_inv_capacity fm_budget_def [of m])

lemma fm_get_law: "fm_inv m \<Longrightarrow> fm_get m k = Inr (fm_abs m k)"
  by (erule fm_inv_rep) (rule fm_get_ok)

interpretation fm: kv_map fm_inv fm_abs fm_budget fm_get fm_set fm_remove fm_clear
proof (unfold_locales, goal_cases)
  case (1 m k)
  then show ?case by (rule fm_get_law)
next
  case (2 m k v)
  then show ?case by (intro fm_put_law) (auto simp: fm_room_def str_limit_def)
next
  case (3 m k v old)
  then show ?case by (intro fm_put_fault) (auto simp: fm_room_def str_limit_def)
next
  case (4 m k)
  then show ?case by (intro fm_del_law) (auto simp: str_limit_def)
next
  case (5 m)
  then show ?case by (rule fm_clear_law)
qed

lemma fm_example:
  obtains m where "fm_set (fm_new 8) ''key'' ''one'' = Inr m" and "fm_inv m"
    and "fm_abs m = [''key'' \<mapsto> ''one'']" and "fm_budget m \<le> 3"
  using fm.put_law [OF fm_inv_new [of 8], of "''key''" "''one''"]
  by (auto simp: str_limit_def)

section \<open>Properties\<close>

text \<open>C15: \<open>FastMap::get\<close> never faults on a well-formed map and returns exactly what the abstract
  map has for the key, whatever probing, tombstones, deleted strings and rebuilt arenas are behind it.\<close>

theorem fm_get_correct:
  assumes "fm_inv m"
  shows "fm_get m k = Inr (fm_abs m k)"
  using assms by (rule fm.get_law)

theorem fm_get_correct_witness:
  "\<exists>m. fm_set (fm_new 8) ''key'' ''one'' = Inr m \<and> fm_get m ''key'' = Inr (Some ''one'')
    \<and> fm_get m ''other'' = Inr None"
proof -
  obtain m where m: "fm_set (fm_new 8) ''key'' ''one'' = Inr m" "fm_inv m" "fm_abs m = [''key'' \<mapsto> ''one'']"
    by (rule fm_example)
  then show ?thesis using fm_get_correct [OF m(2)] by simp
qed

text \<open>C9: \<open>FastMap::set\<close> of a key that is new, or whose value does not get shorter, succeeds
  (through resizes and new arena blocks), stores exactly this value under this key, changes no other
  key and keeps the map well-formed.\<close>

theorem fm_set_correct:
  assumes "fm_inv m" and "k \<noteq> []" and "fm_room m k v"
    and "\<And>old. fm_abs m k = Some old \<Longrightarrow> length old \<le> length v"
  shows "\<exists>m'. fm_set m k v = Inr m' \<and> fm_inv m' \<and> fm_abs m' = (fm_abs m)(k \<mapsto> v)
    \<and> fm_budget m' \<le> fm_budget m + 2"
  using fm.put_law [of m k v] assms by (auto simp: fm_room_def str_limit_def)

theorem fm_set_correct_witness:
  "\<exists>m m'. fm_set (fm_new 8) ''key'' ''one'' = Inr m \<and> fm_set m ''key'' ''three'' = Inr m'
    \<and> fm_abs m' = [''key'' \<mapsto> ''three'']"
proof -
  obtain m where m: "fm_set (fm_new 8) ''key'' ''one'' = Inr m" "fm_inv m"
    "fm_abs m = [''key'' \<mapsto> ''one'']" "fm_budget m \<le> 3"
    by (rule fm_example)
  then show ?thesis using fm_set_correct [of m "''key''" "''three''"] by (auto simp: fm_room_def)
qed

text \<open>C16: \<open>FastMap::set\<close> of a key that has a strictly longer value is undefined behaviour, on
  every well-formed map: it calls \<open>memset\<close> with a length that wrapped around.\<close>

theorem fm_set_shorter_faults:
  assumes "fm_inv m" and "fm_room m k v" and "fm_abs m k = Some old" and "length v < length old"
  shows "fm_set m k v = Inl Out_Of_Bounds"
  using fm.put_fault [OF assms(1)] assms(2-4) by (auto simp: fm_room_def str_limit_def)

theorem fm_set_shorter_faults_witness:
  "\<exists>m. fm_set (fm_new 8) ''key'' ''one'' = Inr m \<and> fm_set m ''key'' ''x'' = Inl Out_Of_Bounds"
proof -
  obtain m where m: "fm_set (fm_new 8) ''key'' ''one'' = Inr m" "fm_inv m"
    "fm_abs m = [''key'' \<mapsto> ''one'']" "fm_budget m \<le> 3"
    by (rule fm_example)
  then show ?thesis
    using fm_set_shorter_faults [of m "''key''" "''x''" "''one''"] by (auto simp: fm_room_def)
qed

text \<open>C10: \<open>FastMap::remove\<close> never faults: it reports whether the key was there, removes exactly
  this key, and the map stays well-formed also when the removal rebuilds the arena.\<close>

theorem fm_remove_correct:
  assumes "fm_inv m" and "fm_budget m \<le> 4294967296"
  shows "\<exists>m'. fm_remove m k = Inr (fm_abs m k \<noteq> None, m') \<and> fm_inv m'
    \<and> fm_abs m' = (fm_abs m)(k := None) \<and> fm_budget m' \<le> fm_budget m"
  using fm.del_law assms by (simp add: str_limit_def)

theorem fm_remove_correct_witness:
  "\<exists>m m'. fm_set (fm_new 8) ''key'' ''one'' = Inr m \<and> fm_remove m ''key'' = Inr (True, m')
    \<and> fm_abs m' = Map.empty"
proof -
  obtain m where m: "fm_set (fm_new 8) ''key'' ''one'' = Inr m" "fm_inv m"
    "fm_abs m = [''key'' \<mapsto> ''one'']" "fm_budget m \<le> 3"
    by (rule fm_example)
  then show ?thesis using fm_remove_correct [of m "''key''"] by auto
qed

text \<open>A freshly constructed map (of the default capacity, or of any from 4 on) and a cleared map
  are well-formed and empty, and a cleared map keeps its capacity.\<close>

theorem fm_fresh_correct:
  assumes "4 \<le> cap"
  shows "fm_inv (fm_new cap) \<and> fm_abs (fm_new cap) = Map.empty
    \<and> (fm_inv m \<longrightarrow> fm_inv (fm_clear m) \<and> fm_abs (fm_clear m) = Map.empty
        \<and> m_capacity (fm_clear m) = m_capacity m)"
  using fm_inv_new [OF assms] fm.clear_law by (simp add: fm_clear_def)

theorem fm_fresh_correct_witness:
  "fm_inv (fm_new k_default_capacity) \<and> fm_abs (fm_clear (fm_new k_default_capacity)) = Map.empty"
  using fm_fresh_correct [of 8 "fm_new 8"] by (simp add: k_default_capacity_def)

section \<open>Small capacities\<close>

lemma fm_set_no_entry:
  assumes "get_entry Slot_Match_Or_Empty (m_table m) (m_capacity m) (m_arena m) k = Inr None"
  shows "fm_set m k v = Inl Null_Dereference"
  using assms by (simp add: fm_set_def)

lemma single_set:
  assumes "k \<noteq> []" and "v \<noteq> []" and "length k < 4294967296" and "length v < 4294967296"
  obtains a e where "fm_set (fm_new 1) k v
      = Inr \<lparr>m_capacity = 1, m_size = 1, m_arena = a, m_table = [e]\<rparr>"
    and "\<not> entry_empty e" and "\<not> deleted e" and "arena_view a (e_key e) = Inr k"
proof -
  let ?A = "new_arena k_arena_block_size"
  have wf: "wf_arena ?A" by (simp add: wf_new_arena k_arena_block_size_def)
  have "arena_room ?A k" using assms by (simp add: arena_room_def new_arena_def)
  from arena_store_ok [OF wf this] obtain r a where r: "arena_store ?A k = Inr (r, a)"
    "wf_arena a" "valid_ref a r" "ref_str a r = k" "length (m_blocks a) \<le> Suc (length (m_blocks ?A))"
    by metis
  have "arena_room a v" using assms r(5) by (simp add: arena_room_def new_arena_def)
  from arena_store_ok [OF r(2) this] r(3,4) obtain r' a' where r': "arena_store a v = Inr (r', a')"
    "wf_arena a'" "valid_ref a' r" "ref_str a' r = k"
    by metis
  have ne: "\<not> ref_empty r" using ref_str_eq_Nil [OF r(2,3)] r(4) assms(1) by simp
  define e where "e = (unmark_deleted null_entry)\<lparr>e_key := r, e_value := r'\<rparr>"
  show thesis
  proof (rule that [of a' e])
    show "fm_set (fm_new 1) k v = Inr \<lparr>m_capacity = 1, m_size = 1, m_arena = a', m_table = [e]\<rparr>"
      using r(1) r'(1) ne assms(2)
      by (simp add: fm_set_def fm_new_def get_entry_def claim_entry_def assign_value_def
          over_load_factor_def e_def null_entry_def entry_empty_def deleted_def unmark_deleted_def)
    show "\<not> entry_empty e" and "\<not> deleted e"
      using ne by (simp_all add: e_def entry_empty_def deleted_def unmark_deleted_def bit_simps)
    show "arena_view a' (e_key e) = Inr k"
      using r'(2-4) by (simp add: e_def arena_view_valid)
  qed
qed

text \<open>A map constructed with capacity 1 (the constructor accepts every capacity) takes one key;
  \<open>set\<close> of a second key dereferences the null pointer that \<open>get_entry\<close> returns for the full table,
  since the load factor is only looked at after this dereference.\<close>

theorem single_slot_map_crashes:
  assumes "k \<noteq> []" and "v \<noteq> []" and "length k < 4294967296" and "length v < 4294967296"
    and "k' \<noteq> k"
  shows "\<exists>m. fm_set (fm_new 1) k v = Inr m \<and> fm_set m k' v' = Inl Null_Dereference"
proof -
  obtain a e where s: "fm_set (fm_new 1) k v
      = Inr \<lparr>m_capacity = 1, m_size = 1, m_arena = a, m_table = [e]\<rparr>"
    "\<not> entry_empty e" "\<not> deleted e" "arena_view a (e_key e) = Inr k"
    by (rule single_set [OF assms(1-4)])
  then have "get_entry Slot_Match_Or_Empty [e] 1 a k' = Inr None"
    using assms(5) by (simp add: get_entry_def)
  then show ?thesis using s(1) by (simp add: fm_set_no_entry)
qed

theorem single_slot_map_crashes_witness:
  "\<exists>m. fm_set (fm_new 1) ''a'' ''1'' = Inr m \<and> fm_set m ''b'' ''2'' = Inl Null_Dereference"
  using single_slot_map_crashes [of "''a''" "''1''" "''b''" "''2''"] by simp

end
