(* ===== verification/Store.thy ===== *)
theory Store
  imports FastMap
begin

text \<open>
  \<open>KVStore\<close> (server/include/attokv_server/store.h, server/src/store.cpp): the store that the
  commands act on.  It owns one default constructed \<open>FastMap\<close> and forwards to it; it fulfils the
  contract \<open>kv_map\<close>, which is all that the commands rely on.
\<close>

record kv_store =
  m_map :: fast_map

definition store_new :: kv_store where
  "store_new = \<lparr>m_map = fm_new k_default_capacity\<rparr>"

definition store_get :: "kv_store \<Rightarrow> string \<Rightarrow> string option run" where
  "store_get s key = fm_get (m_map s) key"

definition store_set :: "kv_store \<Rightarrow> string \<Rightarrow> string \<Rightarrow> kv_store run" where
  "store_set s key val = bind_run (fm_set (m_map s) key val) (\<lambda>m. Inr (s\<lparr>m_map := m\<rparr>))"

definition store_remove :: "kv_store \<Rightarrow> string \<Rightarrow> (bool \<times> kv_store) run" where
  "store_remove s key =
     bind_run (fm_remove (m_map s) key) (\<lambda>(removed, m). Inr (removed, s\<lparr>m_map := m\<rparr>))"

definition store_flush :: "kv_store \<Rightarrow> kv_store" where
  "store_flush s = s\<lparr>m_map := fm_clear (m_map s)\<rparr>"

definition store_inv :: "kv_store \<Rightarrow> bool" where
  "store_inv s \<longleftrightarrow> fm_inv (m_map s)"

definition store_abs :: "kv_store \<Rightarrow> string \<rightharpoonup> string" where
  "store_abs s = fm_abs (m_map s)"

definition store_budget :: "kv_store \<Rightarrow> nat" where
  "store_budget s = fm_budget (m_map s)"

lemmas store_defs = store_inv_def store_abs_def store_budget_def store_get_def store_set_def
  store_remove_def store_flush_def

interpretation store: kv_map store_inv store_abs store_budget store_get store_set store_remove
  store_flush
proof (unfold_locales, goal_cases)
  case (1 m k)
  then show ?case by (simp add: store_defs fm.get_law)
next
  case (2 m k v)
  then show ?case using fm.put_law [of "m_map m" k v] by (auto simp: store_defs)
next
  case (3 m k v old)
  then show ?case using fm.put_fault [of "m_map m" k v old] by (simp add: store_defs)
next
  case (4 m k)
  then show ?case using fm.del_law [of "m_map m" k] by (auto simp: store_defs)
next
  case (5 m)
  then show ?case using fm.clear_law [of "m_map m"] by (simp add: store_defs)
qed

lemma store_new_simps [simp]:
  "store_inv store_new" "store_abs store_new = Map.empty" "store_budget store_new = 1"
  by (simp_all add: store_defs store_new_def k_default_capacity_def fm_inv_new)

text \<open>What was stored is read back: after a successful \<open>KVStore::set\<close> the key has the new value
  and every other key has the value it had.\<close>

theorem store_set_get:
  assumes "store_inv s" and "k \<noteq> []" and "length k < str_limit" and "length v < str_limit"
    and "store_budget s + 2 \<le> str_limit" and "store_set s k v = Inr s'"
  shows "store_get s' k = Inr (Some v) \<and> (\<forall>k'. k' \<noteq> k \<longrightarrow> store_get s' k' = store_get s k')"
  using store.put_get [OF assms] by simp

theorem store_set_get_witness:
  "\<exists>s'. store_set store_new ''key'' ''one'' = Inr s' \<and> store_get s' ''key'' = Inr (Some ''one'')"
proof -
  obtain s' where s': "store_set store_new ''key'' ''one'' = Inr s'"
    using store.put_law [of store_new "''key''" "''one''"] by (auto simp: str_limit_def)
  show ?thesis using store_set_get [OF _ _ _ _ _ s'] s' by (simp add: str_limit_def)
qed

text \<open>Loading a new store with any list of pairs of non-empty keys and values of one length, as
  long as the block indexes allow (fewer than 2^31 pairs), never faults, and the store then maps every
  key to the last value given for it.\<close>

theorem store_load_all:
  assumes "2 * length kvs < 4294967296" and "n < str_limit"
    and "\<forall>(k, v) \<in> set kvs. k \<noteq> [] \<and> length k < str_limit \<and> length v = n"
  shows "\<exists>s. store.put_all store_new kvs = Inr s \<and> store_inv s
    \<and> (\<forall>k. store_get s k = Inr (map_of (rev kvs) k))"
proof -
  have "store_budget store_new + 2 * length kvs \<le> str_limit"
    using assms(1) by (simp add: str_limit_def)
  from store.put_all_ok [OF _ this assms(3) _ assms(2)] obtain s where
    "store.put_all store_new kvs = Inr s" "store_inv s"
    "store_abs s = store_abs store_new ++ map_of (rev kvs)"
    by auto
  then show ?thesis using store.get_law by auto
qed

theorem store_load_all_witness:
  "\<exists>s. store.put_all store_new [(''a'', ''1''), (''b'', ''2''), (''a'', ''3'')] = Inr s
    \<and> store_get s ''a'' = Inr (Some ''3'')"
  using store_load_all [of "[(''a'', ''1''), (''b'', ''2''), (''a'', ''3'')]" 1]
  by (auto simp: str_limit_def)

end
