(* ===== verification/Command.thy ===== *)
theory Command
  imports Store
begin

text \<open>
  The builtin commands (server/include/attokv_server/command.h, server/src/command.cpp).  The
  \<open>KVStore*\<close> of the context is the store that is passed in and returned updated; \<open>args\<close> is a
  span, an index beyond its size is a fault.
\<close>

record command_result =
  res_stop :: bool
  res_error :: bool
  res_output :: string

record command_context =
  ctx_store :: kv_store
  ctx_args :: "string list"

record command_spec =
  spec_name :: string
  required_args :: int
  spec_run :: "command_context \<Rightarrow> (command_result \<times> kv_store) run"

definition default_result :: command_result where
  "default_result = \<lparr>res_stop = False, res_error = False, res_output = []\<rparr>"

definition arg :: "command_context \<Rightarrow> nat \<Rightarrow> string run" where
  "arg context i = (if i < length (ctx_args context) then Inr (ctx_args context ! i)
                    else Inl Out_Of_Bounds)"

definition builtin_exit :: "command_context \<Rightarrow> (command_result \<times> kv_store) run" where
  "builtin_exit context = Inr (default_result\<lparr>res_stop := True\<rparr>, ctx_store context)"

definition builtin_ping :: "command_context \<Rightarrow> (command_result \<times> kv_store) run" where
  "builtin_ping context = Inr (default_result\<lparr>res_output := ''pong''\<rparr>, ctx_store context)"

definition builtin_get :: "command_context \<Rightarrow> (command_result \<times> kv_store) run" where
  "builtin_get context =
     bind_run (arg context 0) (\<lambda>key.
     bind_run (store_get (ctx_store context) key) (\<lambda>val.
       case val of
         None \<Rightarrow> Inr (default_result\<lparr>res_output := ''NULL''\<rparr>, ctx_store context)
       | Some v \<Rightarrow> Inr (default_result\<lparr>res_output := v\<rparr>, ctx_store context)))"

definition builtin_set :: "command_context \<Rightarrow> (command_result \<times> kv_store) run" where
  "builtin_set context =
     bind_run (arg context 0) (\<lambda>key.
     bind_run (arg context 1) (\<lambda>val.
     bind_run (store_set (ctx_store context) key val) (\<lambda>store.
       Inr (default_result\<lparr>res_output := ''OK''\<rparr>, store))))"

definition builtin_del :: "command_context \<Rightarrow> (command_result \<times> kv_store) run" where
  "builtin_del context =
     bind_run (arg context 0) (\<lambda>key.
     bind_run (store_remove (ctx_store context) key) (\<lambda>(removed, store).
       if removed then Inr (default_result\<lparr>res_output := ''OK''\<rparr>, store)
       else Inr (default_result\<lparr>res_output := ''NULL''\<rparr>, store)))"

definition builtin_flush :: "command_context \<Rightarrow> (command_result \<times> kv_store) run" where
  "builtin_flush context =
     Inr (default_result\<lparr>res_output := ''OK''\<rparr>, store_flush (ctx_store context))"

definition builtin :: "command_spec list" where
  "builtin =
    [\<lparr>spec_name = ''exit'', required_args = 0, spec_run = builtin_exit\<rparr>,
     \<lparr>spec_name = ''ping'', required_args = 0, spec_run = builtin_ping\<rparr>,
     \<lparr>spec_name = ''get'', required_args = 1, spec_run = builtin_get\<rparr>,
     \<lparr>spec_name = ''set'', required_args = 2, spec_run = builtin_set\<rparr>,
     \<lparr>spec_name = ''del'', required_args = 1, spec_run = builtin_del\<rparr>,
     \<lparr>spec_name = ''flush'', required_args = 0, spec_run = builtin_flush\<rparr>]"

section \<open>The commands on the abstract map\<close>

text \<open>
  What a command does with the map from keys to values: the result and the new map, or \<open>None\<close> for
  the one undefined command, a \<open>set\<close> to a strictly shorter value.
\<close>

definition shrinks :: "(string \<rightharpoonup> string) \<Rightarrow> string \<Rightarrow> string \<Rightarrow> bool" where
  "shrinks \<sigma> k v \<longleftrightarrow> (case \<sigma> k of None \<Rightarrow> False | Some old \<Rightarrow> length v < length old)"

fun spec_builtin ::
  "(string \<rightharpoonup> string) \<Rightarrow> string \<Rightarrow> string list
    \<Rightarrow> (command_result \<times> (string \<rightharpoonup> string)) option" where
  "spec_builtin \<sigma> name args =
     (if name = ''exit'' then Some (default_result\<lparr>res_stop := True\<rparr>, \<sigma>)
      else if name = ''ping'' then Some (default_result\<lparr>res_output := ''pong''\<rparr>, \<sigma>)
      else if name = ''get'' then
        Some (default_result\<lparr>res_output := case \<sigma> (args ! 0) of None \<Rightarrow> ''NULL'' | Some v \<Rightarrow> v\<rparr>, \<sigma>)
      else if name = ''set'' then
        (if shrinks \<sigma> (args ! 0) (args ! 1) then None
         else Some (default_result\<lparr>res_output := ''OK''\<rparr>, \<sigma>(args ! 0 \<mapsto> args ! 1)))
      else if name = ''del'' then
        Some (default_result\<lparr>res_output := if \<sigma> (args ! 0) = None then ''NULL'' else ''OK''\<rparr>,
              \<sigma>(args ! 0 := None))
      else Some (default_result\<lparr>res_output := ''OK''\<rparr>, Map.empty))"

definition arg_ok :: "string \<Rightarrow> bool" where
  "arg_ok a \<longleftrightarrow> a \<noteq> [] \<and> length a < str_limit"

text \<open>The relation of a run of a command on a store with its specification.\<close>

definition command_ok ::
  "kv_store \<Rightarrow> (command_result \<times> (string \<rightharpoonup> string)) option
    \<Rightarrow> (command_result \<times> kv_store) run \<Rightarrow> bool" where
  "command_ok s spec res \<longleftrightarrow>
     (case spec of
        None \<Rightarrow> res = Inl Out_Of_Bounds
      | Some (r, \<sigma>) \<Rightarrow> (\<exists>s'. res = Inr (r, s') \<and> store_inv s' \<and> store_abs s' = \<sigma>
          \<and> store_budget s' \<le> store_budget s + 2))"

lemma command_okI:
  assumes "store_inv s'" and "store_abs s' = \<sigma>" and "store_budget s' \<le> store_budget s + 2"
  shows "command_ok s (Some (r, \<sigma>)) (Inr (r, s'))"
  using assms by (simp add: command_ok_def)

lemma builtin_set_ok:
  assumes "store_inv s" and "store_budget s + 2 \<le> str_limit" and "arg_ok k" and "arg_ok v"
  shows "command_ok s (spec_builtin (store_abs s) ''set'' [k, v])
    (builtin_set \<lparr>ctx_store = s, ctx_args = [k, v]\<rparr>)"
proof -
  have len: "k \<noteq> []" "length k < str_limit" "length v < str_limit"
    using assms(3,4) by (simp_all add: arg_ok_def)
  from assms(1) len assms(2) show ?thesis
  proof (cases rule: store.put_cases)
    case (stored s')
    then have "\<not> shrinks (store_abs s) k v" by (fastforce simp: shrinks_def split: option.splits)
    then show ?thesis using stored by (simp add: builtin_set_def arg_def command_okI)
  next
    case (shrinks old)
    then have "shrinks (store_abs s) k v" by (simp add: shrinks_def)
    then show ?thesis using shrinks by (simp add: builtin_set_def arg_def command_ok_def)
  qed
qed

lemma builtin_get_ok:
  assumes "store_inv s"
  shows "command_ok s (spec_builtin (store_abs s) ''get'' [k])
    (builtin_get \<lparr>ctx_store = s, ctx_args = [k]\<rparr>)"
  using assms store.get_law [OF assms, of k]
  by (auto simp: builtin_get_def arg_def intro!: command_okI split: option.splits)

lemma builtin_del_ok:
  assumes "store_inv s" and "store_budget s \<le> str_limit"
  shows "command_ok s (spec_builtin (store_abs s) ''del'' [k])
    (builtin_del \<lparr>ctx_store = s, ctx_args = [k]\<rparr>)"
proof -
  obtain s' where s': "store_remove s k = Inr (store_abs s k \<noteq> None, s')" "store_inv s'"
    "store_abs s' = (store_abs s)(k := None)" "store_budget s' \<le> store_budget s"
    using store.del_law [OF assms, of k] by blast
  show ?thesis
    using s' by (cases "store_abs s k") (simp_all add: builtin_del_def arg_def command_okI)
qed

lemma builtin_flush_ok:
  assumes "store_inv s"
  shows "command_ok s (spec_builtin (store_abs s) ''flush'' [])
    (builtin_flush \<lparr>ctx_store = s, ctx_args = []\<rparr>)"
  using store.clear_law [OF assms] by (simp add: builtin_flush_def command_okI)

lemma builtin_names: "map spec_name builtin = [''exit'', ''ping'', ''get'', ''set'', ''del'', ''flush'']"
  by (simp add: builtin_def)

lemma builtin_cases [consumes 1]:
  assumes "spec \<in> set builtin"
  obtains
    (exit_spec) "spec_name spec = ''exit''" and "required_args spec = 0" and "spec_run spec = builtin_exit"
  | (ping_spec) "spec_name spec = ''ping''" and "required_args spec = 0" and "spec_run spec = builtin_ping"
  | (get_spec) "spec_name spec = ''get''" and "required_args spec = 1" and "spec_run spec = builtin_get"
  | (set_spec) "spec_name spec = ''set''" and "required_args spec = 2" and "spec_run spec = builtin_set"
  | (del_spec) "spec_name spec = ''del''" and "required_args spec = 1" and "spec_run spec = builtin_del"
  | (flush_spec) "spec_name spec = ''flush''" and "required_args spec = 0"
      and "spec_run spec = builtin_flush"
  using assms unfolding builtin_def by (simp only: list.set insert_iff empty_iff) (elim disjE; simp)

text \<open>Only \<open>exit\<close> stops, and it has no output.\<close>

lemma builtin_stop:
  assumes "spec \<in> set builtin" and "spec_run spec context = Inr (r, s)"
  shows "res_stop r \<Longrightarrow> res_output r = []"
  using assms(1)
proof (cases rule: builtin_cases)
  case get_spec
  then show "res_stop r \<Longrightarrow> res_output r = []" using assms(2)
    by (auto simp: builtin_get_def bind_run_eq_Inr default_result_def split: option.splits)
next
  case del_spec
  then show "res_stop r \<Longrightarrow> res_output r = []" using assms(2)
    by (auto simp: builtin_del_def bind_run_eq_Inr default_result_def split: if_splits)
qed (use assms(2) in \<open>auto simp: builtin_exit_def builtin_ping_def builtin_set_def builtin_flush_def
    bind_run_eq_Inr default_result_def\<close>)

text \<open>Every builtin, run on a well-formed store with exactly the number of arguments that its
  entry in the command table requires, returns the reply of its specification and leaves the store
  in the specified state; the only fault is that of a \<open>set\<close> to a strictly shorter value.\<close>

theorem builtin_correct:
  assumes "store_inv s" and "store_budget s + 2 \<le> str_limit"
    and "spec \<in> set builtin" and "int (length args) = required_args spec"
    and "\<forall>a \<in> set args. arg_ok a"
  shows "command_ok s (spec_builtin (store_abs s) (spec_name spec) args)
    (spec_run spec \<lparr>ctx_store = s, ctx_args = args\<rparr>)"
proof -
  have one: "\<exists>a. args = [a]" if "length args = 1"
    using that by (cases args) auto
  have two: "\<exists>a b. args = [a, b]" if "length args = 2"
    using that by (auto simp: numeral_2_eq_2 length_Suc_conv)
  have exit: "command_ok s (spec_builtin (store_abs s) ''exit'' [])
      (builtin_exit \<lparr>ctx_store = s, ctx_args = []\<rparr>)"
    and ping: "command_ok s (spec_builtin (store_abs s) ''ping'' [])
      (builtin_ping \<lparr>ctx_store = s, ctx_args = []\<rparr>)"
    using assms(1) by (simp_all add: builtin_exit_def builtin_ping_def command_okI)
  from assms(3) show ?thesis
  proof (cases rule: builtin_cases)
    case exit_spec
    with exit exit_spec assms(4) show ?thesis by (simp del: spec_builtin.simps)
  next
    case ping_spec
    with ping ping_spec assms(4) show ?thesis by (simp del: spec_builtin.simps)
  next
    case get_spec
    then obtain a where "args = [a]" using one assms(4) get_spec by auto
    with get_spec builtin_get_ok [OF assms(1), of a] show ?thesis
      by (simp del: spec_builtin.simps)
  next
    case set_spec
    then obtain a b where "args = [a, b]" using two assms(4) set_spec by auto
    with set_spec builtin_set_ok [OF assms(1,2), of a b] assms(5) show ?thesis
      by (simp del: spec_builtin.simps)
  next
    case del_spec
    then obtain a where "args = [a]" using one assms(4) del_spec by auto
    with del_spec builtin_del_ok [OF assms(1), of a] assms(2) show ?thesis
      by (simp del: spec_builtin.simps)
  next
    case flush_spec
    with builtin_flush_ok [OF assms(1)] assms(4) show ?thesis
      by (simp del: spec_builtin.simps)
  qed
qed

theorem builtin_correct_witness:
  "\<exists>s'. builtin_set \<lparr>ctx_store = store_new, ctx_args = [''k'', ''v'']\<rparr>
      = Inr (default_result\<lparr>res_output := ''OK''\<rparr>, s') \<and> store_abs s' = [''k'' \<mapsto> ''v'']"
  using builtin_correct [of store_new "builtin ! 3" "[''k'', ''v'']"]
  by (auto simp: builtin_def command_ok_def shrinks_def arg_ok_def str_limit_def)

end
