(* ===== verification/Executor.thy ===== *)
theory Executor
  imports Command
begin

text \<open>
  The command executor (server/include/attokv_server/executor.h, server/src/executor.cpp): splitting
  the input into tokens, the command table, the checks on the number of arguments, and the dispatch.
  The two function-local statics \<open>commands()\<close> and \<open>store()\<close> are the two fields of \<open>executor\<close>.

  A \<open>const CommandSpec*\<close> into the table is the specification it points to, the null pointer is
  \<open>None\<close>.  A \<open>std::string_view& position\<close> that a function advances is returned with its result.
\<close>

section \<open>Tokens\<close>

definition k_max_command_args :: nat where
  "k_max_command_args = 2"

definition is_whitespace :: "char \<Rightarrow> bool" where
  "is_whitespace character \<longleftrightarrow> character \<in> {CHR '' '', CHR 0x09, CHR 0x0A, CHR 0x0D, CHR 0x0C, CHR 0x0B}"

text \<open>The two loops of \<open>next_token\<close>: advance \<open>position\<close> over the characters of one kind.\<close>

function advance :: "(char \<Rightarrow> bool) \<Rightarrow> string \<Rightarrow> nat \<Rightarrow> nat" where
  "advance P input position =
     (if position < length input \<and> P (input ! position) then advance P input (position + 1)
      else position)"
  by pat_completeness auto
termination by (relation "measure (\<lambda>(P, input, position). length input - position)") auto

declare advance.simps [simp del]

definition next_token :: "string \<Rightarrow> nat \<Rightarrow> string \<times> nat" where
  "next_token input position =
     (let start = advance is_whitespace input position;
          position' = advance (\<lambda>c. \<not> is_whitespace c) input start
      in (take (position' - start) (drop start input), position'))"

section \<open>Parsing a command\<close>

record executor =
  ex_commands :: "string \<rightharpoonup> command_spec"
  ex_store :: kv_store

definition executor_new :: executor where
  "executor_new = \<lparr>ex_commands = Map.empty, ex_store = store_new\<rparr>"

definition get_command_spec :: "executor \<Rightarrow> string \<Rightarrow> command_spec option" where
  "get_command_spec ex operation = ex_commands ex operation"

text \<open>\<open>emplace\<close> keeps the entry of a name that is already there.\<close>

definition emplace :: "(string \<rightharpoonup> command_spec) \<Rightarrow> command_spec \<Rightarrow> string \<rightharpoonup> command_spec" where
  "emplace cmds spec =
     (if cmds (spec_name spec) = None then cmds(spec_name spec \<mapsto> spec) else cmds)"

definition register_builtins :: "executor \<Rightarrow> executor" where
  "register_builtins ex = ex\<lparr>ex_commands := foldl emplace (ex_commands ex) builtin\<rparr>"

record parse_result =
  pr_command :: "command_spec option"
  pr_args :: "string list"
  pr_arg_count :: nat
  pr_error :: string

definition parse_error :: "string \<Rightarrow> parse_result" where
  "parse_error msg = \<lparr>pr_command = None, pr_args = replicate k_max_command_args [],
                      pr_arg_count = 0, pr_error = msg\<rparr>"

definition no_such_command :: "string \<Rightarrow> string" where
  "no_such_command operation = ''No such command '' @ CHR 0x27 # operation @ [CHR 0x27]"

definition invalid_args :: "string \<Rightarrow> string" where
  "invalid_args operation =
     ''Invalid number of args for command '' @ CHR 0x27 # operation @ [CHR 0x27]"

text \<open>The \<open>while (true)\<close> loop that collects the arguments into the array; \<open>None\<close> is one too many.\<close>

function parse_args :: "string \<Rightarrow> nat \<Rightarrow> string list \<Rightarrow> nat \<Rightarrow> (string list \<times> nat) option run" where
  "parse_args input position args arg_count =
     (let (argument, position') = next_token input position
      in if argument = [] then Inr (Some (args, arg_count))
         else if arg_count = length args then Inr None
         else if length args < arg_count then Inl Out_Of_Bounds
         else parse_args input position' (args[arg_count := argument]) (arg_count + 1))"
  by pat_completeness auto
termination
  by (relation "measure (\<lambda>(input, position, args, arg_count). length args - arg_count)") auto

declare parse_args.simps [simp del]

definition parse_command :: "executor \<Rightarrow> string \<Rightarrow> parse_result run" where
  "parse_command ex input =
     (let (operation, position) = next_token input 0
      in if operation = [] then Inr (parse_error ''Empty input'')
         else case get_command_spec ex operation of
           None \<Rightarrow> Inr (parse_error (no_such_command operation))
         | Some command \<Rightarrow>
             bind_run (assert_run (0 \<le> required_args command)) (\<lambda>_.
             bind_run (assert_run (nat (required_args command) \<le> k_max_command_args)) (\<lambda>_.
             bind_run (parse_args input position (replicate k_max_command_args []) 0) (\<lambda>p.
               case p of
                 None \<Rightarrow> Inr (parse_error (invalid_args operation))
               | Some (args, arg_count) \<Rightarrow>
                   if arg_count \<noteq> nat (required_args command)
                   then Inr (parse_error (invalid_args operation))
                   else Inr \<lparr>pr_command = Some command, pr_args = args, pr_arg_count = arg_count,
                             pr_error = []\<rparr>))))"

definition run_command :: "executor \<Rightarrow> string \<Rightarrow> (command_result \<times> executor) run" where
  "run_command ex input =
     bind_run (parse_command ex input) (\<lambda>parsed.
       case pr_command parsed of
         None \<Rightarrow> Inr (default_result\<lparr>res_error := True, res_output := pr_error parsed\<rparr>, ex)
       | Some command \<Rightarrow>
           bind_run (spec_run command
                       \<lparr>ctx_store = ex_store ex,
                        ctx_args = take (pr_arg_count parsed) (pr_args parsed)\<rparr>)
             (\<lambda>(result, store). Inr (result, ex\<lparr>ex_store := store\<rparr>)))"

section \<open>Tokens: the maximal runs of characters that are not white space\<close>

function tokens :: "string \<Rightarrow> string list" where
  "tokens [] = []"
| "tokens (c # cs) =
     (if is_whitespace c then tokens cs
      else (c # takeWhile (\<lambda>c. \<not> is_whitespace c) cs)
             # tokens (dropWhile (\<lambda>c. \<not> is_whitespace c) cs))"
  by pat_completeness auto
termination
  by (relation "measure length") (auto simp: le_imp_less_Suc length_dropWhile_le)

lemma tokens_single: "t \<noteq> [] \<Longrightarrow> \<forall>c \<in> set t. \<not> is_whitespace c \<Longrightarrow> tokens t = [t]"
  by (cases t) (auto simp: takeWhile_eq_all_conv [THEN iffD2] dropWhile_eq_Nil_conv [THEN iffD2])

lemma tokens_word:
  assumes "t \<noteq> []" and "\<forall>c \<in> set t. \<not> is_whitespace c" and "is_whitespace w"
  shows "tokens (t @ w # s) = t # tokens s"
proof -
  obtain c cs where t: "t = c # cs" using assms(1) by (cases t) auto
  have "takeWhile (\<lambda>c. \<not> is_whitespace c) (cs @ w # s) = cs"
    "dropWhile (\<lambda>c. \<not> is_whitespace c) (cs @ w # s) = w # s"
    using assms(2,3) t by (simp_all add: takeWhile_append2 dropWhile_append2)
  then show ?thesis using assms(2,3) t by simp
qed

lemma advance_drop:
  "position \<le> length input \<Longrightarrow>
    advance P input position = position + length (takeWhile P (drop position input))"
proof (induction P input position rule: advance.induct)
  case (1 P input position)
  show ?case
  proof (cases "position < length input")
    case True
    then have "drop position input = input ! position # drop (Suc position) input"
      by (simp add: Cons_nth_drop_Suc)
    then show ?thesis
      using 1 True by (simp add: advance.simps [of P input position])
  next
    case False
    then show ?thesis using 1(2) by (simp add: advance.simps)
  qed
qed

lemma takeWhile_take_drop: "drop (length (takeWhile P xs)) xs = dropWhile P xs"
  by (induction xs) auto

lemma take_length_takeWhile: "take (length (takeWhile P xs)) xs = takeWhile P xs"
  by (induction xs) auto

lemma tokens_dropWhile: "tokens (dropWhile is_whitespace cs) = tokens cs"
  by (induction cs) auto

lemma next_token_drop:
  assumes "position \<le> length input" and "rest = dropWhile is_whitespace (drop position input)"
  shows "fst (next_token input position) = takeWhile (\<lambda>c. \<not> is_whitespace c) rest"
    and "drop (snd (next_token input position)) input = dropWhile (\<lambda>c. \<not> is_whitespace c) rest"
    and "snd (next_token input position) \<le> length input"
proof -
  let ?b = "advance is_whitespace input position"
  have b: "?b = position + length (takeWhile is_whitespace (drop position input))"
    using assms(1) by (rule advance_drop)
  have rest: "rest = drop ?b input"
    using assms(2) b takeWhile_take_drop [of is_whitespace "drop position input"]
    by (simp add: add.commute)
  have le: "?b \<le> length input"
    using b assms(1) length_takeWhile_le [of is_whitespace "drop position input"] by simp
  have n: "next_token input position
      = (takeWhile (\<lambda>c. \<not> is_whitespace c) rest,
         ?b + length (takeWhile (\<lambda>c. \<not> is_whitespace c) rest))"
    using advance_drop [OF le, of "\<lambda>c. \<not> is_whitespace c"]
    by (simp add: next_token_def Let_def rest take_length_takeWhile)
  show "fst (next_token input position) = takeWhile (\<lambda>c. \<not> is_whitespace c) rest"
    by (simp add: n)
  show "drop (snd (next_token input position)) input = dropWhile (\<lambda>c. \<not> is_whitespace c) rest"
    using takeWhile_take_drop [of "\<lambda>c. \<not> is_whitespace c" rest]
    by (simp add: n rest add.commute)
  show "snd (next_token input position) \<le> length input"
    using length_takeWhile_le [of "\<lambda>c. \<not> is_whitespace c" rest] le rest by (simp add: n)
qed

text \<open>What the next token is, from the tokens of the input that remains.\<close>

lemma next_token_tokens:
  assumes "position \<le> length input" and "next_token input position = (t, position')"
  shows "position' \<le> length input"
    and "tokens (drop position input) = [] \<Longrightarrow> t = []"
    and "tokens (drop position input) = x # xs \<Longrightarrow> t = x \<and> x \<noteq> [] \<and> tokens (drop position' input) = xs"
proof -
  define rest where "rest = dropWhile is_whitespace (drop position input)"
  note n = next_token_drop [OF assms(1) rest_def, unfolded assms(2) fst_conv snd_conv]
  have rest: "tokens (drop position input) = tokens rest"
    by (simp add: rest_def tokens_dropWhile)
  show "position' \<le> length input" by (rule n(3))
  show "t = []" if "tokens (drop position input) = []"
  proof (cases rest)
    case Nil
    then show ?thesis using n by simp
  next
    case (Cons c cs)
    then have "\<not> is_whitespace c" unfolding rest_def by (metis dropWhile_eq_Cons_conv)
    then show ?thesis using that rest Cons by simp
  qed
  show "t = x \<and> x \<noteq> [] \<and> tokens (drop position' input) = xs"
    if "tokens (drop position input) = x # xs"
  proof (cases rest)
    case Nil
    then show ?thesis using that rest by simp
  next
    case (Cons c cs)
    then have "\<not> is_whitespace c" unfolding rest_def by (metis dropWhile_eq_Cons_conv)
    then show ?thesis using that rest Cons n(1,2) by auto
  qed
qed

lemma parse_args_tokens:
  assumes "position \<le> length input" and "arg_count \<le> length args"
    and "ts = tokens (drop position input)"
  shows "parse_args input position args arg_count
    = Inr (if arg_count + length ts \<le> length args
           then Some (take arg_count args @ ts @ drop (arg_count + length ts) args, arg_count + length ts)
           else None)"
  using assms
proof (induction ts arbitrary: position args arg_count)
  case Nil
  obtain t position' where n: "next_token input position = (t, position')" by fastforce
  with next_token_tokens(2) [OF Nil.prems(1) n] Nil.prems show ?case
    by (simp add: parse_args.simps)
next
  case (Cons x xs)
  obtain t position' where n: "next_token input position = (t, position')" by fastforce
  note t = next_token_tokens(1) [OF Cons.prems(1) n]
    next_token_tokens(3) [OF Cons.prems(1) n Cons.prems(3) [symmetric]]
  show ?case
  proof (cases "arg_count = length args")
    case True
    then show ?thesis using n t by (simp add: parse_args.simps)
  next
    case False
    with Cons.prems(2) have lt: "arg_count < length args" by simp
    have "parse_args input position' (args[arg_count := x]) (arg_count + 1)
        = Inr (if arg_count + 1 + length xs \<le> length args
           then Some (take (arg_count + 1) (args[arg_count := x]) @ xs
                        @ drop (arg_count + 1 + length xs) (args[arg_count := x]),
                      arg_count + 1 + length xs)
           else None)"
      using Cons.IH [of position' "arg_count + 1" "args[arg_count := x]"] t lt by simp
    moreover have "parse_args input position args arg_count
        = parse_args input position' (args[arg_count := x]) (arg_count + 1)"
      using n t lt by (simp add: parse_args.simps [of input position])
    ultimately show ?thesis
      using lt by (simp add: take_Suc_conv_app_nth)
  qed
qed

section \<open>What parsing returns\<close>

text \<open>The two assertions of \<open>parseCommand\<close> hold for every registered command.\<close>

definition well_registered :: "(string \<rightharpoonup> command_spec) \<Rightarrow> bool" where
  "well_registered cmds \<longleftrightarrow> (\<forall>name spec. cmds name = Some spec \<longrightarrow>
     0 \<le> required_args spec \<and> nat (required_args spec) \<le> k_max_command_args)"

lemma parse_command_tokens:
  assumes "well_registered (ex_commands ex)"
  shows "parse_command ex input = Inr
    (case tokens input of
       [] \<Rightarrow> parse_error ''Empty input''
     | operation # ts \<Rightarrow>
        (case ex_commands ex operation of
           None \<Rightarrow> parse_error (no_such_command operation)
         | Some command \<Rightarrow>
             if length ts \<noteq> nat (required_args command) then parse_error (invalid_args operation)
             else \<lparr>pr_command = Some command,
                   pr_args = ts @ replicate (k_max_command_args - length ts) [],
                   pr_arg_count = length ts, pr_error = []\<rparr>))"
proof -
  obtain t position where n: "next_token input 0 = (t, position)" by fastforce
  show ?thesis
  proof (cases "tokens input")
    case Nil
    then show ?thesis using next_token_tokens(2) [OF _ n] n by (simp add: parse_command_def)
  next
    case (Cons operation ts)
    note t = next_token_tokens(1) [OF _ n] next_token_tokens(3) [OF _ n, of operation ts]
    have p: "parse_args input position (replicate k_max_command_args []) 0
        = Inr (if length ts \<le> k_max_command_args
               then Some (ts @ replicate (k_max_command_args - length ts) [], length ts) else None)"
      using t Cons parse_args_tokens [of position input 0 "replicate k_max_command_args []" ts] by simp
    show ?thesis
    proof (cases "ex_commands ex operation")
      case None
      then show ?thesis using t Cons n by (simp add: parse_command_def get_command_spec_def)
    next
      case (Some command)
      then have "0 \<le> required_args command" "nat (required_args command) \<le> k_max_command_args"
        using assms by (auto simp: well_registered_def)
      then show ?thesis
        using t Cons n Some p by (auto simp: parse_command_def get_command_spec_def)
    qed
  qed
qed

section \<open>The command table\<close>

definition builtin_table :: "string \<rightharpoonup> command_spec" where
  "builtin_table = map_of (map (\<lambda>spec. (spec_name spec, spec)) builtin)"

lemma foldl_emplace:
  "foldl emplace cmds specs = map_of (map (\<lambda>spec. (spec_name spec, spec)) specs) ++ cmds"
proof (induction specs arbitrary: cmds)
  case Nil
  then show ?case by simp
next
  case (Cons spec specs)
  show ?case
    unfolding foldl_Cons Cons.IH
    by (rule ext) (auto simp: emplace_def map_add_def split: option.splits)
qed

lemma register_builtins_table:
  "ex_commands (register_builtins ex) = builtin_table ++ ex_commands ex"
  "ex_store (register_builtins ex) = ex_store ex"
  by (simp_all add: register_builtins_def foldl_emplace builtin_table_def)

lemma builtin_table_mem: "builtin_table name = Some spec \<Longrightarrow> spec \<in> set builtin \<and> spec_name spec = name"
  unfolding builtin_table_def by (drule map_of_SomeD) auto

lemma well_registered_builtin: "well_registered builtin_table"
  unfolding well_registered_def k_max_command_args_def
proof (intro allI impI)
  fix name spec
  assume "builtin_table name = Some spec"
  then have "spec \<in> set builtin" by (simp add: builtin_table_mem)
  then show "0 \<le> required_args spec \<and> nat (required_args spec) \<le> 2"
    by (cases rule: builtin_cases) simp_all
qed

lemma parse_command_table:
  assumes "ex_commands ex = builtin_table"
  shows "parse_command ex input = Inr
    (case tokens input of
       [] \<Rightarrow> parse_error ''Empty input''
     | operation # ts \<Rightarrow>
        (case builtin_table operation of
           None \<Rightarrow> parse_error (no_such_command operation)
         | Some command \<Rightarrow>
             if length ts \<noteq> nat (required_args command) then parse_error (invalid_args operation)
             else \<lparr>pr_command = Some command,
                   pr_args = ts @ replicate (k_max_command_args - length ts) [],
                   pr_arg_count = length ts, pr_error = []\<rparr>))"
  unfolding assms [symmetric] by (rule parse_command_tokens) (simp add: assms well_registered_builtin)

text \<open>The number of arguments of each command, by name.\<close>

definition arity :: "string \<rightharpoonup> nat" where
  "arity = map_of [(''exit'', 0), (''ping'', 0), (''get'', 1), (''set'', 2), (''del'', 1), (''flush'', 0)]"

lemma arity_table: "arity name = map_option (\<lambda>spec. nat (required_args spec)) (builtin_table name)"
  by (simp add: arity_def builtin_table_def builtin_def)

section \<open>Running a command against the abstract map\<close>

definition error_result :: "string \<Rightarrow> command_result" where
  "error_result msg = default_result\<lparr>res_error := True, res_output := msg\<rparr>"

definition spec_command ::
  "(string \<rightharpoonup> string) \<Rightarrow> string \<Rightarrow> (command_result \<times> (string \<rightharpoonup> string)) option" where
  "spec_command \<sigma> input =
     (case tokens input of
        [] \<Rightarrow> Some (error_result ''Empty input'', \<sigma>)
      | operation # ts \<Rightarrow>
          (case arity operation of
             None \<Rightarrow> Some (error_result (no_such_command operation), \<sigma>)
           | Some n \<Rightarrow> if length ts \<noteq> n then Some (error_result (invalid_args operation), \<sigma>)
                      else spec_builtin \<sigma> operation ts))"

definition ex_inv :: "executor \<Rightarrow> bool" where
  "ex_inv ex \<longleftrightarrow> ex_commands ex = builtin_table \<and> store_inv (ex_store ex)"

abbreviation ex_abs :: "executor \<Rightarrow> string \<rightharpoonup> string" where
  "ex_abs ex \<equiv> store_abs (ex_store ex)"

abbreviation ex_budget :: "executor \<Rightarrow> nat" where
  "ex_budget ex \<equiv> store_budget (ex_store ex)"

lemma ex_inv_start:
  "ex_inv (register_builtins executor_new)" "ex_abs (register_builtins executor_new) = Map.empty"
  "ex_budget (register_builtins executor_new) = 1"
  by (simp_all add: ex_inv_def register_builtins_table) (simp_all add: executor_new_def)

lemma tokens_bounds:
  "t \<in> set (tokens s) \<Longrightarrow> t \<noteq> [] \<and> length t \<le> length s \<and> (\<forall>c \<in> set t. \<not> is_whitespace c)"
proof (induction s rule: tokens.induct)
  case 1
  then show ?case by simp
next
  case (2 c cs)
  show ?case
  proof (cases "is_whitespace c")
    case True
    then show ?thesis using 2 by fastforce
  next
    case False
    then consider "t = c # takeWhile (\<lambda>c. \<not> is_whitespace c) cs"
      | "t \<in> set (tokens (dropWhile (\<lambda>c. \<not> is_whitespace c) cs))"
      using 2(3) by auto
    then show ?thesis
    proof cases
      case 1
      then show ?thesis using False length_takeWhile_le [of "\<lambda>c. \<not> is_whitespace c" cs]
        by (auto dest: set_takeWhileD)
    next
      case 2
      then have "t \<noteq> [] \<and> length t \<le> length (dropWhile (\<lambda>c. \<not> is_whitespace c) cs)
          \<and> (\<forall>c \<in> set t. \<not> is_whitespace c)"
        using "2.IH"(2) [OF False] by blast
      then show ?thesis using length_dropWhile_le [of "\<lambda>c. \<not> is_whitespace c" cs] by simp
    qed
  qed
qed

text \<open>The outcome of a run of a command, as the specification has it.\<close>

definition run_ok ::
  "executor \<Rightarrow> (command_result \<times> (string \<rightharpoonup> string)) option
    \<Rightarrow> (command_result \<times> executor) run \<Rightarrow> bool" where
  "run_ok ex spec res \<longleftrightarrow>
     (case spec of
        None \<Rightarrow> res = Inl Out_Of_Bounds
      | Some (r, \<sigma>) \<Rightarrow> (\<exists>ex'. res = Inr (r, ex') \<and> ex_inv ex' \<and> ex_abs ex' = \<sigma>
          \<and> ex_budget ex' \<le> ex_budget ex + 2))"

lemma run_command_ok:
  assumes inv: "ex_inv ex" and budget: "ex_budget ex + 2 \<le> str_limit"
    and len: "length input < str_limit"
  shows "run_ok ex (spec_command (ex_abs ex) input) (run_command ex input)"
proof -
  have tab: "ex_commands ex = builtin_table" and st: "store_inv (ex_store ex)"
    using inv by (simp_all add: ex_inv_def)
  have "well_registered (ex_commands ex)" using tab well_registered_builtin by simp
  note p = parse_command_tokens [OF this, of input]
  have err: "run_ok ex (Some (error_result msg, ex_abs ex)) (Inr (error_result msg, ex))" for msg
    using inv by (simp add: run_ok_def)
  show ?thesis
  proof (cases "tokens input")
    case Nil
    then show ?thesis
      using p err by (simp add: run_command_def spec_command_def parse_error_def error_result_def)
  next
    case (Cons operation ts)
    show ?thesis
    proof (cases "builtin_table operation")
      case None
      then show ?thesis using p Cons tab err
        by (simp add: run_command_def spec_command_def parse_error_def error_result_def arity_table)
    next
      case (Some spec)
      note mem = builtin_table_mem [OF Some]
      show ?thesis
      proof (cases "length ts = nat (required_args spec)")
        case False
        then show ?thesis using p Cons tab Some err
          by (simp add: run_command_def spec_command_def parse_error_def error_result_def arity_table)
      next
        case True
        have "0 \<le> required_args spec"
          using well_registered_builtin Some by (auto simp: well_registered_def)
        then have args: "int (length ts) = required_args spec" using True by simp
        have "\<forall>a \<in> set ts. arg_ok a"
          using tokens_bounds [of _ input] Cons len by (fastforce simp: arg_ok_def)
        from builtin_correct [OF st budget conjunct1 [OF mem] args this]
        have "command_ok (ex_store ex) (spec_builtin (ex_abs ex) operation ts)
            (spec_run spec \<lparr>ctx_store = ex_store ex, ctx_args = ts\<rparr>)"
          using mem by simp
        moreover have "run_command ex input
            = bind_run (spec_run spec \<lparr>ctx_store = ex_store ex, ctx_args = ts\<rparr>)
                (\<lambda>(result, store). Inr (result, ex\<lparr>ex_store := store\<rparr>))"
          using p Cons tab Some True by (simp add: run_command_def)
        moreover have "spec_command (ex_abs ex) input = spec_builtin (ex_abs ex) operation ts"
          using Cons Some True by (simp add: spec_command_def arity_table del: spec_builtin.simps)
        ultimately show ?thesis
          using tab by (auto simp: run_ok_def command_ok_def ex_inv_def simp del: spec_builtin.simps
              split: option.splits)
      qed
    qed
  qed
qed

section \<open>Sequences of commands\<close>

fun run_commands :: "executor \<Rightarrow> string list \<Rightarrow> (command_result list \<times> executor) run" where
  "run_commands ex [] = Inr ([], ex)"
| "run_commands ex (input # inputs) =
     bind_run (run_command ex input) (\<lambda>(r, ex1).
     bind_run (run_commands ex1 inputs) (\<lambda>(rs, ex2). Inr (r # rs, ex2)))"

fun spec_commands ::
  "(string \<rightharpoonup> string) \<Rightarrow> string list \<Rightarrow> (command_result list \<times> (string \<rightharpoonup> string)) option" where
  "spec_commands \<sigma> [] = Some ([], \<sigma>)"
| "spec_commands \<sigma> (input # inputs) =
     (case spec_command \<sigma> input of
        None \<Rightarrow> None
      | Some (r, \<sigma>1) \<Rightarrow> map_option (\<lambda>(rs, \<sigma>2). (r # rs, \<sigma>2)) (spec_commands \<sigma>1 inputs))"

lemma spec_commands_append:
  "spec_commands \<sigma> (xs @ ys) = (case spec_commands \<sigma> xs of
      None \<Rightarrow> None
    | Some (rs, \<sigma>1) \<Rightarrow> map_option (\<lambda>(rs', \<sigma>2). (rs @ rs', \<sigma>2)) (spec_commands \<sigma>1 ys))"
proof (induction xs arbitrary: \<sigma>)
  case Nil
  then show ?case by (cases "spec_commands \<sigma> ys") auto
next
  case (Cons x xs)
  show ?case
  proof (cases "spec_command \<sigma> x")
    case (Some r)
    then show ?thesis using Cons.IH by (cases r; cases "spec_commands (snd r) xs"; cases "spec_commands (snd (the (spec_commands (snd r) xs))) ys") auto
  qed simp
qed

lemma run_commands_ok:
  assumes "ex_inv ex" and "ex_budget ex + 2 * length inputs \<le> str_limit"
    and "\<forall>input \<in> set inputs. length input < str_limit"
  shows "case spec_commands (ex_abs ex) inputs of
      None \<Rightarrow> run_commands ex inputs = Inl Out_Of_Bounds
    | Some (rs, \<sigma>) \<Rightarrow> \<exists>ex'. run_commands ex inputs = Inr (rs, ex') \<and> ex_inv ex' \<and> ex_abs ex' = \<sigma>
        \<and> ex_budget ex' \<le> ex_budget ex + 2 * length inputs"
  using assms
proof (induction inputs arbitrary: ex)
  case Nil
  then show ?case by simp
next
  case (Cons input inputs)
  have "run_ok ex (spec_command (ex_abs ex) input) (run_command ex input)"
    using Cons.prems by (intro run_command_ok) auto
  then consider (faults) "spec_command (ex_abs ex) input = None" "run_command ex input = Inl Out_Of_Bounds"
    | (runs) r ex1 where "spec_command (ex_abs ex) input = Some (r, ex_abs ex1)"
        "run_command ex input = Inr (r, ex1)" "ex_inv ex1" "ex_budget ex1 \<le> ex_budget ex + 2"
    by (auto simp: run_ok_def split: option.splits)
  then show ?case
  proof cases
    case faults
    then show ?thesis by simp
  next
    case runs
    then have "ex_budget ex1 + 2 * length inputs \<le> str_limit" using Cons.prems(2) by simp
    from Cons.IH [OF runs(3) this] Cons.prems(3) runs show ?thesis
      by (cases "spec_commands (ex_abs ex1) inputs") auto
  qed
qed

section \<open>Properties\<close>

text \<open>\<open>parseCommand\<close> with the builtins registered never faults (its assertions hold), and its
  result is determined by the maximal runs of non-blank characters of the input: empty input, unknown
  command and wrong number of arguments are the three errors, in this order; otherwise the arguments
  are exactly the tokens after the first.\<close>

theorem parse_command_correct:
  assumes "ex_commands ex = builtin_table"
  shows "parse_command ex input = Inr
    (case tokens input of
       [] \<Rightarrow> parse_error ''Empty input''
     | operation # ts \<Rightarrow>
        (case builtin_table operation of
           None \<Rightarrow> parse_error (no_such_command operation)
         | Some command \<Rightarrow>
             if length ts \<noteq> nat (required_args command) then parse_error (invalid_args operation)
             else \<lparr>pr_command = Some command,
                   pr_args = ts @ replicate (k_max_command_args - length ts) [],
                   pr_arg_count = length ts, pr_error = []\<rparr>))"
  using assms by (rule parse_command_table)

theorem parse_command_correct_witness:
  "parse_command (register_builtins executor_new) ''  set k v w ''
    = Inr (parse_error (invalid_args ''set''))"
  using parse_command_correct [OF conjunct1 [OF ex_inv_start(1) [unfolded ex_inv_def]],
      of "''  set k v w ''"]
  by (simp add: is_whitespace_def builtin_table_def builtin_def)

text \<open>C13: \<open>run_command\<close> implements its specification on the abstract map, for every input: the reply
  and the new contents of the store are those of the specification (errors leave the store as it
  was), and the run is undefined exactly for a \<open>set\<close> to a strictly shorter value.\<close>

theorem run_command_correct:
  assumes "ex_inv ex" and "ex_budget ex + 2 \<le> str_limit" and "length input < str_limit"
  shows "case spec_command (ex_abs ex) input of
      None \<Rightarrow> run_command ex input = Inl Out_Of_Bounds
    | Some (r, \<sigma>) \<Rightarrow> \<exists>ex'. run_command ex input = Inr (r, ex') \<and> ex_inv ex' \<and> ex_abs ex' = \<sigma>"
  using run_command_ok [OF assms] by (auto simp: run_ok_def split: option.splits)

theorem run_command_correct_witness:
  "\<exists>ex'. run_command (register_builtins executor_new) ''set  k v''
      = Inr (default_result\<lparr>res_output := ''OK''\<rparr>, ex') \<and> ex_abs ex' = [''k'' \<mapsto> ''v'']"
  using run_command_correct [OF ex_inv_start(1), of "''set  k v''"] ex_inv_start(2,3)
  by (auto simp: str_limit_def spec_command_def is_whitespace_def arity_def shrinks_def)

text \<open>C6: every session of fewer than 2^31 commands on a fresh executor replies as the abstract map
  does, command after command, whatever resizes, tombstones and arena rebuilds happen in between; it
  is undefined exactly when the abstract session has a \<open>set\<close> to a strictly shorter value.\<close>

theorem session_correct:
  assumes "2 * length inputs < 4294967296" and "\<forall>input \<in> set inputs. length input < str_limit"
  shows "case spec_commands Map.empty inputs of
      None \<Rightarrow> run_commands (register_builtins executor_new) inputs = Inl Out_Of_Bounds
    | Some (rs, \<sigma>) \<Rightarrow> \<exists>ex'. run_commands (register_builtins executor_new) inputs = Inr (rs, ex')
        \<and> ex_abs ex' = \<sigma>"
  using run_commands_ok [OF ex_inv_start(1), of inputs] assms ex_inv_start(2,3)
  by (auto simp: str_limit_def split: option.splits)

theorem session_correct_witness:
  "(\<exists>ex'. run_commands (register_builtins executor_new) [''set a 1'', ''get a'', ''del a'', ''get a'']
      = Inr ([default_result\<lparr>res_output := ''OK''\<rparr>, default_result\<lparr>res_output := ''1''\<rparr>,
              default_result\<lparr>res_output := ''OK''\<rparr>, default_result\<lparr>res_output := ''NULL''\<rparr>], ex'))
   \<and> run_commands (register_builtins executor_new) [''set a 12'', ''set a 1''] = Inl Out_Of_Bounds"
  using session_correct [of "[''set a 1'', ''get a'', ''del a'', ''get a'']"]
    session_correct [of "[''set a 12'', ''set a 1'']"]
  by (auto simp: str_limit_def spec_command_def is_whitespace_def arity_def shrinks_def)

text \<open>Until \<open>register_builtins\<close> has run every command is refused, with the store unchanged;
  registering a second time changes nothing.\<close>

theorem registration_required:
  "run_command executor_new input
     = Inr (error_result (case tokens input of [] \<Rightarrow> ''Empty input'' | op # _ \<Rightarrow> no_such_command op),
            executor_new)
   \<and> register_builtins (register_builtins ex) = register_builtins ex"
proof
  have "well_registered (ex_commands executor_new)"
    by (simp add: well_registered_def executor_new_def)
  from parse_command_tokens [OF this, of input]
  show "run_command executor_new input
     = Inr (error_result (case tokens input of [] \<Rightarrow> ''Empty input'' | op # _ \<Rightarrow> no_such_command op),
            executor_new)"
    by (simp add: run_command_def error_result_def parse_error_def executor_new_def
        split: list.splits)
  show "register_builtins (register_builtins ex) = register_builtins ex"
    by (rule executor.equality)
       (auto simp: register_builtins_table map_add_def fun_eq_iff split: option.splits)
qed

end
