(* ===== verification/Network.thy ===== *)
theory Network
  imports AttoPrelude
begin

text \<open>
  What the library calls of POSIX do, as far as the code relies on it: byte order, \<open>errno\<close>, and the
  \<open>recv\<close> and \<open>send\<close> of a stream socket.

  The outside of a socket is a script that every definition takes as an argument: the list of the
  outcomes that the kernel has in store for the receiving (resp. sending) calls.  A received chunk
  that does not fit the buffer stays in the script with its rest; the chunk of no bytes is the
  orderly shutdown of the peer.  A call on the empty script has not returned.  The theorems hold for
  every script, that is for every way in which the bytes are cut up, delayed and interrupted.
\<close>

section \<open>Byte order\<close>

text \<open>The four bytes of a \<open>uint32_t\<close> in the memory of the (little-endian) host.\<close>

definition store_u32 :: "u32 \<Rightarrow> string" where
  "store_u32 w = [char_of (unat w), char_of (unat w div 256), char_of (unat w div 65536),
                  char_of (unat w div 16777216)]"

fun load_u32 :: "string \<Rightarrow> u32" where
  "load_u32 [a, b, c, d] =
     word_of_nat (of_char a + 256 * of_char b + 65536 * of_char c + 16777216 * of_char d)"
| "load_u32 _ = 0"

definition htonl :: "u32 \<Rightarrow> u32" where
  "htonl w = load_u32 (rev (store_u32 w))"

definition ntohl :: "u32 \<Rightarrow> u32" where
  "ntohl w = load_u32 (rev (store_u32 w))"

lemma length_store_u32 [simp]: "length (store_u32 w) = 4"
  by (simp add: store_u32_def)

lemma length_4E:
  assumes "length xs = 4"
  obtains a b c d where "xs = [a, b, c, d]"
  using assms by (auto simp: length_Suc_conv numeral_eq_Suc)

lemma unat_load_u32:
  "unat (load_u32 [a, b, c, d])
    = of_char a + 256 * of_char b + 65536 * of_char c + 16777216 * of_char d"
proof -
  have "of_char a + 256 * of_char b + 65536 * of_char c + 16777216 * of_char d < (4294967296 :: nat)"
    using nat_of_char_less_256 [of a] nat_of_char_less_256 [of b] nat_of_char_less_256 [of c]
      nat_of_char_less_256 [of d] by linarith
  then show ?thesis unfolding load_u32.simps by (rule unat_word_of_nat_u32)
qed

lemma char_of_digit: "m = of_char x + 256 * n \<Longrightarrow> char_of m = x" for m n :: nat
  by (metis char_of_char char_of_mod_256 mod_mult_self2)

lemma store_load_u32:
  assumes "length bs = 4"
  shows "store_u32 (load_u32 bs) = bs"
proof -
  obtain a b c d where bs: "bs = [a, b, c, d]" using assms by (rule length_4E)
  define A B C D :: nat where "A = of_char a" and "B = of_char b" and "C = of_char c" and "D = of_char d"
  have lt: "A < 256" "B < 256" "C < 256" "D < 256" by (simp_all add: A_def B_def C_def D_def)
  define w where "w = load_u32 bs"
  have w: "unat w = A + 256 * B + 65536 * C + 16777216 * D"
    unfolding w_def bs unat_load_u32 A_def B_def C_def D_def by simp
  have "char_of (unat w) = a"
    by (rule char_of_digit [of _ _ "B + 256 * C + 65536 * D"]) (simp add: w A_def)
  moreover have "unat w div 256 = B + 256 * (C + 256 * D)"
    unfolding w using lt by simp
  then have "char_of (unat w div 256) = b"
    unfolding B_def by (rule char_of_digit)
  moreover have "unat w div 65536 = C + 256 * D"
    unfolding w using lt by simp
  then have "char_of (unat w div 65536) = c"
    unfolding C_def by (rule char_of_digit)
  moreover have "unat w div 16777216 = D + 256 * 0"
    unfolding w using lt by simp
  then have "char_of (unat w div 16777216) = d"
    unfolding D_def by (rule char_of_digit)
  ultimately have "store_u32 w = bs" by (simp add: store_u32_def bs)
  then show ?thesis by (simp add: w_def)
qed

lemma digits_256:
  fixes n :: nat
  assumes "n < 4294967296"
  shows "n mod 256 + 256 * (n div 256 mod 256) + 65536 * (n div 65536 mod 256)
    + 16777216 * (n div 16777216 mod 256) = n"
proof -
  have q2: "n div 65536 = n div 256 div 256" and q3: "n div 16777216 = n div 256 div 256 div 256"
    by (simp_all add: div_mult2_eq [symmetric])
  have "n div 256 div 256 div 256 < 256" using assms unfolding q3 [symmetric] by simp
  then have "n div 256 div 256 div 256 mod 256 = n div 256 div 256 div 256" by simp
  then show ?thesis
    using mult_div_mod_eq [of 256 n] mult_div_mod_eq [of 256 "n div 256"]
      mult_div_mod_eq [of 256 "n div 256 div 256"]
    unfolding q2 q3 by linarith
qed

lemma load_store_u32 [simp]: "load_u32 (store_u32 w) = w"
proof (rule unsigned_word_eqI)
  show "unat (load_u32 (store_u32 w)) = unat w"
    unfolding store_u32_def unat_load_u32 of_char_of by (rule digits_256 [OF unat_u32_bound])
qed

lemma store_htonl: "store_u32 (htonl w) = rev (store_u32 w)"
  by (simp add: htonl_def store_load_u32)

lemma ntohl_htonl [simp]: "ntohl (htonl w) = w"
  by (simp add: ntohl_def store_htonl)

lemma htonl_ntohl [simp]: "htonl (ntohl w) = w"
  by (simp add: htonl_def ntohl_def store_load_u32)

section \<open>The error numbers that the code looks at\<close>

definition EINTR :: int where "EINTR = 4"
definition EAGAIN :: int where "EAGAIN = 11"
definition EWOULDBLOCK :: int where "EWOULDBLOCK = 11"
definition EPIPE :: int where "EPIPE = 32"

section \<open>Receiving\<close>

datatype recv_event = Received string | Recv_Failed int

text \<open>One call: the bytes, or the error number.\<close>

fun recv :: "nat \<Rightarrow> recv_event list \<Rightarrow> ((int + string) \<times> recv_event list) option" where
  "recv n [] = None"
| "recv n (Recv_Failed e # es) = Some (Inl e, es)"
| "recv n (Received bs # es) =
     (if length bs \<le> n then Some (Inr bs, es) else Some (Inr (take n bs), Received (drop n bs) # es))"

lemma recv_length: "recv n es = Some (Inr bs, es') \<Longrightarrow> length bs \<le> n"
  by (cases "(n, es)" rule: recv.cases) (auto split: if_splits)

lemma recv_measure:
  assumes "recv (length buf - got) es = Some (r, es')" and "got < length buf"
  shows "r = Inl e \<Longrightarrow> length es' < length es"
    and "r = Inr bs \<Longrightarrow> bs \<noteq> [] \<Longrightarrow> length (write_at got bs buf) - (got + length bs) + length es'
      < length buf - got + length es"
proof -
  show "length es' < length es" if "r = Inl e"
    using assms(1) that by (cases es rule: list.exhaust; cases "hd es") (auto split: if_splits)
  show "length (write_at got bs buf) - (got + length bs) + length es' < length buf - got + length es"
    if r: "r = Inr bs" and ne: "bs \<noteq> []"
  proof -
    have len: "length bs \<le> length buf - got" using recv_length [of "length buf - got" es bs es'] assms(1) r by simp
    then have "length (write_at got bs buf) = length buf"
      using assms(2) by (intro length_write_at) simp
    moreover have "length es' \<le> length es"
      using assms(1) by (cases es rule: list.exhaust; cases "hd es") (auto split: if_splits)
    moreover have "0 < length bs" using ne by simp
    ultimately show ?thesis using len assms(2) by linarith
  qed
qed

section \<open>Sending\<close>

datatype send_event = Accepted nat | Send_Failed int

text \<open>One call on \<open>bytes\<close>: the number of them that the kernel took, or the error number.\<close>

fun send :: "string \<Rightarrow> send_event list \<Rightarrow> ((int + nat) \<times> send_event list) option" where
  "send bytes [] = None"
| "send bytes (Send_Failed e # es) = Some (Inl e, es)"
| "send bytes (Accepted k # es) = Some (Inr (min k (length bytes)), es)"

lemma send_shorter: "send bytes es = Some (r, es') \<Longrightarrow> length es' < length es"
  by (cases "(bytes, es)" rule: send.cases) auto

lemma send_length: "send bytes es = Some (Inr n, es') \<Longrightarrow> n \<le> length bytes"
  by (cases "(bytes, es)" rule: send.cases) auto

end
