(* ===== verification/Message.thy ===== *)
theory Message
  imports Network
begin

text \<open>
  Framing of messages (lib/include/attokv/message.h, error.h, lib/src/message.cpp): a message is sent
  as the four bytes of its size in network byte order, followed by its bytes.

  \<open>MessageReader\<close> and \<open>MessageWriter\<close> can be interrupted anywhere by a socket that is not ready and
  resumed later; \<open>read_message\<close> and \<open>write_message\<close> are their blocking counterparts.  An operation
  takes the script of its socket and returns the rest; \<open>None\<close> means that a call to the kernel has not
  returned.
\<close>

section \<open>Errors\<close>

datatype io_error_kind = System | Unexpected_Eof | Invalid_Frame | Message_Too_Large

text \<open>The cause is an error number of the generic category, 0 for the empty \<open>std::error_code\<close>.\<close>

record io_error =
  err_kind :: io_error_kind
  err_cause :: int
  err_context :: string

definition system_error :: "int \<Rightarrow> string \<Rightarrow> io_error" where
  "system_error errno context = \<lparr>err_kind = System, err_cause = errno, err_context = context\<rparr>"

definition unexpected_eof :: "string \<Rightarrow> io_error" where
  "unexpected_eof context = \<lparr>err_kind = Unexpected_Eof, err_cause = 0, err_context = context\<rparr>"

definition message_too_large :: "string \<Rightarrow> io_error" where
  "message_too_large context =
     \<lparr>err_kind = Message_Too_Large, err_cause = 0, err_context = context\<rparr>"

definition broken_pipe :: "string \<Rightarrow> io_error" where
  "broken_pipe context = \<lparr>err_kind = System, err_cause = EPIPE, err_context = context\<rparr>"

definition would_block :: "int \<Rightarrow> bool" where
  "would_block errno \<longleftrightarrow> errno = EAGAIN \<or> errno = EWOULDBLOCK"

definition MAX_MESSAGE_SIZE :: nat where
  "MAX_MESSAGE_SIZE = 16777215"

section \<open>The loops around \<open>recv\<close> and \<open>send\<close>\<close>

text \<open>
  Every loop of this file over \<open>recv\<close> (over \<open>send\<close>) has the same body up to what it does with an end
  other than a full buffer: count what a call transferred, retry after \<open>EINTR\<close>, and stop at no bytes
  or at another error.
\<close>

datatype loop_end = Filled | No_Bytes | Io_Failed int

function recv_loop ::
  "string \<Rightarrow> nat \<Rightarrow> recv_event list \<Rightarrow> (loop_end \<times> string \<times> nat \<times> recv_event list) option" where
  "recv_loop buf got es =
     (if got < length buf then
        case recv (length buf - got) es of
          None \<Rightarrow> None
        | Some (Inr bs, es') \<Rightarrow>
            if bs \<noteq> [] then recv_loop (write_at got bs buf) (got + length bs) es'
            else Some (No_Bytes, buf, got, es')
        | Some (Inl errno, es') \<Rightarrow>
            if errno = EINTR then recv_loop buf got es'
            else Some (Io_Failed errno, buf, got, es')
      else Some (Filled, buf, got, es))"
  by pat_completeness auto
termination
  by (relation "measure (\<lambda>(buf, got, es). (length buf - got) + length es)")
     (auto dest: recv_measure)

declare recv_loop.simps [simp del]

text \<open>The bytes that the kernel took are appended to \<open>out\<close>, what the peer will receive.\<close>

function send_loop ::
  "string \<Rightarrow> nat \<Rightarrow> send_event list \<Rightarrow> string
    \<Rightarrow> (loop_end \<times> nat \<times> send_event list \<times> string) option" where
  "send_loop buf sent es out =
     (if sent < length buf then
        case send (drop sent buf) es of
          None \<Rightarrow> None
        | Some (Inr n, es') \<Rightarrow>
            if n \<noteq> 0 then send_loop buf (sent + n) es' (out @ take n (drop sent buf))
            else Some (No_Bytes, sent, es', out)
        | Some (Inl errno, es') \<Rightarrow>
            if errno = EINTR then send_loop buf sent es' out
            else Some (Io_Failed errno, sent, es', out)
      else Some (Filled, sent, es, out))"
  by pat_completeness auto
termination
  by (relation "measure (\<lambda>(buf, sent, es, out). length es)") (auto dest: send_shorter)

declare send_loop.simps [simp del]

section \<open>Reading without blocking\<close>

datatype message_read_status = Incomplete | Closed | Complete

record message_read_result =
  status :: message_read_status
  message :: string

record message_reader =
  r_header :: string
  r_header_bytes :: nat
  r_payload :: string
  r_payload_bytes :: nat

definition reader_new :: message_reader where
  "reader_new = \<lparr>r_header = replicate 4 nul, r_header_bytes = 0, r_payload = [], r_payload_bytes = 0\<rparr>"

definition reader_reset :: "message_reader \<Rightarrow> message_reader" where
  "reader_reset r =
     r\<lparr>r_header := replicate 4 nul, r_header_bytes := 0, r_payload := [], r_payload_bytes := 0\<rparr>"

type_synonym read_outcome = "(io_error + message_read_result) \<times> message_reader \<times> recv_event list"

text \<open>The second loop of \<open>read_from\<close> with what follows it.\<close>

definition read_payload :: "message_reader \<Rightarrow> recv_event list \<Rightarrow> read_outcome option" where
  "read_payload r es =
     (case recv_loop (r_payload r) (r_payload_bytes r) es of
        None \<Rightarrow> None
      | Some (ending, payload, got, es') \<Rightarrow>
          let r' = r\<lparr>r_payload := payload, r_payload_bytes := got\<rparr>
          in Some (case ending of
               No_Bytes \<Rightarrow>
                 (Inl (unexpected_eof ''Peer closed before sending the message payload''), r', es')
             | Io_Failed errno \<Rightarrow>
                 if would_block errno then (Inr \<lparr>status = Incomplete, message = []\<rparr>, r', es')
                 else (Inl (system_error errno ''Failed to read message payload''), r', es')
             | Filled \<Rightarrow>
                 (Inr \<lparr>status = Complete, message = payload\<rparr>, reader_reset r', es')))"

text \<open>The block between the loops: the size of the payload, once the header is there.\<close>

definition read_size_and_payload ::
  "message_reader \<Rightarrow> recv_event list \<Rightarrow> read_outcome option" where
  "read_size_and_payload r es =
     (if r_payload r = [] \<and> r_payload_bytes r = 0 then
        let payload_size = unat (ntohl (load_u32 (r_header r)))
        in if MAX_MESSAGE_SIZE < payload_size then
             Some (Inl (message_too_large ''Incoming message exceeds maximum size''), r, es)
           else let r' = r\<lparr>r_payload := replicate payload_size nul\<rparr>
             in if payload_size = 0 then
                  Some (Inr \<lparr>status = Complete, message = []\<rparr>, reader_reset r', es)
                else read_payload r' es
      else read_payload r es)"

definition read_from :: "message_reader \<Rightarrow> recv_event list \<Rightarrow> read_outcome option" where
  "read_from r es =
     (case recv_loop (r_header r) (r_header_bytes r) es of
        None \<Rightarrow> None
      | Some (ending, header, got, es') \<Rightarrow>
          let r' = r\<lparr>r_header := header, r_header_bytes := got\<rparr>
          in case ending of
               No_Bytes \<Rightarrow>
                 Some (if got = 0 then Inr \<lparr>status = Closed, message = []\<rparr>
                       else Inl (unexpected_eof ''Failed to read message header''), r', es')
             | Io_Failed errno \<Rightarrow>
                 Some (if would_block errno then Inr \<lparr>status = Incomplete, message = []\<rparr>
                       else Inl (system_error errno ''Failed to read message header''), r', es')
             | Filled \<Rightarrow> read_size_and_payload r' es')"

section \<open>Writing without blocking\<close>

record message_writer =
  w_header :: string
  w_header_bytes :: nat
  w_payload :: string
  w_payload_bytes :: nat
  w_pending :: bool

definition writer_new :: message_writer where
  "writer_new = \<lparr>w_header = replicate 4 nul, w_header_bytes = 0, w_payload = [], w_payload_bytes = 0,
                 w_pending = False\<rparr>"

definition writer_reset :: "message_writer \<Rightarrow> message_writer" where
  "writer_reset w =
     w\<lparr>w_header := replicate 4 nul, w_header_bytes := 0, w_payload := [], w_payload_bytes := 0,
       w_pending := False\<rparr>"

definition has_pending_message :: "message_writer \<Rightarrow> bool" where
  "has_pending_message w = w_pending w"

text \<open>The four bytes that \<open>memcpy\<close> takes from the converted size.\<close>

definition frame_header :: "nat \<Rightarrow> string" where
  "frame_header n = store_u32 (htonl (word_of_nat n))"

definition queue :: "message_writer \<Rightarrow> string \<Rightarrow> (io_error + unit) \<times> message_writer" where
  "queue w msg =
     (if w_pending w then
        (Inl \<lparr>err_kind = Invalid_Frame, err_cause = 0,
              err_context = ''Cannot queue a message while another message is pending''\<rparr>, w)
      else if MAX_MESSAGE_SIZE < length msg then
        (Inl (message_too_large ''Outgoing message exceeds maximum size''), w)
      else (Inr (), w\<lparr>w_header := frame_header (length msg), w_payload := msg, w_pending := True\<rparr>))"

type_synonym write_outcome =
  "(io_error + bool) \<times> message_writer \<times> send_event list \<times> string"

definition write_stopped :: "string \<Rightarrow> loop_end \<Rightarrow> io_error + bool" where
  "write_stopped context ending =
     (case ending of
        No_Bytes \<Rightarrow> Inl (broken_pipe context)
      | Io_Failed errno \<Rightarrow>
          if would_block errno then Inr False else Inl (system_error errno context)
      | Filled \<Rightarrow> Inr True)"

definition write_payload ::
  "message_writer \<Rightarrow> send_event list \<Rightarrow> string \<Rightarrow> write_outcome option" where
  "write_payload w es out =
     (case send_loop (w_payload w) (w_payload_bytes w) es out of
        None \<Rightarrow> None
      | Some (ending, sent, es', out') \<Rightarrow>
          let w' = w\<lparr>w_payload_bytes := sent\<rparr>
          in Some (write_stopped ''Failed to write message payload'' ending,
                   if ending = Filled then writer_reset w' else w', es', out'))"

definition write_to ::
  "message_writer \<Rightarrow> send_event list \<Rightarrow> string \<Rightarrow> write_outcome option" where
  "write_to w es out =
     (if \<not> w_pending w then Some (Inr True, w, es, out)
      else case send_loop (w_header w) (w_header_bytes w) es out of
        None \<Rightarrow> None
      | Some (ending, sent, es', out') \<Rightarrow>
          let w' = w\<lparr>w_header_bytes := sent\<rparr>
          in if ending = Filled then write_payload w' es' out'
             else Some (write_stopped ''Failed to write message header'' ending, w', es', out'))"

section \<open>The blocking operations of the client\<close>

definition read_exact ::
  "string \<Rightarrow> string \<Rightarrow> recv_event list \<Rightarrow> ((io_error + bool) \<times> string \<times> recv_event list) option" where
  "read_exact destination context es =
     (case recv_loop destination 0 es of
        None \<Rightarrow> None
      | Some (ending, buf, got, es') \<Rightarrow>
          Some (case ending of
              No_Bytes \<Rightarrow> (if got = 0 then Inr False else Inl (unexpected_eof context), buf, es')
            | Io_Failed errno \<Rightarrow> (Inl (system_error errno context), buf, es')
            | Filled \<Rightarrow> (Inr True, buf, es')))"

definition write_all ::
  "string \<Rightarrow> string \<Rightarrow> send_event list \<Rightarrow> string
    \<Rightarrow> ((io_error + unit) \<times> send_event list \<times> string) option" where
  "write_all source context es out =
     (case send_loop source 0 es out of
        None \<Rightarrow> None
      | Some (ending, sent, es', out') \<Rightarrow>
          Some (case ending of
              No_Bytes \<Rightarrow> (Inl (broken_pipe context), es', out')
            | Io_Failed errno \<Rightarrow> (Inl (system_error errno context), es', out')
            | Filled \<Rightarrow> (Inr (), es', out')))"

definition read_message ::
  "recv_event list \<Rightarrow> ((io_error + string option) \<times> recv_event list) option" where
  "read_message es =
     (case read_exact (replicate 4 nul) ''Failed to read message header'' es of
        None \<Rightarrow> None
      | Some (Inl e, _, es') \<Rightarrow> Some (Inl e, es')
      | Some (Inr False, _, es') \<Rightarrow> Some (Inr None, es')
      | Some (Inr True, header, es') \<Rightarrow>
          let payload_size = unat (ntohl (load_u32 header))
          in if MAX_MESSAGE_SIZE < payload_size then
               Some (Inl (message_too_large ''Incoming message exceeds maximum size''), es')
             else if payload_size \<noteq> 0 then
               (case read_exact (replicate payload_size nul) ''Failed to read message payload'' es' of
                  None \<Rightarrow> None
                | Some (Inl e, _, es'') \<Rightarrow> Some (Inl e, es'')
                | Some (Inr False, _, es'') \<Rightarrow>
                    Some (Inl (unexpected_eof ''Peer closed before sending the message payload''), es'')
                | Some (Inr True, payload, es'') \<Rightarrow> Some (Inr (Some payload), es''))
             else Some (Inr (Some []), es'))"

definition write_message ::
  "string \<Rightarrow> send_event list \<Rightarrow> string \<Rightarrow> ((io_error + unit) \<times> send_event list \<times> string) option" where
  "write_message msg es out =
     (if MAX_MESSAGE_SIZE < length msg then
        Some (Inl (message_too_large ''Outgoing message exceeds maximum size''), es, out)
      else case write_all (frame_header (length msg)) ''Failed to write message header'' es out of
        None \<Rightarrow> None
      | Some (Inl e, es', out') \<Rightarrow> Some (Inl e, es', out')
      | Some (Inr _, es', out') \<Rightarrow> write_all msg ''Failed to write message payload'' es' out')"

section \<open>Frames\<close>

definition frame :: "string \<Rightarrow> string" where
  "frame msg = frame_header (length msg) @ msg"

definition header_size :: "string \<Rightarrow> nat" where
  "header_size header = unat (ntohl (load_u32 header))"

lemma length_frame_header [simp]: "length (frame_header n) = 4"
  by (simp add: frame_header_def)

lemma length_frame [simp]: "length (frame msg) = 4 + length msg"
  by (simp add: frame_def)

lemma frame_not_Nil [simp]: "frame msg \<noteq> []"
  using length_frame [of msg] by (cases "frame msg") simp_all

lemma header_size_frame_header: "n \<le> MAX_MESSAGE_SIZE \<Longrightarrow> header_size (frame_header n) = n"
  by (simp add: header_size_def frame_header_def MAX_MESSAGE_SIZE_def unat_word_of_nat_u32)

lemma frame_header_size: "length header = 4 \<Longrightarrow> frame_header (header_size header) = header"
  by (simp add: header_size_def frame_header_def store_load_u32)

text \<open>Network byte order: the most significant byte first.\<close>

lemma frame_header_big_endian:
  assumes "n \<le> MAX_MESSAGE_SIZE"
  shows "frame_header n = [char_of (n div 16777216), char_of (n div 65536), char_of (n div 256), char_of n]"
  using assms unfolding frame_header_def store_htonl
  by (simp add: store_u32_def unat_word_of_nat_u32 MAX_MESSAGE_SIZE_def)

lemma frame_inject:
  assumes "frame a @ xs = frame b @ ys" and "length a \<le> MAX_MESSAGE_SIZE" and "length b \<le> MAX_MESSAGE_SIZE"
  shows "a = b \<and> xs = ys"
proof -
  have "frame_header (length a) = frame_header (length b)"
    using assms(1) by (simp add: frame_def)
  then have "length a = length b"
    using header_size_frame_header assms(2,3) by metis
  then show ?thesis using assms(1) by (simp add: frame_def)
qed

section \<open>What a script delivers\<close>

text \<open>
  The bytes of a script up to the first outcome that ends a loop, this outcome, and the rest of the
  script behind it.
\<close>

datatype stream_end = Exhausted | Stops loop_end

fun stream :: "recv_event list \<Rightarrow> string \<times> stream_end \<times> recv_event list" where
  "stream [] = ([], Exhausted, [])"
| "stream (Received bs # es) =
     (if bs = [] then ([], Stops No_Bytes, es) else (let (xs, s, es') = stream es in (bs @ xs, s, es')))"
| "stream (Recv_Failed e # es) = (if e = EINTR then stream es else ([], Stops (Io_Failed e), es))"

lemma take_append_add: "n \<le> length xs \<Longrightarrow> take n (xs @ ys) = take n xs"
  by simp

lemma write_at_append:
  assumes "got + length bs \<le> length buf"
  shows "take (got + length bs) (write_at got bs buf) = take got buf @ bs"
    and "drop (got + length bs) (write_at got bs buf) = drop (got + length bs) buf"
  using assms by (simp_all add: write_at_def)

lemma recv_loop_full: "length buf \<le> got \<Longrightarrow> recv_loop buf got es = Some (Filled, buf, got, es)"
  by (simp add: recv_loop.simps)

text \<open>What the loop does, in terms of the stream alone.\<close>

lemma recv_loop_stream:
  assumes "got \<le> length buf" and "stream es = (bs, s, rest)"
  shows "if length buf - got \<le> length bs
    then \<exists>es'. recv_loop buf got es
           = Some (Filled, take got buf @ take (length buf - got) bs, length buf, es')
         \<and> stream es' = (drop (length buf - got) bs, s, rest)
    else recv_loop buf got es = (case s of
           Exhausted \<Rightarrow> None
         | Stops l \<Rightarrow> Some (l, write_at got bs buf, got + length bs, rest))"
  using assms
proof (induction es arbitrary: buf got bs)
  case Nil
  then show ?case by (simp add: recv_loop.simps)
next
  case (Cons ev es)
  show ?case
  proof (cases "got < length buf")
    case False
    then show ?thesis using Cons.prems by (simp add: recv_loop_full)
  next
    case lt: True
    show ?thesis
    proof (cases ev)
      case (Recv_Failed e)
      then show ?thesis
        using Cons.IH [of got buf bs] Cons.prems lt
        by (auto simp: recv_loop.simps [of buf got "Recv_Failed e # es"] write_at_def split: if_splits)
    next
      case (Received c)
      show ?thesis
      proof (cases "c = []")
        case True
        have "recv_loop buf got (Received [] # es) = Some (No_Bytes, buf, got, es)"
          using lt by (simp add: recv_loop.simps [of buf got "Received [] # es"])
        then show ?thesis using Cons.prems lt Received True by (auto simp: write_at_def)
      next
        case False
        then obtain xs where xs: "stream es = (xs, s, rest)" "bs = c @ xs"
          using Cons.prems(2) Received by (auto split: prod.splits)
        show ?thesis
        proof (cases "length c \<le> length buf - got")
          case True
          let ?buf = "write_at got c buf"
          have len: "length ?buf = length buf" using True lt by (intro length_write_at) simp
          have tk: "take (got + length c) ?buf = take got buf @ c"
            using True lt by (intro write_at_append) simp
          have wr: "write_at (got + length c) xs ?buf = write_at got (c @ xs) buf"
            using True lt write_at_append [of got c buf] by (simp add: write_at_def ac_simps)
          have step: "recv_loop buf got (ev # es) = recv_loop ?buf (got + length c) es"
            using True lt False Received by (simp add: recv_loop.simps [of buf got "Received c # es"])
          have le: "got + length c \<le> length ?buf" using True lt len by simp
          have ih: "if length buf - (got + length c) \<le> length xs
            then \<exists>es'. recv_loop buf got (ev # es)
                   = Some (Filled, (take got buf @ c) @ take (length buf - (got + length c)) xs,
                           length buf, es')
                 \<and> stream es' = (drop (length buf - (got + length c)) xs, s, rest)
            else recv_loop buf got (ev # es) = (case s of
                   Exhausted \<Rightarrow> None
                 | Stops l \<Rightarrow> Some (l, write_at got (c @ xs) buf, got + length c + length xs, rest))"
            using Cons.IH [OF le xs(1)] unfolding step len tk wr .
          have e: "length bs = length c + length xs"
            "length buf - got \<le> length c + length xs \<longleftrightarrow> length buf - (got + length c) \<le> length xs"
            "take (length buf - got) bs = c @ take (length buf - (got + length c)) xs"
            "drop (length buf - got) bs = drop (length buf - (got + length c)) xs"
            using xs(2) True by auto
          show ?thesis
            using ih unfolding e xs(2) [symmetric] append_assoc add.assoc .
        next
          case big: False
          let ?n = "length buf - got"
          have "recv_loop buf got (ev # es)
              = recv_loop (write_at got (take ?n c) buf) (got + ?n) (Received (drop ?n c) # es)"
            using big lt False Received by (simp add: recv_loop.simps [of buf got "Received c # es"])
          also have "\<dots> = Some (Filled, write_at got (take ?n c) buf, length buf,
              Received (drop ?n c) # es)"
            using big lt by (simp add: recv_loop_full length_write_at)
          also have "write_at got (take ?n c) buf = take got buf @ take ?n c"
            using big lt by (simp add: write_at_def)
          finally show ?thesis using big xs False lt by simp
        qed
      qed
    qed
  qed
qed

section \<open>What a call of \<open>read_from\<close> returns\<close>

definition reader_inv :: "message_reader \<Rightarrow> bool" where
  "reader_inv r \<longleftrightarrow> length (r_header r) = 4
     \<and> (if r_payload r = [] then r_payload_bytes r = 0 \<and> r_header_bytes r < 4
        else r_header_bytes r = 4 \<and> length (r_payload r) = header_size (r_header r)
          \<and> length (r_payload r) \<le> MAX_MESSAGE_SIZE \<and> r_payload_bytes r < length (r_payload r))"

text \<open>The bytes of the current frame that have arrived.\<close>

definition progress :: "message_reader \<Rightarrow> string" where
  "progress r = take (r_header_bytes r) (r_header r) @ take (r_payload_bytes r) (r_payload r)"

datatype parsed = Partial | Too_Large | Whole string string

definition parse_frame :: "string \<Rightarrow> parsed" where
  "parse_frame p =
     (if length p < 4 then Partial
      else let n = header_size (take 4 p)
      in if MAX_MESSAGE_SIZE < n then Too_Large
         else if length (drop 4 p) < n then Partial
         else Whole (take n (drop 4 p)) (drop n (drop 4 p)))"

text \<open>The outcome when the bytes \<open>p\<close> of the frame have arrived, not all of it, and the stream ends.\<close>

definition read_stopped ::
  "string \<Rightarrow> stream_end \<Rightarrow> recv_event list \<Rightarrow> read_outcome option \<Rightarrow> bool" where
  "read_stopped p s rest res \<longleftrightarrow>
     (case s of
        Exhausted \<Rightarrow> res = None
      | Stops Filled \<Rightarrow> False
      | Stops No_Bytes \<Rightarrow>
          (\<exists>r'. res = Some
             (if p = [] then Inr \<lparr>status = Closed, message = []\<rparr>
              else Inl (unexpected_eof
                (if length p < 4 then ''Failed to read message header''
                 else ''Peer closed before sending the message payload'')), r', rest))
      | Stops (Io_Failed errno) \<Rightarrow>
          (if would_block errno then
             \<exists>r'. res = Some (Inr \<lparr>status = Incomplete, message = []\<rparr>, r', rest)
               \<and> reader_inv r' \<and> progress r' = p
           else \<exists>r'. res = Some (Inl (system_error errno
                (if length p < 4 then ''Failed to read message header''
                 else ''Failed to read message payload'')), r', rest)))"

definition read_complete ::
  "string \<Rightarrow> string \<Rightarrow> stream_end \<Rightarrow> recv_event list \<Rightarrow> read_outcome option \<Rightarrow> bool" where
  "read_complete msg bs s rest res \<longleftrightarrow>
     (\<exists>es'. res = Some (Inr \<lparr>status = Complete, message = msg\<rparr>, reader_new, es')
        \<and> stream es' = (bs, s, rest))"

lemma stream_not_filled: "stream es = (bs, s, rest) \<Longrightarrow> s \<noteq> Stops Filled"
  by (induction es arbitrary: bs rule: stream.induct) (auto split: if_splits prod.splits)

lemma reader_reset_new [simp]: "reader_reset r = reader_new"
  by (simp add: reader_reset_def reader_new_def)

lemma reader_inv_new [simp]: "reader_inv reader_new" "progress reader_new = []"
  by (simp_all add: reader_inv_def reader_new_def progress_def)

lemma header_size_bound: "header_size h < 4294967296"
  by (simp add: header_size_def unat_u32_bound)

lemma read_payload_stream:
  assumes hdr: "length (r_header r) = 4" "r_header_bytes r = 4"
    and len: "length (r_payload r) = header_size (r_header r)" "length (r_payload r) \<le> MAX_MESSAGE_SIZE"
    and got: "r_payload_bytes r < length (r_payload r)"
    and st: "stream es = (bs, s, rest)"
  shows "if length (r_payload r) - r_payload_bytes r \<le> length bs
    then read_complete
      (take (r_payload_bytes r) (r_payload r) @ take (length (r_payload r) - r_payload_bytes r) bs)
      (drop (length (r_payload r) - r_payload_bytes r) bs) s rest (read_payload r es)
    else read_stopped (progress r @ bs) s rest (read_payload r es)"
proof (cases "length (r_payload r) - r_payload_bytes r \<le> length bs")
  case True
  then show ?thesis
    using recv_loop_stream [OF less_imp_le [OF got] st] by (auto simp: read_payload_def read_complete_def)
next
  case False
  let ?buf = "write_at (r_payload_bytes r) bs (r_payload r)"
  have w: "recv_loop (r_payload r) (r_payload_bytes r) es = (case s of
      Exhausted \<Rightarrow> None | Stops l \<Rightarrow> Some (l, ?buf, r_payload_bytes r + length bs, rest))"
    using recv_loop_stream [OF less_imp_le [OF got] st] False by simp
  have fits: "r_payload_bytes r + length bs < length (r_payload r)" using False by simp
  define r' where "r' = r\<lparr>r_payload := ?buf, r_payload_bytes := r_payload_bytes r + length bs\<rparr>"
  have lb: "length ?buf = length (r_payload r)" using fits by (intro length_write_at) simp
  have ne: "?buf \<noteq> []" using lb fits by auto
  have "reader_inv r'"
    using hdr len lb fits ne by (simp add: r'_def reader_inv_def)
  moreover have "progress r' = progress r @ bs"
    using write_at_append(1) [of "r_payload_bytes r" bs "r_payload r"] fits
    by (simp add: r'_def progress_def)
  moreover have "\<not> length (progress r @ bs) < 4" "progress r @ bs \<noteq> []"
    using hdr by (auto simp: progress_def)
  ultimately show ?thesis
    using False w stream_not_filled [OF st]
    by (cases s; cases "case s of Stops l \<Rightarrow> l | Exhausted \<Rightarrow> Filled")
       (auto simp: read_stopped_def read_payload_def r'_def)
qed

definition read_spec ::
  "string \<Rightarrow> stream_end \<Rightarrow> recv_event list \<Rightarrow> read_outcome option \<Rightarrow> bool" where
  "read_spec p s rest res \<longleftrightarrow>
     (case parse_frame p of
        Partial \<Rightarrow> read_stopped p s rest res
      | Too_Large \<Rightarrow>
          (\<exists>r' es'. res = Some (Inl (message_too_large ''Incoming message exceeds maximum size''), r', es'))
      | Whole msg bs \<Rightarrow> read_complete msg bs s rest res)"

lemma parse_frame_append:
  assumes "length h = 4"
  shows "parse_frame (h @ q) =
    (if MAX_MESSAGE_SIZE < header_size h then Too_Large
     else if length q < header_size h then Partial
     else Whole (take (header_size h) q) (drop (header_size h) q))"
  using assms by (simp add: parse_frame_def Let_def)

text \<open>The part of \<open>read_from\<close> behind the first loop, for a payload that has not been started.\<close>

lemma read_size_stream:
  assumes hdr: "length (r_header r) = 4" "r_header_bytes r = 4"
    and fresh: "r_payload r = []" "r_payload_bytes r = 0"
    and st: "stream es = (bs, s, rest)"
  shows "read_spec (r_header r @ bs) s rest (read_size_and_payload r es)"
proof -
  let ?n = "header_size (r_header r)"
  note p = parse_frame_append [OF hdr(1), of bs]
  have n: "unat (ntohl (load_u32 (r_header r))) = ?n" by (simp add: header_size_def)
  consider (large) "MAX_MESSAGE_SIZE < ?n" | (zero) "?n = 0" | (body) "0 < ?n" "?n \<le> MAX_MESSAGE_SIZE"
    by linarith
  then show ?thesis
  proof cases
    case large
    then show ?thesis using p n fresh by (simp add: read_spec_def read_size_and_payload_def Let_def)
  next
    case zero
    then show ?thesis using p n fresh st
      by (simp add: read_spec_def read_size_and_payload_def read_complete_def Let_def)
  next
    case body
    define r2 where "r2 = r\<lparr>r_payload := replicate ?n nul\<rparr>"
    have e: "read_size_and_payload r es = read_payload r2 es"
      using body n fresh by (simp add: read_size_and_payload_def r2_def Let_def)
    have r2: "length (r_header r2) = 4" "r_header_bytes r2 = 4"
      "length (r_payload r2) = header_size (r_header r2)" "length (r_payload r2) \<le> MAX_MESSAGE_SIZE"
      "r_payload_bytes r2 < length (r_payload r2)"
      using hdr fresh body by (simp_all add: r2_def)
    have "progress r2 = r_header r" using hdr fresh by (simp add: progress_def r2_def)
    with read_payload_stream [OF r2 st] show ?thesis
      using body fresh p unfolding read_spec_def e by (auto simp: r2_def)
  qed
qed

lemma read_from_stream:
  assumes inv: "reader_inv r" and st: "stream es = (bs, s, rest)"
  shows "read_spec (progress r @ bs) s rest (read_from r es)"
proof (cases "r_payload r = []")
  case False
  then have r: "length (r_header r) = 4" "r_header_bytes r = 4"
    "length (r_payload r) = header_size (r_header r)" "length (r_payload r) \<le> MAX_MESSAGE_SIZE"
    "r_payload_bytes r < length (r_payload r)"
    using inv by (auto simp: reader_inv_def)
  have same: "r\<lparr>r_header_bytes := 4\<rparr> = r" using r(2) by (cases r) simp
  then have e: "read_from r es = read_payload r es"
    using r False by (simp add: read_from_def recv_loop_full read_size_and_payload_def same)
  have "progress r @ bs = r_header r @ take (r_payload_bytes r) (r_payload r) @ bs"
    using r by (simp add: progress_def)
  then show ?thesis
    using read_payload_stream [OF r st] r
    by (cases "length (r_payload r) - r_payload_bytes r \<le> length bs")
       (auto simp: read_spec_def e parse_frame_append min_absorb2)
next
  case True
  with inv have r: "length (r_header r) = 4" "r_payload_bytes r = 0" "r_header_bytes r < 4"
    by (auto simp: reader_inv_def)
  have le: "r_header_bytes r \<le> length (r_header r)" using r by simp
  have p: "progress r = take (r_header_bytes r) (r_header r)" using r by (simp add: progress_def)
  show ?thesis
  proof (cases "4 - r_header_bytes r \<le> length bs")
    case filled: True
    let ?k = "4 - r_header_bytes r"
    let ?h = "progress r @ take ?k bs"
    obtain es1 where l: "recv_loop (r_header r) (r_header_bytes r) es = Some (Filled, ?h, 4, es1)"
      "stream es1 = (drop ?k bs, s, rest)"
      using recv_loop_stream [OF le st] filled r(1) p by auto
    define r1 where "r1 = r\<lparr>r_header := ?h, r_header_bytes := 4\<rparr>"
    have "read_from r es = read_size_and_payload r1 es1"
      using l by (simp add: read_from_def r1_def)
    moreover have "read_spec (r_header r1 @ drop ?k bs) s rest (read_size_and_payload r1 es1)"
      using filled r True p l(2) by (intro read_size_stream) (simp_all add: r1_def)
    ultimately show ?thesis by (simp add: r1_def)
  next
    case False
    let ?buf = "write_at (r_header_bytes r) bs (r_header r)"
    have w: "recv_loop (r_header r) (r_header_bytes r) es = (case s of
        Exhausted \<Rightarrow> None | Stops l \<Rightarrow> Some (l, ?buf, r_header_bytes r + length bs, rest))"
      using recv_loop_stream [OF le st] False r(1) by simp
    have fits: "r_header_bytes r + length bs < 4" using False by simp
    define r' where "r' = r\<lparr>r_header := ?buf, r_header_bytes := r_header_bytes r + length bs\<rparr>"
    have "length ?buf = 4" using fits r(1) length_write_at [of "r_header_bytes r" bs "r_header r"] by simp
    then have "reader_inv r'" using fits True r by (simp add: r'_def reader_inv_def)
    moreover have "progress r' = progress r @ bs"
      using write_at_append(1) [of "r_header_bytes r" bs "r_header r"] fits r
      by (simp add: r'_def progress_def)
    moreover have short: "length (progress r @ bs) < 4" using fits r by (simp add: p)
    moreover have "progress r @ bs = [] \<longleftrightarrow> r_header_bytes r + length bs = 0" using r by (auto simp: p)
    moreover have "parse_frame (progress r @ bs) = Partial" using short by (simp add: parse_frame_def)
    ultimately show ?thesis
      using w stream_not_filled [OF st] unfolding read_spec_def
      by (cases s; cases "case s of Stops l \<Rightarrow> l | Exhausted \<Rightarrow> Filled")
         (auto simp: read_stopped_def read_from_def r'_def)
  qed
qed

section \<open>Sequences of calls of \<open>read_from\<close>\<close>

text \<open>A client that calls \<open>read_from\<close> up to \<open>n\<close> times and collects the messages.\<close>

fun read_polls :: "nat \<Rightarrow> message_reader \<Rightarrow> recv_event list \<Rightarrow> string list" where
  "read_polls 0 r es = []"
| "read_polls (Suc n) r es =
     (case read_from r es of
        Some (Inr res, r', es') \<Rightarrow>
          (case status res of
             Complete \<Rightarrow> message res # read_polls n r' es'
           | Incomplete \<Rightarrow> read_polls n r' es'
           | Closed \<Rightarrow> [])
      | _ \<Rightarrow> [])"

text \<open>
  All bytes that a script delivers; how often it ends a loop; and whether it only ever delays:
  interruptions and a socket that is not ready, but no shutdown and no other error.
\<close>

fun delivered :: "recv_event list \<Rightarrow> string" where
  "delivered [] = []"
| "delivered (Received bs # es) = bs @ delivered es"
| "delivered (Recv_Failed e # es) = delivered es"

fun pauses :: "recv_event list \<Rightarrow> nat" where
  "pauses [] = 0"
| "pauses (Received bs # es) = (if bs = [] then 1 else 0) + pauses es"
| "pauses (Recv_Failed e # es) = (if e = EINTR then 0 else 1) + pauses es"

fun only_delays :: "recv_event list \<Rightarrow> bool" where
  "only_delays [] \<longleftrightarrow> True"
| "only_delays (Received bs # es) \<longleftrightarrow> bs \<noteq> [] \<and> only_delays es"
| "only_delays (Recv_Failed e # es) \<longleftrightarrow> (e = EINTR \<or> would_block e) \<and> only_delays es"

lemma stream_delivered:
  assumes "stream es = (bs, s, rest)"
  shows "delivered es = bs @ delivered rest"
    and "pauses es = (case s of Exhausted \<Rightarrow> 0 | Stops _ \<Rightarrow> Suc (pauses rest))"
    and "only_delays es \<longleftrightarrow>
      (case s of Stops (Io_Failed e) \<Rightarrow> would_block e \<and> only_delays rest | Exhausted \<Rightarrow> True | _ \<Rightarrow> False)"
    and "s = Exhausted \<Longrightarrow> rest = []"
  using assms by (induction es arbitrary: bs rule: stream.induct) (auto split: if_splits prod.splits)

lemma parse_frame_Whole:
  assumes "parse_frame p = Whole msg rest"
  shows "p = frame msg @ rest" and "length msg \<le> MAX_MESSAGE_SIZE"
proof -
  let ?n = "header_size (take 4 p)"
  have p: "4 \<le> length p" "?n \<le> MAX_MESSAGE_SIZE" "?n \<le> length (drop 4 p)"
    "msg = take ?n (drop 4 p)" "rest = drop ?n (drop 4 p)"
    using assms by (auto simp: parse_frame_def Let_def split: if_splits)
  then have len: "length msg = ?n" by simp
  have "frame msg = take 4 p @ msg"
    unfolding frame_def len using p(1) by (simp add: frame_header_size)
  then show "p = frame msg @ rest"
    unfolding p(4,5) by (metis append.assoc append_take_drop_id)
  show "length msg \<le> MAX_MESSAGE_SIZE" using len p(2) by simp
qed

lemma parse_frame_frame:
  "length msg \<le> MAX_MESSAGE_SIZE \<Longrightarrow> parse_frame (frame msg @ rest) = Whole msg rest"
  unfolding frame_def append_assoc
  by (subst parse_frame_append) (simp_all add: header_size_frame_header)

text \<open>A prefix of a stream of frames is a prefix of a frame, or begins with a whole one.\<close>

lemma parse_frame_prefix:
  assumes "p @ q = concat (map frame msgs) @ tail"
    and "\<forall>msg \<in> set msgs. length msg \<le> MAX_MESSAGE_SIZE" and "parse_frame tail = Partial"
  shows "parse_frame p = Partial
    \<or> (\<exists>msg msgs' p'. msgs = msg # msgs' \<and> parse_frame p = Whole msg p'
         \<and> p' @ q = concat (map frame msgs') @ tail)"
proof (cases msgs)
  case Nil
  then have t: "p @ q = tail" using assms(1) by simp
  have "parse_frame p = Partial"
  proof (cases "parse_frame p")
    case Too_Large
    then have "parse_frame (p @ q) = Too_Large" by (auto simp: parse_frame_def Let_def split: if_splits)
    then show ?thesis using assms(3) t by simp
  next
    case (Whole m r)
    then have "parse_frame (p @ q) = Whole m (r @ q)"
      using parse_frame_Whole [OF Whole] parse_frame_frame [of m "r @ q"] by simp
    then show ?thesis using assms(3) t by simp
  qed simp
  then show ?thesis ..
next
  case (Cons msg msgs')
  then have eq: "p @ q = frame msg @ concat (map frame msgs') @ tail" and le: "length msg \<le> MAX_MESSAGE_SIZE"
    using assms(1,2) by simp_all
  show ?thesis
  proof (cases "length (frame msg) \<le> length p")
    case True
    then obtain p' where p': "p = frame msg @ p'"
      using eq by (metis append_eq_append_conv_if append_take_drop_id)
    then show ?thesis using Cons eq parse_frame_frame [OF le, of p'] by auto
  next
    case False
    have "parse_frame p = Partial"
    proof (cases "length p < 4")
      case True
      then show ?thesis by (simp add: parse_frame_def)
    next
      case long: False
      have pre: "take 4 p = frame_header (length msg)"
        using arg_cong [OF eq, of "take 4"] long by (simp add: frame_def)
      show ?thesis
        using long False le pre by (simp add: parse_frame_def Let_def header_size_frame_header)
    qed
    then show ?thesis ..
  qed
qed

lemma read_polls_ok:
  assumes "reader_inv r" and "only_delays es"
    and "progress r @ delivered es = concat (map frame msgs) @ tail"
    and "\<forall>msg \<in> set msgs. length msg \<le> MAX_MESSAGE_SIZE" and "parse_frame tail = Partial"
    and "pauses es + length msgs \<le> n"
  shows "read_polls n r es = msgs"
  using assms
proof (induction n arbitrary: r es msgs)
  case 0
  then show ?case by simp
next
  case (Suc n)
  obtain bs s rest where st: "stream es = (bs, s, rest)" by (metis prod_cases3)
  note d = stream_delivered [OF st]
  have eq: "(progress r @ bs) @ delivered rest = concat (map frame msgs) @ tail"
    using Suc.prems(3) d(1) by simp
  from parse_frame_prefix [OF eq Suc.prems(4,5)] read_from_stream [OF Suc.prems(1) st]
  consider (partial) "parse_frame (progress r @ bs) = Partial"
      "read_stopped (progress r @ bs) s rest (read_from r es)"
    | (whole) msg msgs' p' where "msgs = msg # msgs'" "parse_frame (progress r @ bs) = Whole msg p'"
      "p' @ delivered rest = concat (map frame msgs') @ tail"
      "read_complete msg p' s rest (read_from r es)"
    by (auto simp: read_spec_def)
  then show ?case
  proof cases
    case partial
    show ?thesis
    proof (cases s)
      case Exhausted
      then have "delivered rest = []" and "read_from r es = None"
        using d(4) partial(2) by (simp_all add: read_stopped_def)
      moreover have "msgs = []"
      proof (rule ccontr)
        assume "msgs \<noteq> []"
        then obtain m ms where "msgs = m # ms" by (cases msgs) auto
        then have "parse_frame (progress r @ bs) = Whole m (concat (map frame ms) @ tail)"
          using eq \<open>delivered rest = []\<close> parse_frame_frame [of m] Suc.prems(4) by simp
        then show False using partial(1) by simp
      qed
      ultimately show ?thesis by simp
    next
      case (Stops l)
      then obtain e where e: "l = Io_Failed e" "would_block e" "only_delays rest"
        using Suc.prems(2) d(3) by (auto split: loop_end.splits)
      then obtain r' where r': "read_from r es = Some (Inr \<lparr>status = Incomplete, message = []\<rparr>, r', rest)"
        "reader_inv r'" "progress r' = progress r @ bs"
        using partial(2) Stops by (auto simp: read_stopped_def)
      have "read_polls n r' rest = msgs"
        using Suc.IH [OF r'(2) e(3) _ Suc.prems(4,5)] eq r'(3) Suc.prems(6) d(2) Stops by simp
      then show ?thesis using r'(1) by simp
    qed
  next
    case whole
    then obtain es' where es': "read_from r es = Some (Inr \<lparr>status = Complete, message = msg\<rparr>, reader_new, es')"
      "stream es' = (p', s, rest)" by (auto simp: read_complete_def)
    note d' = stream_delivered [OF es'(2)]
    have "read_polls n reader_new es' = msgs'"
    proof (rule Suc.IH [OF reader_inv_new(1) _ _ _ Suc.prems(5)])
      show "only_delays es'" using Suc.prems(2) d(3) d'(3) by simp
      show "progress reader_new @ delivered es' = concat (map frame msgs') @ tail"
        using whole(3) d'(1) by simp
      show "\<forall>msg \<in> set msgs'. length msg \<le> MAX_MESSAGE_SIZE" using Suc.prems(4) whole(1) by simp
      show "pauses es' + length msgs' \<le> n" using Suc.prems(6) d(2) d'(2) whole(1) by simp
    qed
    then show ?thesis using es'(1) whole(1) by simp
  qed
qed

section \<open>What a call of \<open>write_to\<close> sends\<close>

lemma send_loop_ok:
  assumes "send_loop buf sent es out = Some (ending, sent', es', out')" and "sent \<le> length buf"
  shows "sent \<le> sent'" and "sent' \<le> length buf"
    and "out' = out @ take (sent' - sent) (drop sent buf)"
    and "ending = Filled \<longleftrightarrow> sent' = length buf" and "length es' \<le> length es"
    and "ending \<noteq> Io_Failed EINTR"
proof -
  have "sent \<le> sent' \<and> sent' \<le> length buf \<and> out' = out @ take (sent' - sent) (drop sent buf)
      \<and> (ending = Filled \<longleftrightarrow> sent' = length buf) \<and> length es' \<le> length es \<and> ending \<noteq> Io_Failed EINTR"
    using assms
  proof (induction buf sent es out rule: send_loop.induct)
    case (1 buf sent es out)
    show ?case
    proof (cases "sent < length buf")
      case False
      then show ?thesis using "1.prems" by (simp add: send_loop.simps)
    next
      case lt: True
      then obtain r es1 where s: "send (drop sent buf) es = Some (r, es1)"
        using "1.prems"(1) by (auto simp: send_loop.simps [of buf sent es] split: option.splits)
      note sh = send_shorter [OF s]
      show ?thesis
      proof (cases r)
        case (Inl e)
        show ?thesis
        proof (cases "e = EINTR")
          case True
          have "send_loop buf sent es1 out = Some (ending, sent', es', out')"
            using "1.prems"(1) lt s Inl True by (simp add: send_loop.simps [of buf sent es])
          from "1.IH"(1) [OF lt s refl Inl True this] show ?thesis using "1.prems"(2) sh by simp
        next
          case False
          then show ?thesis using "1.prems" lt s Inl sh by (auto simp: send_loop.simps [of buf sent es])
        qed
      next
        case (Inr n)
        have n: "n \<le> length buf - sent" using send_length [of "drop sent buf" es n es1] s Inr by simp
        show ?thesis
        proof (cases "n = 0")
          case True
          then show ?thesis using "1.prems" lt s Inr sh by (auto simp: send_loop.simps [of buf sent es])
        next
          case False
          have "send_loop buf (sent + n) es1 (out @ take n (drop sent buf)) = Some (ending, sent', es', out')"
            using "1.prems"(1) lt s Inr False by (simp add: send_loop.simps [of buf sent es])
          from "1.IH"(2) [OF lt s refl Inr False this] n lt
          have ih: "sent + n \<le> sent'" "sent' \<le> length buf"
            "out' = (out @ take n (drop sent buf)) @ take (sent' - (sent + n)) (drop (sent + n) buf)"
            "ending = Filled \<longleftrightarrow> sent' = length buf" "length es' \<le> length es1" "ending \<noteq> Io_Failed EINTR"
            by auto
          have "take n (drop sent buf) @ take (sent' - (sent + n)) (drop (sent + n) buf)
              = take (n + (sent' - (sent + n))) (drop sent buf)"
            by (simp add: take_add add.commute)
          also have "n + (sent' - (sent + n)) = sent' - sent" using ih(1) by simp
          finally show ?thesis using ih sh by simp
        qed
      qed
    qed
  qed
  then show "sent \<le> sent'" and "sent' \<le> length buf"
    and "out' = out @ take (sent' - sent) (drop sent buf)"
    and "ending = Filled \<longleftrightarrow> sent' = length buf" and "length es' \<le> length es"
    and "ending \<noteq> Io_Failed EINTR"
    by simp_all
qed

definition writer_inv :: "message_writer \<Rightarrow> bool" where
  "writer_inv w \<longleftrightarrow>
     (if w_pending w then
        w_header w = frame_header (length (w_payload w)) \<and> length (w_payload w) \<le> MAX_MESSAGE_SIZE
        \<and> w_header_bytes w \<le> 4 \<and> w_payload_bytes w \<le> length (w_payload w)
        \<and> (w_header_bytes w < 4 \<longrightarrow> w_payload_bytes w = 0)
      else w = writer_new)"

text \<open>The bytes of the pending frame that are still to be sent.\<close>

definition remaining :: "message_writer \<Rightarrow> string" where
  "remaining w = (if w_pending w
     then drop (w_header_bytes w) (w_header w) @ drop (w_payload_bytes w) (w_payload w) else [])"

lemma writer_reset_new [simp]: "writer_reset w = writer_new"
  by (simp add: writer_reset_def writer_new_def)

lemma writer_inv_new [simp]: "writer_inv writer_new" "\<not> w_pending writer_new" "remaining writer_new = []"
  by (simp_all add: writer_inv_def writer_new_def remaining_def)

text \<open>The result and what it says of the state after the call.\<close>

definition write_result_ok :: "io_error + bool \<Rightarrow> message_writer \<Rightarrow> bool" where
  "write_result_ok res w' \<longleftrightarrow>
     (case res of
        Inr True \<Rightarrow> w' = writer_new
      | Inr False \<Rightarrow> w_pending w'
      | Inl e \<Rightarrow> w_pending w' \<and> err_kind e = System)"

lemma write_stopped_ok:
  "ending \<noteq> Filled \<Longrightarrow> w_pending w' \<Longrightarrow> write_result_ok (write_stopped ctx ending) w'"
  by (auto simp: write_result_ok_def write_stopped_def broken_pipe_def system_error_def
      split: loop_end.splits)

lemma write_payload_ok:
  assumes inv: "writer_inv w" "w_pending w" "w_header_bytes w = 4"
    and run: "write_payload w es out = Some (res, w', es', out')"
  shows "writer_inv w' \<and> write_result_ok res w' \<and> out' @ remaining w' = out @ remaining w
    \<and> (\<exists>sent. out' = out @ sent) \<and> length es' \<le> length es"
proof -
  obtain ending sent where l: "send_loop (w_payload w) (w_payload_bytes w) es out = Some (ending, sent, es', out')"
    and w': "w' = (if ending = Filled then writer_new else w\<lparr>w_payload_bytes := sent\<rparr>)"
    and res: "res = write_stopped ''Failed to write message payload'' ending"
    using run by (auto simp: write_payload_def Let_def split: option.splits)
  have le: "w_payload_bytes w \<le> length (w_payload w)" using inv by (simp add: writer_inv_def)
  note s = send_loop_ok [OF l le]
  have "drop (w_payload_bytes w) (w_payload w)
      = take (sent - w_payload_bytes w) (drop (w_payload_bytes w) (w_payload w)) @ drop sent (w_payload w)"
    using s(1) by (metis append_take_drop_id drop_drop le_add_diff_inverse2)
  then have out: "out @ drop (w_payload_bytes w) (w_payload w) = out' @ drop sent (w_payload w)"
    using s(3) by simp
  have sent: "\<exists>sent. out' = out @ sent" using s(3) by blast
  show ?thesis
  proof (cases "ending = Filled")
    case True
    then show ?thesis
      using s out inv w' res sent by (simp add: remaining_def writer_inv_def write_result_ok_def write_stopped_def)
  next
    case False
    then show ?thesis
      using s out inv w' res write_stopped_ok [OF False, of "w\<lparr>w_payload_bytes := sent\<rparr>"]
      by (simp add: remaining_def writer_inv_def)
  qed
qed

lemma write_to_ok:
  assumes inv: "writer_inv w" and run: "write_to w es out = Some (res, w', es', out')"
  shows "writer_inv w' \<and> write_result_ok res w' \<and> out' @ remaining w' = out @ remaining w
    \<and> (\<exists>sent. out' = out @ sent) \<and> length es' \<le> length es"
proof (cases "w_pending w")
  case False
  then show ?thesis using inv run
    by (auto simp: write_to_def write_result_ok_def writer_inv_def)
next
  case pend: True
  obtain ending sent es1 out1 where
    l: "send_loop (w_header w) (w_header_bytes w) es out = Some (ending, sent, es1, out1)"
    using run pend by (auto simp: write_to_def split: option.splits)
  have h: "length (w_header w) = 4" "w_header_bytes w \<le> 4" using inv pend by (simp_all add: writer_inv_def)
  then have le: "w_header_bytes w \<le> length (w_header w)" by simp
  note s = send_loop_ok [OF l le]
  define w1 where "w1 = w\<lparr>w_header_bytes := sent\<rparr>"
  have "drop (w_header_bytes w) (w_header w)
      = take (sent - w_header_bytes w) (drop (w_header_bytes w) (w_header w)) @ drop sent (w_header w)"
    using s(1) by (metis append_take_drop_id drop_drop le_add_diff_inverse2)
  then have out: "out1 @ remaining w1 = out @ remaining w"
    using s(3) pend by (simp add: w1_def remaining_def)
  show ?thesis
  proof (cases "ending = Filled")
    case True
    have "writer_inv w1" "w_pending w1" "w_header_bytes w1 = 4"
      using inv pend s(4) h True by (simp_all add: w1_def writer_inv_def)
    moreover have "write_payload w1 es1 out1 = Some (res, w', es', out')"
      using run pend l True by (simp add: write_to_def w1_def)
    ultimately have p: "writer_inv w' \<and> write_result_ok res w' \<and> out' @ remaining w' = out1 @ remaining w1
      \<and> (\<exists>sent. out' = out1 @ sent) \<and> length es' \<le> length es1" by (rule write_payload_ok)
    then obtain sent2 where "out' = out1 @ sent2" by blast
    with s(3) have "\<exists>sent. out' = out @ sent" by simp
    then show ?thesis using p out s(5) by simp
  next
    case False
    then have "w' = w1" "es' = es1" "out' = out1"
      and res: "res = write_stopped ''Failed to write message header'' ending"
      using run pend l by (simp_all add: write_to_def w1_def)
    moreover have "w_payload_bytes w = 0"
      using False s h inv pend by (auto simp: writer_inv_def)
    then have "writer_inv w1" using inv pend s(2) h by (simp add: w1_def writer_inv_def)
    moreover have "write_result_ok res w1"
      unfolding res using pend by (intro write_stopped_ok False) (simp add: w1_def)
    ultimately show ?thesis using s out by auto
  qed
qed

lemma queue_ok:
  assumes "writer_inv w" and "\<not> w_pending w" and "length msg \<le> MAX_MESSAGE_SIZE"
  shows "\<exists>w'. queue w msg = (Inr (), w') \<and> writer_inv w' \<and> w_pending w' \<and> remaining w' = frame msg"
  using assms by (simp add: queue_def writer_inv_def remaining_def frame_def writer_new_def)

lemma queue_refuses:
  "w_pending w \<Longrightarrow> \<exists>e. queue w msg = (Inl e, w) \<and> err_kind e = Invalid_Frame"
  "\<not> w_pending w \<Longrightarrow> MAX_MESSAGE_SIZE < length msg \<Longrightarrow>
    \<exists>e. queue w msg = (Inl e, w) \<and> err_kind e = Message_Too_Large"
  by (simp_all add: queue_def message_too_large_def)

section \<open>Every history of a writer\<close>

text \<open>
  The states that a writer and the bytes behind it can reach by any calls of \<open>queue\<close> (accepted or
  refused) and \<open>write_to\<close> (complete, not ready or failed), with the messages accepted so far.
\<close>

inductive writer_run :: "string list \<Rightarrow> message_writer \<Rightarrow> string \<Rightarrow> bool" where
  writer_start: "writer_run [] writer_new []"
| writer_queue: "writer_run msgs w out \<Longrightarrow> queue w msg = (Inr u, w') \<Longrightarrow> writer_run (msgs @ [msg]) w' out"
| writer_refuse: "writer_run msgs w out \<Longrightarrow> queue w msg = (Inl e, w') \<Longrightarrow> writer_run msgs w' out"
| writer_write: "writer_run msgs w out \<Longrightarrow> write_to w es out = Some (res, w', es', out') \<Longrightarrow>
    writer_run msgs w' out'"

lemma queue_accepted:
  "queue w msg = (Inr u, w') \<Longrightarrow> \<not> w_pending w \<and> length msg \<le> MAX_MESSAGE_SIZE"
  by (auto simp: queue_def split: if_splits)

lemma writer_run_frames:
  "writer_run msgs w out \<Longrightarrow>
    writer_inv w \<and> out @ remaining w = concat (map frame msgs)
    \<and> (\<forall>msg \<in> set msgs. length msg \<le> MAX_MESSAGE_SIZE)"
proof (induction rule: writer_run.induct)
  case writer_start
  then show ?case by simp
next
  case (writer_queue msgs w out msg u w')
  have acc: "\<not> w_pending w" "length msg \<le> MAX_MESSAGE_SIZE"
    using queue_accepted [OF writer_queue.hyps(2)] by simp_all
  from queue_ok [OF _ acc] writer_queue obtain w1 where
    "queue w msg = (Inr (), w1)" "writer_inv w1" "remaining w1 = frame msg" by auto
  moreover have "remaining w = []" using acc by (simp add: remaining_def)
  ultimately show ?case using writer_queue acc by auto
next
  case (writer_refuse msgs w out msg e w')
  have "w' = w" using writer_refuse.hyps(2) by (simp add: queue_def split: if_splits)
  then show ?case using writer_refuse by simp
next
  case (writer_write msgs w out es res w' es' out')
  then show ?case using write_to_ok [of w es out res w' es' out'] by auto
qed

section \<open>Completion of a write\<close>

text \<open>How many calls of a script take at least a byte before one ends the loop.\<close>

fun accepts :: "send_event list \<Rightarrow> nat" where
  "accepts [] = 0"
| "accepts (Accepted k # es) = (if k = 0 then 0 else Suc (accepts es))"
| "accepts (Send_Failed e # es) = (if e = EINTR then accepts es else 0)"

lemma send_loop_completes:
  assumes "sent \<le> length buf" and "length buf - sent + extra \<le> accepts es"
  shows "\<exists>es' out'. send_loop buf sent es out = Some (Filled, length buf, es', out') \<and> extra \<le> accepts es'"
  using assms
proof (induction es arbitrary: sent out)
  case Nil
  then show ?case by (simp add: send_loop.simps)
next
  case (Cons ev es)
  show ?case
  proof (cases "sent < length buf")
    case False
    then show ?thesis using Cons.prems by (simp add: send_loop.simps)
  next
    case lt: True
    show ?thesis
    proof (cases ev)
      case (Send_Failed e)
      then have e: "ev = Send_Failed EINTR" using Cons.prems lt by (auto split: if_splits)
      have "send_loop buf sent (Send_Failed EINTR # es) out = send_loop buf sent es out"
        using lt by (simp add: send_loop.simps [of buf sent "Send_Failed EINTR # es"])
      then show ?thesis using Cons.IH [of sent out] Cons.prems e by simp
    next
      case (Accepted k)
      let ?n = "min k (length buf - sent)"
      have k: "k \<noteq> 0" using Cons.prems(2) Accepted lt by (cases "k = 0") auto
      then have "send_loop buf sent (Accepted k # es) out
          = send_loop buf (sent + ?n) es (out @ take ?n (drop sent buf))"
        using lt by (simp add: send_loop.simps [of buf sent "Accepted k # es"])
      moreover have "sent + ?n \<le> length buf" "length buf - (sent + ?n) + extra \<le> accepts es"
        using Cons.prems(2) Accepted k lt by auto
      ultimately show ?thesis using Cons.IH [of "sent + ?n"] Accepted by simp
    qed
  qed
qed

lemma write_to_completes:
  assumes inv: "writer_inv w" and enough: "length (remaining w) \<le> accepts es"
  shows "\<exists>es'. write_to w es out = Some (Inr True, writer_new, es', out @ remaining w)"
proof (cases "w_pending w")
  case False
  then show ?thesis using inv by (simp add: write_to_def writer_inv_def remaining_def)
next
  case pend: True
  have h: "length (w_header w) = 4" "w_header_bytes w \<le> length (w_header w)"
    and p: "w_payload_bytes w \<le> length (w_payload w)"
    using inv pend by (simp_all add: writer_inv_def)
  let ?body = "length (w_payload w) - w_payload_bytes w"
  have "length (w_header w) - w_header_bytes w + ?body \<le> accepts es"
    using enough pend by (simp add: remaining_def)
  from send_loop_completes [OF h(2) this, of out] obtain es1 out1 where
    l1: "send_loop (w_header w) (w_header_bytes w) es out = Some (Filled, length (w_header w), es1, out1)"
      "?body + 0 \<le> accepts es1" by auto
  from send_loop_completes [OF p l1(2), of out1] obtain es2 out2 where
    l2: "send_loop (w_payload w) (w_payload_bytes w) es1 out1 = Some (Filled, length (w_payload w), es2, out2)"
    by auto
  have run: "write_to w es out = Some (Inr True, writer_new, es2, out2)"
    using pend l1(1) l2 by (simp add: write_to_def write_payload_def write_stopped_def)
  then show ?thesis using write_to_ok [OF inv run] by simp
qed

section \<open>The blocking operations\<close>

lemma read_exact_stream:
  assumes "stream es = (bs, s, rest)"
  shows "if length buf \<le> length bs
    then \<exists>es'. read_exact buf ctx es = Some (Inr True, take (length buf) bs, es')
         \<and> stream es' = (drop (length buf) bs, s, rest)
    else (case s of
        Exhausted \<Rightarrow> read_exact buf ctx es = None
      | Stops No_Bytes \<Rightarrow> \<exists>buf'. read_exact buf ctx es
          = Some (if bs = [] then Inr False else Inl (unexpected_eof ctx), buf', rest)
      | Stops (Io_Failed e) \<Rightarrow> \<exists>buf'. read_exact buf ctx es = Some (Inl (system_error e ctx), buf', rest)
      | Stops Filled \<Rightarrow> False)"
proof (cases "length buf \<le> length bs")
  case True
  then show ?thesis using recv_loop_stream [OF _ assms, of 0 buf] by (auto simp: read_exact_def)
next
  case False
  then have "recv_loop buf 0 es = (case s of Exhausted \<Rightarrow> None
      | Stops l \<Rightarrow> Some (l, write_at 0 bs buf, 0 + length bs, rest))"
    using recv_loop_stream [OF _ assms, of 0 buf] by simp
  then show ?thesis using False stream_not_filled [OF assms]
    by (cases s; cases "case s of Stops l \<Rightarrow> l | Exhausted \<Rightarrow> Filled") (auto simp: read_exact_def)
qed

text \<open>What \<open>read_message\<close> returns for the bytes \<open>p\<close> that arrive before the stream ends.\<close>

definition read_message_spec ::
  "string \<Rightarrow> stream_end \<Rightarrow> recv_event list
    \<Rightarrow> ((io_error + string option) \<times> recv_event list) option \<Rightarrow> bool" where
  "read_message_spec p s rest res \<longleftrightarrow>
     (case parse_frame p of
        Whole msg bs \<Rightarrow> \<exists>es'. res = Some (Inr (Some msg), es') \<and> stream es' = (bs, s, rest)
      | Too_Large \<Rightarrow> \<exists>es'. res
          = Some (Inl (message_too_large ''Incoming message exceeds maximum size''), es')
      | Partial \<Rightarrow>
          (case s of
             Exhausted \<Rightarrow> res = None
           | Stops No_Bytes \<Rightarrow>
               if p = [] then res = Some (Inr None, rest)
               else \<exists>ctx. res = Some (Inl (unexpected_eof ctx), rest)
           | Stops (Io_Failed e) \<Rightarrow> \<exists>ctx. res = Some (Inl (system_error e ctx), rest)
           | Stops Filled \<Rightarrow> False))"

lemma read_message_stream:
  assumes st: "stream es = (bs, s, rest)"
  shows "read_message_spec bs s rest (read_message es)"
proof (cases "4 \<le> length bs")
  case False
  then have p: "parse_frame bs = Partial" by (simp add: parse_frame_def)
  show ?thesis
    using read_exact_stream [OF st, of "replicate 4 nul" "''Failed to read message header''"] False p
      stream_not_filled [OF st]
    by (cases s; cases "case s of Stops l \<Rightarrow> l | Exhausted \<Rightarrow> Filled")
       (auto simp: read_message_spec_def read_message_def)
next
  case True
  let ?h = "take 4 bs"
  let ?q = "drop 4 bs"
  obtain es1 where e1: "read_exact (replicate 4 nul) ''Failed to read message header'' es
      = Some (Inr True, ?h, es1)" "stream es1 = (?q, s, rest)"
    using read_exact_stream [OF st, of "replicate 4 nul" "''Failed to read message header''"] True by auto
  have lh: "length ?h = 4" using True by simp
  note p = parse_frame_append [OF lh, of ?q, unfolded append_take_drop_id]
  have n: "unat (ntohl (load_u32 ?h)) = header_size ?h" by (simp add: header_size_def)
  consider (large) "MAX_MESSAGE_SIZE < header_size ?h" | (zero) "header_size ?h = 0"
    | (whole) "0 < header_size ?h" "header_size ?h \<le> MAX_MESSAGE_SIZE" "header_size ?h \<le> length ?q"
    | (part) "0 < header_size ?h" "header_size ?h \<le> MAX_MESSAGE_SIZE" "length ?q < header_size ?h"
    by linarith
  then show ?thesis
  proof cases
    case large
    then show ?thesis using p e1 n by (simp add: read_message_spec_def read_message_def Let_def)
  next
    case zero
    then show ?thesis using p e1 n by (simp add: read_message_spec_def read_message_def Let_def)
  next
    case whole
    then show ?thesis
      using read_exact_stream [OF e1(2), of "replicate (header_size ?h) nul"
          "''Failed to read message payload''"] p e1(1) n
      by (auto simp: read_message_spec_def read_message_def Let_def)
  next
    case part
    then show ?thesis
      using read_exact_stream [OF e1(2), of "replicate (header_size ?h) nul"
          "''Failed to read message payload''"] p e1(1) n True stream_not_filled [OF st]
      by (cases s; cases "case s of Stops l \<Rightarrow> l | Exhausted \<Rightarrow> Filled")
         (auto simp: read_message_spec_def read_message_def Let_def)
  qed
qed

lemma write_all_cases:
  assumes "write_all source ctx es out = Some (res, es', out')"
  shows "\<exists>sent. out' = out @ sent \<and> (\<exists>unsent. source = sent @ unsent \<and> (res = Inr () \<longleftrightarrow> unsent = []))"
    and "res = Inl e \<Longrightarrow> err_kind e = System" and "length es' \<le> length es"
proof -
  obtain ending n where l: "send_loop source 0 es out = Some (ending, n, es', out')"
    and res: "res = (case ending of No_Bytes \<Rightarrow> Inl (broken_pipe ctx)
      | Io_Failed errno \<Rightarrow> Inl (system_error errno ctx) | Filled \<Rightarrow> Inr ())"
    using assms by (auto simp: write_all_def split: option.splits loop_end.splits)
  note s = send_loop_ok [OF l]
  have "source = take n source @ drop n source" "res = Inr () \<longleftrightarrow> drop n source = []"
    using s(2,4) res by (auto split: loop_end.splits)
  then show "\<exists>sent. out' = out @ sent \<and> (\<exists>unsent. source = sent @ unsent \<and> (res = Inr () \<longleftrightarrow> unsent = []))"
    using s(3) by (intro exI [of _ "take n source"] conjI exI [of _ "drop n source"]) simp_all
  show "err_kind e = System" if "res = Inl e"
    using that res by (auto simp: broken_pipe_def system_error_def split: loop_end.splits)
  show "length es' \<le> length es" using s(5) by simp
qed

lemma write_message_sent:
  assumes run: "write_message msg es out = Some (res, es', out')" and le: "length msg \<le> MAX_MESSAGE_SIZE"
  shows "\<exists>sent unsent. out' = out @ sent \<and> frame msg = sent @ unsent \<and> (res = Inr () \<longleftrightarrow> unsent = [])"
    and "res = Inl e \<Longrightarrow> err_kind e = System"
proof -
  obtain res1 es1 out1 where w1: "write_all (frame_header (length msg)) ''Failed to write message header'' es out
      = Some (res1, es1, out1)"
    using run le by (auto simp: write_message_def split: option.splits)
  note s1 = write_all_cases [OF w1]
  obtain sent1 unsent1 where o1: "out1 = out @ sent1" "frame_header (length msg) = sent1 @ unsent1"
    "res1 = Inr () \<longleftrightarrow> unsent1 = []" using s1(1) by blast
  have "(\<exists>sent unsent. out' = out @ sent \<and> frame msg = sent @ unsent \<and> (res = Inr () \<longleftrightarrow> unsent = []))
    \<and> (res = Inl e \<longrightarrow> err_kind e = System)"
  proof (cases res1)
    case (Inl e1)
    then have "res = Inl e1" "out' = out1" using run le w1 by (simp_all add: write_message_def)
    then show ?thesis using o1 Inl s1(2)
      by (intro conjI exI [of _ sent1] exI [of _ "unsent1 @ msg"]) (auto simp: frame_def)
  next
    case (Inr u)
    then have w2: "write_all msg ''Failed to write message payload'' es1 out1 = Some (res, es', out')"
      using run le w1 by (cases u) (simp add: write_message_def)
    note s2 = write_all_cases [OF w2]
    obtain sent2 unsent2 where o2: "out' = out1 @ sent2" "msg = sent2 @ unsent2"
      "res = Inr () \<longleftrightarrow> unsent2 = []" using s2(1) by blast
    have "out' = out @ (sent1 @ sent2) \<and> frame msg = (sent1 @ sent2) @ unsent2
        \<and> (res = Inr () \<longleftrightarrow> unsent2 = [])"
      using o1 o2 Inr by (simp add: frame_def)
    then show ?thesis using s2(2) by blast
  qed
  then show "\<exists>sent unsent. out' = out @ sent \<and> frame msg = sent @ unsent \<and> (res = Inr () \<longleftrightarrow> unsent = [])"
    and "res = Inl e \<Longrightarrow> err_kind e = System" by auto
qed

section \<open>Properties\<close>

text \<open>The header that \<open>queue\<close> and \<open>write_message\<close> put before a message is its size as four
  bytes, the most significant one first, and the size that the receiver reads from it is the size of
  the message.\<close>

theorem frame_header_network_order:
  assumes "n \<le> MAX_MESSAGE_SIZE"
  shows "frame_header n = [char_of (n div 16777216), char_of (n div 65536), char_of (n div 256), char_of n]
    \<and> unat (ntohl (load_u32 (frame_header n))) = n"
  using frame_header_big_endian [OF assms] header_size_frame_header [OF assms]
  by (simp add: header_size_def)

theorem frame_header_network_order_witness:
  "frame_header 258 = [CHR 0x00, CHR 0x00, CHR 0x01, CHR 0x02]"
  using frame_header_network_order [of 258] by (simp add: MAX_MESSAGE_SIZE_def char_of_def bit_iff_odd)

text \<open>C12: a call of \<open>MessageReader::read_from\<close>, from any state a reader can be resumed in and for
  every way the kernel delivers the bytes, is determined by the bytes of the frame so far: a whole
  frame gives its message, resets the reader and leaves the following bytes in the socket; a size
  over the limit is refused before any payload is read; otherwise the call reports the shutdown
  (clean only between frames), the error, or that it is incomplete, keeping every byte for the next
  call.\<close>

theorem read_from_correct:
  assumes "reader_inv r" and "stream es = (bs, s, rest)"
  shows "read_spec (progress r @ bs) s rest (read_from r es)"
  using assms by (rule read_from_stream)

theorem read_from_correct_witness:
  "\<exists>r. read_from reader_new [Received [CHR 0x00, CHR 0x00], Recv_Failed EINTR, Recv_Failed EAGAIN]
      = Some (Inr \<lparr>status = Incomplete, message = []\<rparr>, r, [])
    \<and> progress r = [CHR 0x00, CHR 0x00]"
  using read_from_correct [OF reader_inv_new(1),
      of "[Received [CHR 0x00, CHR 0x00], Recv_Failed EINTR, Recv_Failed EAGAIN]"]
  by (auto simp: read_spec_def parse_frame_def read_stopped_def would_block_def EINTR_def EAGAIN_def)

text \<open>C17: a call of \<open>MessageWriter::write_to\<close> sends a prefix of what remains of the frame and keeps
  exactly the rest, whatever the call returns: after \<open>true\<close> nothing remains and the writer is as
  new; after \<open>false\<close> or an error the message is still pending.\<close>

theorem write_to_correct:
  assumes "writer_inv w" and "write_to w es out = Some (res, w', es', out')"
  shows "writer_inv w' \<and> (\<exists>sent. out' = out @ sent \<and> remaining w = sent @ remaining w')
    \<and> (res = Inr True \<longrightarrow> w' = writer_new)
    \<and> (res = Inr False \<longrightarrow> has_pending_message w')
    \<and> (\<forall>e. res = Inl e \<longrightarrow> has_pending_message w' \<and> err_kind e = System)"
  using write_to_ok [OF assms] by (auto simp: write_result_ok_def has_pending_message_def)

theorem write_to_correct_witness:
  "\<exists>w w' out'. queue writer_new ''hi'' = (Inr (), w)
    \<and> write_to w [Accepted 3, Send_Failed EAGAIN] [] = Some (Inr False, w', [], out')
    \<and> remaining w = out' @ remaining w'"
proof -
  obtain w where w: "queue writer_new ''hi'' = (Inr (), w)" "writer_inv w" "w_pending w"
    using queue_ok [of writer_new "''hi''"] by (auto simp: MAX_MESSAGE_SIZE_def)
  have "w_header_bytes w = 0" "length (w_header w) = 4"
    using w by (auto simp: queue_def writer_new_def MAX_MESSAGE_SIZE_def)
  then have "\<exists>w' out'. write_to w [Accepted 3, Send_Failed EAGAIN] [] = Some (Inr False, w', [], out')"
    using w(3) by (simp add: write_to_def send_loop.simps write_stopped_def would_block_def EINTR_def EAGAIN_def)
  then obtain w' out' where r: "write_to w [Accepted 3, Send_Failed EAGAIN] [] = Some (Inr False, w', [], out')"
    by blast
  show ?thesis using write_to_correct [OF w(2) r] w(1) r by auto
qed

text \<open>C18: with a kernel that takes at least a byte in sufficiently many calls, \<open>write_to\<close> returns
  \<open>true\<close> and has sent all that remained of the frame.\<close>

theorem write_to_terminates:
  assumes "writer_inv w" and "length (remaining w) \<le> accepts es"
  shows "\<exists>es'. write_to w es out = Some (Inr True, writer_new, es', out @ remaining w)"
  using assms by (rule write_to_completes)

theorem write_to_terminates_witness:
  "\<exists>w es'. queue writer_new [] = (Inr (), w)
    \<and> write_to w (replicate 4 (Accepted 1)) [] = Some (Inr True, writer_new, es', frame [])"
proof -
  obtain w where w: "queue writer_new [] = (Inr (), w)" "writer_inv w" "remaining w = frame []"
    using queue_ok [of writer_new "[]"] by auto
  then show ?thesis
    using write_to_terminates [OF w(2), of "replicate 4 (Accepted 1)" "[]"] by (auto simp: numeral_eq_Suc)
qed

text \<open>C8: from one end to the other: whatever calls of \<open>queue\<close> and \<open>write_to\<close> led to a writer with
  nothing pending, and however the bytes it sent are cut up, interrupted and delayed on their way, a
  reader that is polled often enough receives exactly the accepted messages, in their order.\<close>

theorem frames_end_to_end:
  assumes "writer_run msgs w out" and "\<not> has_pending_message w"
    and "delivered es = out" and "only_delays es" and "pauses es + length msgs \<le> n"
  shows "read_polls n reader_new es = msgs"
proof -
  note f = writer_run_frames [OF assms(1)]
  have "out = concat (map frame msgs) @ []"
    using f assms(2) by (simp add: remaining_def has_pending_message_def)
  with f assms(3-5) show ?thesis
    by (intro read_polls_ok [OF reader_inv_new(1), where tail = "[]"])
       (simp_all add: parse_frame_def)
qed

theorem frames_end_to_end_witness:
  "\<exists>w. writer_run [[]] w (frame [])
    \<and> read_polls 2 reader_new [Received [nul], Recv_Failed EAGAIN, Received [nul, nul, nul]] = [[]]"
proof -
  obtain w where w: "queue writer_new [] = (Inr (), w)" "writer_inv w" "remaining w = frame []"
    using queue_ok [of writer_new "[]"] by auto
  from write_to_completes [OF w(2), of "replicate 4 (Accepted 1)" "[]"] w(3) obtain es' where
    r: "write_to w (replicate 4 (Accepted 1)) [] = Some (Inr True, writer_new, es', frame [])"
    by (auto simp: numeral_eq_Suc)
  have "writer_run ([] @ [[]]) writer_new (frame [])"
    by (rule writer_write [OF writer_queue [OF writer_start w(1)] r])
  then have run: "writer_run [[]] writer_new (frame [])" by simp
  have "frame [] = [nul, nul, nul, nul]"
    using frame_header_big_endian [of 0] by (simp add: frame_def char_of_def)
  then show ?thesis
    using frames_end_to_end [OF run, of "[Received [nul], Recv_Failed EAGAIN, Received [nul, nul, nul]]" 2] run
    by (auto simp: has_pending_message_def EINTR_def EAGAIN_def would_block_def)
qed

text \<open>The blocking \<open>read_message\<close> returns the message of the frame that the peer sent, nothing if
  the peer shut down between two frames, and an error for a frame that is too large or cut off.\<close>

theorem read_message_correct:
  assumes "stream es = (bs, s, rest)"
  shows "read_message_spec bs s rest (read_message es)"
  using assms by (rule read_message_stream)

theorem read_message_correct_witness:
  "read_message [Received []] = Some (Inr None, [])
   \<and> (\<exists>ctx. read_message [Received [nul], Received []] = Some (Inl (unexpected_eof ctx), []))"
  using read_message_correct [of "[Received []]"] read_message_correct [of "[Received [nul], Received []]"]
  by (auto simp: read_message_spec_def parse_frame_def)

text \<open>The blocking \<open>write_message\<close> refuses a message over the limit without sending a byte;
  otherwise it has sent the whole frame when it returns without error, and a proper prefix of it when
  it fails.\<close>

theorem write_message_correct:
  assumes "write_message msg es out = Some (res, es', out')"
  shows "if MAX_MESSAGE_SIZE < length msg
    then out' = out \<and> res = Inl (message_too_large ''Outgoing message exceeds maximum size'')
    else \<exists>sent unsent. out' = out @ sent \<and> frame msg = sent @ unsent \<and> (res = Inr () \<longleftrightarrow> unsent = [])"
  using assms write_message_sent(1) [OF assms]
  by (cases "MAX_MESSAGE_SIZE < length msg") (auto simp: write_message_def)

theorem write_message_correct_witness:
  "\<exists>sent. write_message [] [Accepted 3, Send_Failed EPIPE] []
      = Some (Inl (system_error EPIPE ''Failed to write message header''), [], sent)
    \<and> frame [] \<noteq> sent"
proof -
  let ?e = "system_error EPIPE ''Failed to write message header''"
  have "\<exists>sent. write_message [] [Accepted 3, Send_Failed EPIPE] [] = Some (Inl ?e, [], sent)"
    by (simp add: write_message_def write_all_def send_loop.simps EINTR_def EPIPE_def)
  then obtain sent where r: "write_message [] [Accepted 3, Send_Failed EPIPE] [] = Some (Inl ?e, [], sent)"
    by blast
  show ?thesis using write_message_correct [OF r] r by auto
qed

end
