(* ===== verification/CharConv.thy ===== *)
theory CharConv
  imports AttoPrelude
begin

text \<open>
  The parts of the C++ standard library that convert between numbers and text: \<open>std::from_chars\<close> into
  an integer type of a given range, and \<open>std::format\<close> of a non-negative number with \<open>{}\<close>.
\<close>

section \<open>From text\<close>

text \<open>The result is the error code, the number of characters read and the value of the target, which
  keeps its old value on an error.  A minus sign is only read for a signed type.\<close>

datatype errc = No_Error | Invalid_Argument | Result_Out_Of_Range

definition is_digit :: "char \<Rightarrow> bool" where
  "is_digit c \<longleftrightarrow> 48 \<le> (of_char c :: nat) \<and> (of_char c :: nat) \<le> 57"

definition decimal :: "string \<Rightarrow> int" where
  "decimal s = foldl (\<lambda>n c. 10 * n + (int (of_char c) - 48)) 0 s"

definition from_chars :: "int \<Rightarrow> int \<Rightarrow> string \<Rightarrow> int \<Rightarrow> errc \<times> nat \<times> int" where
  "from_chars lowest highest input old =
     (let negative = (case input of [] \<Rightarrow> False | c # _ \<Rightarrow> lowest < 0 \<and> c = CHR ''-'');
          digits = takeWhile is_digit (if negative then tl input else input);
          val = (if negative then - decimal digits else decimal digits);
          ptr = length digits + (if negative then 1 else 0)
      in if digits = [] then (Invalid_Argument, 0, old)
         else if val < lowest \<or> highest < val then (Result_Out_Of_Range, ptr, old)
         else (No_Error, ptr, val))"

text \<open>The common use: the whole input must be the number.\<close>

definition parse_whole :: "int \<Rightarrow> int \<Rightarrow> string \<Rightarrow> int \<Rightarrow> bool \<times> int" where
  "parse_whole lowest highest input old =
     (let (ec, ptr, val) = from_chars lowest highest input old
      in (ec = No_Error \<and> ptr = length input, val))"

section \<open>To text\<close>

fun digits :: "nat \<Rightarrow> string" where
  "digits n = (if n < 10 then [char_of (48 + n)] else digits (n div 10) @ [char_of (48 + n mod 10)])"

declare digits.simps [simp del]

definition int_text :: "int \<Rightarrow> string" where
  "int_text n = (if n < 0 then CHR ''-'' # digits (nat (- n)) else digits (nat n))"

section \<open>Lemmas\<close>

lemma digit_value: "is_digit c \<Longrightarrow> 0 \<le> int (of_char c) - 48 \<and> int (of_char c) - 48 \<le> 9"
  unfolding is_digit_def by linarith

lemma is_digit_char_of: "k < 10 \<Longrightarrow> is_digit (char_of (48 + k))" for k :: nat
  by (simp add: is_digit_def)

lemma not_digit_minus: "\<not> is_digit CHR ''-''"
  by (simp add: is_digit_def)

lemma decimal_nonneg:
  assumes "\<forall>c \<in> set s. is_digit c"
  shows "0 \<le> decimal s"
proof -
  have "0 \<le> n \<Longrightarrow> 0 \<le> foldl (\<lambda>n c. 10 * n + (int (of_char c) - 48)) n s" for n :: int
    using assms
  proof (induction s arbitrary: n)
    case (Cons c s)
    then show ?case using digit_value [of c] by simp
  qed simp
  then show ?thesis by (simp add: decimal_def)
qed

lemma decimal_snoc: "decimal (s @ [c]) = 10 * decimal s + (int (of_char c) - 48)"
  by (simp add: decimal_def)

lemma digits_nonempty: "digits n \<noteq> []"
  by (subst digits.simps) simp

lemma digits_are_digits: "c \<in> set (digits n) \<Longrightarrow> is_digit c"
proof (induction n rule: digits.induct)
  case (1 n)
  show ?case
  proof (cases "n < 10")
    case True
    then show ?thesis using "1.prems" by (simp add: digits.simps [of n] is_digit_char_of)
  next
    case False
    then have "digits n = digits (n div 10) @ [char_of (48 + n mod 10)]" by (simp add: digits.simps [of n])
    then have "c \<in> set (digits (n div 10)) \<or> c = char_of (48 + n mod 10)" using "1.prems" by auto
    then show ?thesis using "1.IH" False is_digit_char_of [of "n mod 10"] by auto
  qed
qed

lemma decimal_digits [simp]: "decimal (digits n) = int n"
proof (induction n rule: digits.induct)
  case (1 n)
  show ?case
  proof (cases "n < 10")
    case True
    then show ?thesis by (simp add: digits.simps [of n] decimal_def)
  next
    case False
    then have "decimal (digits n) = 10 * decimal (digits (n div 10)) + int (n mod 10)"
      by (simp add: digits.simps [of n] decimal_snoc)
    also have "\<dots> = int n" using "1.IH" [OF False] by (simp add: zdiv_int zmod_int)
    finally show ?thesis .
  qed
qed

lemma takeWhile_all_length: "length (takeWhile P t) = length t \<longleftrightarrow> (\<forall>c \<in> set t. P c)"
proof
  assume "length (takeWhile P t) = length t"
  then have "takeWhile P t = t" by (metis takeWhile_eq_take take_all order_refl)
  then show "\<forall>c \<in> set t. P c" by (simp add: takeWhile_eq_all_conv)
qed (metis takeWhile_eq_all_conv)

text \<open>Without a sign, the whole input is accepted exactly when it is a non-empty string of digits in
  the range of the type.\<close>

lemma parse_whole_unsigned:
  assumes "lowest \<le> 0" and "\<nexists>t. s = CHR ''-'' # t"
  shows "parse_whole lowest highest s old =
    (let ok = (s \<noteq> [] \<and> (\<forall>c \<in> set s. is_digit c) \<and> decimal s \<le> highest)
     in (ok, if takeWhile is_digit s \<noteq> [] \<and> decimal (takeWhile is_digit s) \<le> highest
             then decimal (takeWhile is_digit s) else old))"
proof -
  define d where "d = takeWhile is_digit s"
  have "0 \<le> decimal d" unfolding d_def by (rule decimal_nonneg) (auto dest: set_takeWhileD)
  then have fc: "from_chars lowest highest s old = (if d = [] then (Invalid_Argument, 0, old)
       else if highest < decimal d then (Result_Out_Of_Range, length d, old)
       else (No_Error, length d, decimal d))"
    using assms by (cases s) (auto simp: from_chars_def Let_def d_def)
  have all: "length d = length s \<longleftrightarrow> (\<forall>c \<in> set s. is_digit c)"
    unfolding d_def by (rule takeWhile_all_length)
  show ?thesis
  proof (cases "length d = length s")
    case True
    then have "d = s" unfolding d_def by (metis takeWhile_eq_take take_all order_refl)
    then show ?thesis unfolding d_def [symmetric] parse_whole_def fc Let_def using all by auto
  next
    case False
    then show ?thesis unfolding d_def [symmetric] parse_whole_def fc Let_def using all by auto
  qed
qed

lemma parse_whole_minus:
  assumes "0 \<le> lowest"
  shows "\<not> fst (parse_whole lowest highest (CHR ''-'' # t) old)"
    and "snd (parse_whole lowest highest (CHR ''-'' # t) old) = old"
  using assms by (simp_all add: parse_whole_def from_chars_def Let_def not_digit_minus)

lemma parse_whole_negative:
  assumes "lowest < 0"
  shows "fst (parse_whole lowest highest (CHR ''-'' # t) old) \<longleftrightarrow>
      t \<noteq> [] \<and> (\<forall>c \<in> set t. is_digit c) \<and> lowest \<le> - decimal t \<and> - decimal t \<le> highest"
    and "fst (parse_whole lowest highest (CHR ''-'' # t) old) \<Longrightarrow>
      snd (parse_whole lowest highest (CHR ''-'' # t) old) = - decimal t"
proof -
  define d where "d = takeWhile is_digit t"
  have fc: "from_chars lowest highest (CHR ''-'' # t) old = (if d = [] then (Invalid_Argument, 0, old)
       else if - decimal d < lowest \<or> highest < - decimal d then (Result_Out_Of_Range, length d + 1, old)
       else (No_Error, length d + 1, - decimal d))"
    using assms by (simp add: from_chars_def Let_def d_def)
  have all: "length d = length t \<longleftrightarrow> (\<forall>c \<in> set t. is_digit c)"
    unfolding d_def by (rule takeWhile_all_length)
  have whole: "length d = length t \<Longrightarrow> d = t"
    unfolding d_def by (metis takeWhile_eq_take take_all order_refl)
  show "fst (parse_whole lowest highest (CHR ''-'' # t) old) \<longleftrightarrow>
      t \<noteq> [] \<and> (\<forall>c \<in> set t. is_digit c) \<and> lowest \<le> - decimal t \<and> - decimal t \<le> highest"
    unfolding parse_whole_def fc Let_def using all whole by auto
  show "fst (parse_whole lowest highest (CHR ''-'' # t) old) \<Longrightarrow>
      snd (parse_whole lowest highest (CHR ''-'' # t) old) = - decimal t"
    unfolding parse_whole_def fc Let_def using whole by (auto split: if_splits)
qed

lemma parse_whole_digits:
  assumes "lowest \<le> 0" and "int n \<le> highest"
  shows "parse_whole lowest highest (digits n) old = (True, int n)"
proof -
  have no: "\<nexists>t. digits n = CHR ''-'' # t"
    using digits_are_digits [of "CHR ''-''" n] not_digit_minus by auto
  have all: "\<forall>c \<in> set (digits n). is_digit c" using digits_are_digits by blast
  then have tw: "takeWhile is_digit (digits n) = digits n" by (simp only: takeWhile_eq_all_conv)
  show ?thesis
    using parse_whole_unsigned [OF assms(1) no, of highest old] all digits_nonempty [of n] assms(2)
    unfolding tw by (simp add: Let_def)
qed

end
