(* ===== verification/Console.thy ===== *)
theory Console
  imports Message CharConv
begin

text \<open>
  What the programs write to their standard output and their standard error, in the order in which they
  write it: the texts that the three \<open>main.cpp\<close> and the server share.  \<open>strerror\<close> stands for the texts of the
  error numbers.
\<close>

datatype console = Out string | Err string

definition LF :: char where "LF = CHR 0x0A"

text \<open>The text on the standard output.\<close>

fun stdout_text :: "console list \<Rightarrow> string" where
  "stdout_text [] = []"
| "stdout_text (Out cs # events) = cs @ stdout_text events"
| "stdout_text (Err cs # events) = stdout_text events"

lemma stdout_text_append [simp]: "stdout_text (xs @ ys) = stdout_text xs @ stdout_text ys"
  by (induction xs rule: stdout_text.induct) simp_all

definition prompt :: console where
  "prompt = Out ''attokv> ''"

definition reply_line :: "string \<Rightarrow> console" where
  "reply_line reply = Out (reply @ [LF])"

text \<open>How \<open>log_io_error\<close> and the client print an \<open>IoError\<close>.\<close>

definition error_line :: "(int \<Rightarrow> string) \<Rightarrow> string \<Rightarrow> io_error \<Rightarrow> console" where
  "error_line strerror operation e =
     Err (operation @ '': '' @ err_context e
       @ (if err_cause e \<noteq> 0 then '': '' @ strerror (err_cause e) else []) @ [LF])"

text \<open>\<open>inet_ntoa\<close>: an address is in network order, its first byte in memory is the lowest one on a
  little-endian machine.\<close>

definition address_byte :: "u32 \<Rightarrow> nat \<Rightarrow> nat" where
  "address_byte addr k = unat (drop_bit (8 * k) addr AND 0xff)"

definition inet_ntoa :: "u32 \<Rightarrow> string" where
  "inet_ntoa addr = digits (address_byte addr 0) @ ''.'' @ digits (address_byte addr 1) @ ''.''
     @ digits (address_byte addr 2) @ ''.'' @ digits (address_byte addr 3)"

text \<open>A dialogue: a prompt and a reply for every line, and the prompt at which the input ends.\<close>

definition transcript :: "string list \<Rightarrow> console list" where
  "transcript replies = concat (map (\<lambda>reply. [prompt, reply_line reply]) replies) @ [prompt]"

lemma transcript_simps [simp]:
  "transcript [] = [prompt]"
  "transcript (reply # replies) = prompt # reply_line reply # transcript replies"
  by (simp_all add: transcript_def)

lemma stdout_transcript:
  "stdout_text (transcript replies) = concat (map (\<lambda>reply. ''attokv> '' @ reply @ [LF]) replies) @ ''attokv> ''"
  by (induction replies) (simp_all add: prompt_def reply_line_def)

end
