(* ===== verification/Socket.thy ===== *)
theory Socket
  imports Network
begin

text \<open>
  \<open>Socket\<close> (lib/include/attokv/socket.h, lib/src/socket.cpp), the owner of a file descriptor, and
  \<open>make_sockaddr\<close> (lib/src/util.cpp).

  The operating system is the set of open descriptors, with a count of the calls of \<open>close\<close> that hit
  a descriptor that was not open.
\<close>

section \<open>File descriptors\<close>

record os =
  os_open :: "int set"
  os_bad_closes :: nat

abbreviation no_descriptors :: os where
  "no_descriptors \<equiv> \<lparr>os_open = {}, os_bad_closes = 0\<rparr>"

definition close_fd :: "int \<Rightarrow> os \<Rightarrow> os" where
  "close_fd fd os =
     (if fd \<in> os_open os then os\<lparr>os_open := os_open os - {fd}\<rparr>
      else os\<lparr>os_bad_closes := os_bad_closes os + 1\<rparr>)"

section \<open>The socket\<close>

record socket =
  m_fd :: int

definition socket_new :: socket where
  "socket_new = \<lparr>m_fd = -1\<rparr>"

definition socket_of :: "int \<Rightarrow> socket" where
  "socket_of fd = \<lparr>m_fd = fd\<rparr>"

definition is_valid :: "socket \<Rightarrow> bool" where
  "is_valid s \<longleftrightarrow> m_fd s \<noteq> -1"

definition native_handle :: "socket \<Rightarrow> int" where
  "native_handle s = m_fd s"

text \<open>\<open>std::exchange(m_fd, -1)\<close>.\<close>

definition socket_release :: "socket \<Rightarrow> int \<times> socket" where
  "socket_release s = (m_fd s, s\<lparr>m_fd := -1\<rparr>)"

definition socket_reset :: "socket \<Rightarrow> int \<Rightarrow> os \<Rightarrow> socket \<times> os" where
  "socket_reset s fd os =
     (if m_fd s = fd then (s, os)
      else (s\<lparr>m_fd := fd\<rparr>, if m_fd s \<noteq> -1 then close_fd (m_fd s) os else os))"

text \<open>The move constructor: the new socket and what is left of the other one.\<close>

definition socket_move :: "socket \<Rightarrow> socket \<times> socket" where
  "socket_move other = (let (fd, other') = socket_release other in (socket_of fd, other'))"

text \<open>Move assignment between two different objects; from an object to itself it does nothing.\<close>

definition socket_move_assign :: "socket \<Rightarrow> socket \<Rightarrow> os \<Rightarrow> socket \<times> socket \<times> os" where
  "socket_move_assign this other os =
     (let (fd, other') = socket_release other; (this', os') = socket_reset this fd os
      in (this', other', os'))"

definition socket_destroy :: "socket \<Rightarrow> os \<Rightarrow> os" where
  "socket_destroy s os = snd (socket_reset s (-1) os)"

section \<open>Options of a socket\<close>

text \<open>
  The flags of \<open>fcntl\<close> as a 32-bit \<open>int\<close>.  What the two calls of \<open>fcntl\<close> and the one of
  \<open>setsockopt\<close> return is an argument: an error number, or success.
\<close>

definition O_NONBLOCK :: u32 where
  "O_NONBLOCK = 0x800"

definition set_nonblocking :: "int + u32 \<Rightarrow> (u32 \<Rightarrow> int option) \<Rightarrow> bool \<Rightarrow> int + u32" where
  "set_nonblocking getfl setfl enabled =
     (case getfl of
        Inl errno \<Rightarrow> Inl errno
      | Inr flags \<Rightarrow>
          let updated_flags = (if enabled then flags OR O_NONBLOCK else flags AND NOT O_NONBLOCK)
          in case setfl updated_flags of
               Some errno \<Rightarrow> Inl errno
             | None \<Rightarrow> Inr updated_flags)"

definition set_nodelay :: "(int \<Rightarrow> int option) \<Rightarrow> bool \<Rightarrow> int + unit" where
  "set_nodelay setsockopt enabled =
     (let val = (if enabled then 1 else 0)
      in case setsockopt val of Some errno \<Rightarrow> Inl errno | None \<Rightarrow> Inr ())"

section \<open>Addresses\<close>

definition htons :: "u16 \<Rightarrow> u16" where
  "htons w = push_bit 8 w OR drop_bit 8 w"

lemma htons_htons [simp]: "htons (htons w) = w"
  by (rule bit_word_eqI) (auto simp: htons_def bit_simps)

record sockaddr_in =
  sin_family :: nat
  sin_port :: u16
  sin_addr :: u32

definition AF_INET :: nat where
  "AF_INET = 2"

text \<open>The bytes that a C function sees of \<open>address.data()\<close>.\<close>

definition c_str :: "string \<Rightarrow> string" where
  "c_str s = takeWhile (\<lambda>c. c \<noteq> nul) s"

definition make_sockaddr ::
  "(string \<Rightarrow> u32 option) \<Rightarrow> string \<Rightarrow> int \<Rightarrow> string + sockaddr_in" where
  "make_sockaddr inet_aton address port =
     (if port < 1 \<or> 65535 < port then Inl ''Invalid port number''
      else case inet_aton (c_str address) of
        None \<Rightarrow> Inl ''Failed to parse address''
      | Some addr \<Rightarrow>
          Inr \<lparr>sin_family = AF_INET, sin_port = htons (word_of_int port), sin_addr = addr\<rparr>)"

section \<open>Collections of sockets\<close>

text \<open>
  \<open>std::vector::erase\<close> of one element: every later element is move-assigned to its predecessor and
  the last one is destroyed.
\<close>

fun shift_down :: "socket \<Rightarrow> socket list \<Rightarrow> os \<Rightarrow> socket list \<times> os" where
  "shift_down hole [] os = ([], socket_destroy hole os)"
| "shift_down hole (s # ss) os =
     (let (hole', s', os1) = socket_move_assign hole s os; (ss', os2) = shift_down s' ss os1
      in (hole' # ss', os2))"

definition vector_erase :: "nat \<Rightarrow> socket list \<Rightarrow> os \<Rightarrow> socket list \<times> os" where
  "vector_erase i ss os =
     (let (ss', os') = shift_down (ss ! i) (drop (Suc i) ss) os in (take i ss @ ss', os'))"

fun vector_clear :: "socket list \<Rightarrow> os \<Rightarrow> os" where
  "vector_clear [] os = os"
| "vector_clear (s # ss) os = vector_clear ss (socket_destroy s os)"

section \<open>Ownership\<close>

text \<open>The valid descriptors are owned by one socket each, and these are the open ones.\<close>

definition owned_fds :: "socket list \<Rightarrow> int list" where
  "owned_fds ss = filter (\<lambda>fd. fd \<noteq> -1) (map m_fd ss)"

definition sockets_ok :: "socket list \<Rightarrow> os \<Rightarrow> bool" where
  "sockets_ok ss os \<longleftrightarrow>
     distinct (owned_fds ss) \<and> set (owned_fds ss) = os_open os \<and> os_bad_closes os = 0"

lemma shift_down_invalid:
  "m_fd hole = -1 \<Longrightarrow> \<forall>s \<in> set ss. is_valid s \<Longrightarrow> shift_down hole ss os = (ss, os)"
proof (induction ss arbitrary: hole)
  case Nil
  then show ?case by (simp add: socket_destroy_def socket_reset_def)
next
  case (Cons s ss)
  have "shift_down (s\<lparr>m_fd := -1\<rparr>) ss os = (ss, os)" using Cons by simp
  moreover have "hole\<lparr>m_fd := m_fd s\<rparr> = s" by (cases hole; cases s) simp
  ultimately show ?case using Cons.prems
    by (simp add: socket_move_assign_def socket_release_def socket_reset_def is_valid_def)
qed

lemma shift_down_closes:
  assumes "is_valid hole" and "\<forall>s \<in> set ss. is_valid s \<and> m_fd s \<noteq> m_fd hole"
  shows "shift_down hole ss os = (ss, close_fd (m_fd hole) os)"
proof (cases ss)
  case Nil
  then show ?thesis using assms(1) by (simp add: socket_destroy_def socket_reset_def is_valid_def)
next
  case (Cons s ss')
  have "shift_down (s\<lparr>m_fd := -1\<rparr>) ss' (close_fd (m_fd hole) os) = (ss', close_fd (m_fd hole) os)"
    using assms Cons by (intro shift_down_invalid) auto
  moreover have "hole\<lparr>m_fd := m_fd s\<rparr> = s" by (cases hole; cases s) simp
  ultimately show ?thesis using assms Cons
    by (auto simp: socket_move_assign_def socket_release_def socket_reset_def is_valid_def Let_def)
qed

lemma sockets_okI:
  assumes "sockets_ok ss os" and "\<forall>s \<in> set ss. is_valid s" and "i < length ss"
  shows "vector_erase i ss os = (take i ss @ drop (Suc i) ss, close_fd (m_fd (ss ! i)) os)"
    and "sockets_ok (take i ss @ drop (Suc i) ss) (close_fd (m_fd (ss ! i)) os)"
proof -
  have all: "owned_fds ss' = map m_fd ss'" if "set ss' \<subseteq> set ss" for ss'
    unfolding owned_fds_def using assms(2) that by (intro filter_True) (auto simp: is_valid_def)
  have sub: "set (take i ss) \<subseteq> set ss" "set (drop (Suc i) ss) \<subseteq> set ss"
    by (auto dest: in_set_takeD in_set_dropD)
  have split: "ss = take i ss @ ss ! i # drop (Suc i) ss" using assms(3) by (rule id_take_nth_drop)
  have dist: "distinct (map m_fd (take i ss @ ss ! i # drop (Suc i) ss))"
    and set: "set (map m_fd (take i ss @ ss ! i # drop (Suc i) ss)) = os_open os"
    using assms(1) all [of ss] unfolding split [symmetric] sockets_ok_def by auto
  have rest: "\<forall>s \<in> set (drop (Suc i) ss). is_valid s \<and> m_fd s \<noteq> m_fd (ss ! i)"
    using dist assms(2) sub by (auto simp: image_iff)
  show "vector_erase i ss os = (take i ss @ drop (Suc i) ss, close_fd (m_fd (ss ! i)) os)"
    using shift_down_closes [OF _ rest] assms(2,3) by (simp add: vector_erase_def)
  have "owned_fds (take i ss @ drop (Suc i) ss) = map m_fd (take i ss @ drop (Suc i) ss)"
    using sub by (intro all) auto
  then show "sockets_ok (take i ss @ drop (Suc i) ss) (close_fd (m_fd (ss ! i)) os)"
    using dist set assms(1) by (auto simp: sockets_ok_def close_fd_def)
qed

lemma sockets_ok_push:
  assumes "sockets_ok ss os" and "fd \<noteq> -1" and "fd \<notin> os_open os"
  shows "sockets_ok (ss @ [socket_of fd]) (os\<lparr>os_open := insert fd (os_open os)\<rparr>)"
  using assms by (auto simp: sockets_ok_def owned_fds_def socket_of_def)

lemma vector_clear_ok:
  "sockets_ok (ss @ ts) os \<Longrightarrow> sockets_ok ts (vector_clear ss os)"
proof (induction ss arbitrary: os)
  case Nil
  then show ?case by simp
next
  case (Cons s ss)
  have "sockets_ok (ss @ ts) (socket_destroy s os)"
    using Cons.prems
    by (auto simp: sockets_ok_def owned_fds_def socket_destroy_def socket_reset_def close_fd_def
        split: if_splits)
  then show ?case using Cons.IH by simp
qed

text \<open>
  The states of a family of socket objects, at most one of them holding a given descriptor, that a
  program reaches by opening, moving and resetting; destruction is a reset, and move construction
  is move assignment to an object without descriptor.
\<close>

inductive socket_reach :: "(nat \<Rightarrow> socket) \<Rightarrow> os \<Rightarrow> bool" where
  reach_start: "socket_reach (\<lambda>_. socket_new) \<lparr>os_open = {}, os_bad_closes = 0\<rparr>"
| reach_open: "socket_reach ss os \<Longrightarrow> fd \<noteq> -1 \<Longrightarrow> fd \<notin> os_open os \<Longrightarrow> ss i = socket_new \<Longrightarrow>
    socket_reach (ss(i := socket_of fd)) (os\<lparr>os_open := insert fd (os_open os)\<rparr>)"
| reach_move: "socket_reach ss os \<Longrightarrow> i \<noteq> j \<Longrightarrow> socket_move_assign (ss i) (ss j) os = (a, b, os') \<Longrightarrow>
    socket_reach (ss(i := a, j := b)) os'"
| reach_reset: "socket_reach ss os \<Longrightarrow> socket_reset (ss i) (-1) os = (a, os') \<Longrightarrow>
    socket_reach (ss(i := a)) os'"

text \<open>The owner of each open descriptor.\<close>

definition owners :: "(nat \<Rightarrow> socket) \<Rightarrow> (int \<rightharpoonup> nat) \<Rightarrow> bool" where
  "owners ss own \<longleftrightarrow> (\<forall>fd i. own fd = Some i \<longleftrightarrow> fd \<noteq> -1 \<and> m_fd (ss i) = fd)"

lemma ownersD: "owners ss own \<Longrightarrow> own fd = Some i \<longleftrightarrow> fd \<noteq> -1 \<and> m_fd (ss i) = fd"
  by (simp add: owners_def)

lemma owners_invalid:
  assumes "owners ss own" and "m_fd a = -1"
  shows "owners (ss(i := a)) (own(m_fd (ss i) := None))"
  unfolding owners_def
proof (intro allI)
  fix fd x
  show "(own(m_fd (ss i) := None)) fd = Some x \<longleftrightarrow> fd \<noteq> -1 \<and> m_fd ((ss(i := a)) x) = fd"
    using ownersD [OF assms(1), of fd x] ownersD [OF assms(1), of fd i] assms(2)
    by (cases "x = i"; cases "fd = m_fd (ss i)") auto
qed

lemma owners_take:
  assumes "owners ss own" and "m_fd (ss i) = -1" and "fd \<noteq> -1" and "own fd = None"
  shows "owners (ss(i := \<lparr>m_fd = fd\<rparr>)) (own(fd \<mapsto> i))"
  unfolding owners_def
proof (intro allI)
  fix fd' x
  show "(own(fd \<mapsto> i)) fd' = Some x \<longleftrightarrow> fd' \<noteq> -1 \<and> m_fd ((ss(i := \<lparr>m_fd = fd\<rparr>)) x) = fd'"
    using ownersD [OF assms(1), of fd' x] assms(2-)
    by (cases "x = i"; cases "fd' = fd") auto
qed

lemma socket_eta: "\<lparr>m_fd = m_fd s\<rparr> = s"
  by (cases s) simp

lemma close_owned:
  assumes "owners ss own" and "os_open os = dom own" and "os_bad_closes os = 0"
    and "os' = (if m_fd (ss i) \<noteq> -1 then close_fd (m_fd (ss i)) os else os)"
  shows "os_bad_closes os' = 0" and "os_open os' = dom own - {m_fd (ss i)}"
proof -
  have "own (-1) = None" using ownersD [OF assms(1), of "-1"] by (cases "own (-1)") auto
  moreover have "m_fd (ss i) \<noteq> -1 \<Longrightarrow> own (m_fd (ss i)) = Some i"
    using ownersD [OF assms(1), of "m_fd (ss i)" i] by simp
  ultimately show "os_bad_closes os' = 0" and "os_open os' = dom own - {m_fd (ss i)}"
    using assms(2-4) by (cases "m_fd (ss i) = -1"; auto simp: close_fd_def)+
qed

lemma socket_reach_owners:
  "socket_reach ss os \<Longrightarrow> os_bad_closes os = 0 \<and> (\<exists>own. owners ss own \<and> os_open os = dom own)"
proof (induction rule: socket_reach.induct)
  case reach_start
  then show ?case by (auto simp: owners_def socket_new_def intro!: exI [of _ Map.empty])
next
  case (reach_open ss os fd i)
  then obtain own where own: "owners ss own" "os_open os = dom own" "os_bad_closes os = 0" by blast
  have "owners (ss(i := \<lparr>m_fd = fd\<rparr>)) (own(fd \<mapsto> i))"
    using reach_open own by (intro owners_take) (auto simp: socket_new_def)
  moreover have "os_bad_closes (os\<lparr>os_open := insert fd (os_open os)\<rparr>) = 0"
    and "os_open (os\<lparr>os_open := insert fd (os_open os)\<rparr>) = dom (own(fd \<mapsto> i))"
    using reach_open.IH own(2) by simp_all
  ultimately show ?case unfolding socket_of_def by blast
next
  case (reach_move ss os i j a b os')
  then obtain own where own: "owners ss own" "os_open os = dom own" "os_bad_closes os = 0" by blast
  let ?fi = "m_fd (ss i)"
  let ?fj = "m_fd (ss j)"
  have b: "m_fd b = -1"
    using reach_move.hyps(3) by (auto simp: socket_move_assign_def socket_release_def split: prod.splits)
  show ?case
  proof (cases "?fi = ?fj")
    case True
    then have "?fi = -1" using ownersD [OF own(1), of ?fi i] ownersD [OF own(1), of ?fi j] reach_move.hyps(2)
      by auto
    then have "a = ss i" "b = ss j" "os' = os"
      using reach_move.hyps(3) True b
      by (auto simp: socket_move_assign_def socket_release_def socket_reset_def intro: socket.equality)
    then show ?thesis using reach_move.IH by simp
  next
    case False
    then have a: "a = \<lparr>m_fd = ?fj\<rparr>" and os': "os' = (if ?fi \<noteq> -1 then close_fd ?fi os else os)"
      using reach_move.hyps(3)
      by (auto simp: socket_move_assign_def socket_release_def socket_reset_def intro: socket.equality)
    define own1 where "own1 = (own(?fi := None))(?fj := None)"
    have free: "owners (ss(i := \<lparr>m_fd = -1\<rparr>, j := b)) own1"
      using owners_invalid [OF owners_invalid [OF own(1), of "\<lparr>m_fd = -1\<rparr>" i] b, of j] reach_move.hyps(2)
      by (simp add: own1_def)
    have res: "ss(i := a, j := b) = (ss(i := \<lparr>m_fd = -1\<rparr>, j := b))(i := \<lparr>m_fd = ?fj\<rparr>)"
      using reach_move.hyps(2) by (simp add: a fun_upd_twist)
    note dom = close_owned [OF own os']
    show ?thesis
    proof (cases "?fj = -1")
      case True
      then have "owners (ss(i := a, j := b)) own1" using free reach_move.hyps(2) by (simp add: res fun_upd_twist)
      moreover have "own (-1) = None" using ownersD [OF own(1), of "-1"] by (cases "own (-1)") auto
      then have "dom own - {?fi} = dom own1" using True by (auto simp: own1_def)
      then have "os_open os' = dom own1" using dom(2) by simp
      ultimately show ?thesis using dom(1) by blast
    next
      case valid: False
      have "owners (ss(i := a, j := b)) (own1(?fj \<mapsto> i))"
        unfolding res using free valid reach_move.hyps(2)
        by (intro owners_take) (simp_all add: own1_def)
      moreover have "own ?fj = Some j" using ownersD [OF own(1), of ?fj j] valid by simp
      then have "dom own - {?fi} = dom (own1(?fj \<mapsto> i))" using False by (auto simp: own1_def)
      then have "os_open os' = dom (own1(?fj \<mapsto> i))" using dom(2) by simp
      ultimately show ?thesis using dom(1) by blast
    qed
  qed
next
  case (reach_reset ss os i a os')
  then obtain own where own: "owners ss own" "os_open os = dom own" "os_bad_closes os = 0" by blast
  have m: "m_fd a = -1" "os' = (if m_fd (ss i) \<noteq> -1 then close_fd (m_fd (ss i)) os else os)"
    using reach_reset.hyps(2) by (auto simp: socket_reset_def split: if_splits)
  note c = close_owned [OF own m(2)]
  have "os_open os' = dom (own(m_fd (ss i) := None))" using c(2) by simp
  then show ?case using owners_invalid [OF own(1) m(1), of i] c(1) by blast
qed

section \<open>Properties\<close>



text \<open>Erasing one connection's socket from a vector, which moves every later element one place
  down and destroys the last, closes exactly the erased descriptor and keeps all others open.\<close>

theorem vector_erase_correct:
  assumes "sockets_ok ss os" and "\<forall>s \<in> set ss. is_valid s" and "i < length ss"
  shows "\<exists>os'. vector_erase i ss os = (take i ss @ drop (Suc i) ss, os')
    \<and> os_open os' = os_open os - {m_fd (ss ! i)} \<and> os_bad_closes os' = 0"
proof -
  have "os_open (close_fd (m_fd (ss ! i)) os) = os_open os - {m_fd (ss ! i)}"
    by (auto simp: close_fd_def)
  then show ?thesis using sockets_okI [OF assms] by (auto simp: sockets_ok_def)
qed

theorem vector_erase_correct_witness:
  "\<exists>os'. vector_erase 0 [socket_of 4, socket_of 5] \<lparr>os_open = {4, 5}, os_bad_closes = 0\<rparr>
    = ([socket_of 5], os') \<and> os_open os' = {5}"
  using vector_erase_correct [of "[socket_of 4, socket_of 5]" "\<lparr>os_open = {4, 5}, os_bad_closes = 0\<rparr>" 0]
  by (auto simp: sockets_ok_def owned_fds_def socket_of_def is_valid_def)

text \<open>\<open>set_nonblocking\<close> sets or clears the flag it is asked for and leaves every other flag of
  the descriptor as it was.\<close>

theorem set_nonblocking_flags:
  assumes "set_nonblocking (Inr flags) setfl enabled = Inr flags'"
  shows "bit flags' 11 = enabled \<and> (\<forall>n < 32. n \<noteq> 11 \<longrightarrow> bit flags' n = bit flags n)"
proof -
  have flag: "O_NONBLOCK = 2 ^ 11" by (simp add: O_NONBLOCK_def)
  have mask: "bit O_NONBLOCK n \<longleftrightarrow> n = 11" for n
    unfolding flag by (subst bit_exp_iff) auto
  have "flags' = (if enabled then flags OR O_NONBLOCK else flags AND NOT O_NONBLOCK)"
    using assms by (auto simp: set_nonblocking_def Let_def split: option.splits if_splits)
  then show ?thesis by (auto simp: bit_simps mask)
qed

theorem set_nonblocking_flags_witness:
  "set_nonblocking (Inr 0x802) (\<lambda>_. None) False = Inr 0x002 \<and> bit (0x002 :: u32) 11 = False"
proof -
  have "set_nonblocking (Inr 0x802) (\<lambda>_. None) False = Inr 0x002"
    by (simp add: set_nonblocking_def O_NONBLOCK_def)
  then show ?thesis using set_nonblocking_flags [of "0x802" "\<lambda>_. None" False "0x002"] by simp
qed

text \<open>\<open>make_sockaddr\<close> succeeds exactly for a port from 1 to 65535 and an address that
  \<open>inet_aton\<close> accepts, and the port in the result converts back to the given one.\<close>

theorem make_sockaddr_correct:
  "((\<exists>a. make_sockaddr inet_aton address port = Inr a)
     \<longleftrightarrow> 1 \<le> port \<and> port \<le> 65535 \<and> inet_aton (c_str address) \<noteq> None)
   \<and> (\<forall>a. make_sockaddr inet_aton address port = Inr a \<longrightarrow>
     sin_family a = AF_INET \<and> inet_aton (c_str address) = Some (sin_addr a)
     \<and> uint (htons (sin_port a)) = port)"
  by (auto simp: make_sockaddr_def uint_word_of_int split: option.splits if_splits)

theorem make_sockaddr_correct_witness:
  "\<exists>a. make_sockaddr (\<lambda>s. if s = ''127.0.0.1'' then Some 0x0100007f else None) ''127.0.0.1'' 6337 = Inr a
    \<and> uint (htons (sin_port a)) = 6337"
proof -
  let ?aton = "\<lambda>s. if s = ''127.0.0.1'' then Some 0x0100007f else None"
  obtain a where a: "make_sockaddr ?aton ''127.0.0.1'' 6337 = Inr a"
    using make_sockaddr_correct [of ?aton "''127.0.0.1''" 6337] by (auto simp: c_str_def)
  then show ?thesis using make_sockaddr_correct [of ?aton "''127.0.0.1''" 6337] by blast
qed

end
