(* ===== verification/Server.thy ===== *)
theory Server
  imports Executor Console Socket
begin

text \<open>
  The server (server/include/attokv_server/server.h, server/src/server.cpp): the poll loop over the
  listening socket and the connections, one request and one reply at a time per connection.

  What the server acts on besides its own state is the \<open>world\<close>: the descriptors of the process, the
  scripts of every descriptor with the bytes sent to it, the standard error output, and the executor
  with its store.  The fields \<open>h_\<close> are a history that no code reads: the commands that were executed, with
  their results, and for each connection the replies that were queued, the positions of its requests
  among the commands, and the bytes that were received.

  A result is a fault, a call that has not returned (\<open>None\<close>), or a value.
\<close>

section \<open>State\<close>

type_synonym 'a io_run = "'a option run"

definition bind_io :: "'a io_run \<Rightarrow> ('a \<Rightarrow> 'b io_run) \<Rightarrow> 'b io_run" where
  "bind_io m f = bind_run m (\<lambda>x. case x of None \<Rightarrow> Inr None | Some a \<Rightarrow> f a)"

definition done_io :: "'a \<Rightarrow> 'a io_run" where
  "done_io a = Inr (Some a)"

lemma bind_io_done_simp [simp]: "bind_io (done_io a) f = f a"
  by (simp add: bind_io_def done_io_def)

lemma bind_io_eq_Some:
  "bind_io m f = Inr (Some b) \<longleftrightarrow> (\<exists>a. m = Inr (Some a) \<and> f a = Inr (Some b))"
  by (cases m) (auto simp: bind_io_def split: option.splits)

lemma bind_ioE:
  assumes "bind_io m f = Inr (Some b)"
  obtains a where "m = Inr (Some a)" and "f a = Inr (Some b)"
  using assms by (auto simp: bind_io_eq_Some)

lemma done_io_eq [simp]: "done_io a = Inr (Some b) \<longleftrightarrow> a = b"
  by (simp add: done_io_def)

record client_connection =
  cc_socket :: socket
  cc_reader :: message_reader
  cc_writer :: message_writer
  cc_close_after_write :: bool

record server =
  m_listen_socket :: socket
  m_clients :: "client_connection list"

text \<open>What the server prints: the line of \<open>start\<close>, a warning or an error of \<open>accept_clients\<close> with the error
  number, and what \<open>log_io_error\<close> prints.\<close>

datatype log_entry =
    Listening string int
  | Accept_Warning int
  | Setup_Failed string int
  | Io_Error string io_error

record world =
  w_os :: os
  w_recv :: "int \<Rightarrow> recv_event list"
  w_send :: "int \<Rightarrow> send_event list"
  w_sent :: "int \<Rightarrow> string"
  w_log :: "log_entry list"
  w_executor :: executor
  h_commands :: "(string \<times> command_result) list"
  h_replies :: "int \<Rightarrow> string list"
  h_requests :: "int \<Rightarrow> nat list"
  h_received :: "int \<Rightarrow> string"

text \<open>The bytes that are still in a script, and a step from its rest \<open>es\<close> on: what was taken out of it
  has been received on the connection.\<close>

fun pending :: "recv_event list \<Rightarrow> string" where
  "pending [] = []"
| "pending (Received bs # es) = bs @ pending es"
| "pending (Recv_Failed e # es) = pending es"

definition taken :: "recv_event list \<Rightarrow> recv_event list \<Rightarrow> string" where
  "taken es es' = take (length (pending es) - length (pending es')) (pending es)"

definition received :: "int \<Rightarrow> recv_event list \<Rightarrow> world \<Rightarrow> world" where
  "received fd es w =
     w\<lparr>w_recv := (w_recv w)(fd := es),
       h_received := (h_received w)(fd := h_received w fd @ taken (w_recv w fd) es)\<rparr>"

lemma received_simps [simp]:
  "w_os (received fd es w) = w_os w" "w_recv (received fd es w) = (w_recv w)(fd := es)"
  "w_send (received fd es w) = w_send w" "w_sent (received fd es w) = w_sent w"
  "w_log (received fd es w) = w_log w" "w_executor (received fd es w) = w_executor w"
  "h_commands (received fd es w) = h_commands w" "h_replies (received fd es w) = h_replies w"
  "h_requests (received fd es w) = h_requests w"
  "h_received (received fd es w) = (h_received w)(fd := h_received w fd @ taken (w_recv w fd) es)"
  by (simp_all add: received_def)

definition POLLIN :: u16 where "POLLIN = 1"
definition POLLOUT :: u16 where "POLLOUT = 4"
definition POLLERR :: u16 where "POLLERR = 8"
definition POLLHUP :: u16 where "POLLHUP = 16"
definition POLLNVAL :: u16 where "POLLNVAL = 32"

definition has_event :: "u16 \<Rightarrow> u16 \<Rightarrow> bool" where
  "has_event events bits \<longleftrightarrow> events AND bits \<noteq> 0"

section \<open>One connection\<close>

definition log_line :: "log_entry \<Rightarrow> world \<Rightarrow> world" where
  "log_line entry w = w\<lparr>w_log := w_log w @ [entry]\<rparr>"

lemma log_line_simps [simp]:
  "w_os (log_line entry w) = w_os w" "w_recv (log_line entry w) = w_recv w"
  "w_send (log_line entry w) = w_send w" "w_sent (log_line entry w) = w_sent w"
  "w_log (log_line entry w) = w_log w @ [entry]" "w_executor (log_line entry w) = w_executor w"
  "h_commands (log_line entry w) = h_commands w" "h_replies (log_line entry w) = h_replies w"
  "h_requests (log_line entry w) = h_requests w" "h_received (log_line entry w) = h_received w"
  by (simp_all add: log_line_def)

definition log_io_error :: "string \<Rightarrow> io_error \<Rightarrow> world \<Rightarrow> world" where
  "log_io_error operation e w = log_line (Io_Error operation e) w"

text \<open>The text of an entry; \<open>warn\<close> prints the name of the program first.\<close>

fun log_output :: "string \<Rightarrow> (int \<Rightarrow> string) \<Rightarrow> log_entry \<Rightarrow> console" where
  "log_output program strerror (Listening address port) =
     Out (''Listening on '' @ address @ '':'' @ int_text port @ [LF])"
| "log_output program strerror (Accept_Warning errno) =
     Err (program @ '': accept: '' @ strerror errno @ [LF])"
| "log_output program strerror (Setup_Failed msg errno) = Err (msg @ '': '' @ strerror errno @ [LF])"
| "log_output program strerror (Io_Error operation e) = error_line strerror operation e"

text \<open>The handler's block for a complete message: run the command, queue the reply.\<close>

definition handle_request ::
  "client_connection \<Rightarrow> string \<Rightarrow> world \<Rightarrow> (bool \<times> client_connection \<times> world) io_run" where
  "handle_request client input w =
     bind_run (run_command (w_executor w) input) (\<lambda>(result, ex).
       let fd = native_handle (cc_socket client);
           w1 = w\<lparr>w_executor := ex, h_commands := h_commands w @ [(input, result)],
                  h_requests := (h_requests w)(fd := h_requests w fd @ [length (h_commands w)])\<rparr>
       in if res_stop result \<and> res_output result = [] then done_io (False, client, w1)
          else case queue (cc_writer client) (res_output result) of
            (Inl e, writer) \<Rightarrow>
              done_io (False, client\<lparr>cc_writer := writer\<rparr>, log_io_error ''Error queuing message'' e w1)
          | (Inr _, writer) \<Rightarrow>
              done_io (True,
                client\<lparr>cc_writer := writer, cc_close_after_write := res_stop result\<rparr>,
                w1\<lparr>h_replies := (h_replies w1)(fd := h_replies w1 fd @ [res_output result])\<rparr>))"

text \<open>The block for \<open>POLLIN\<close>; \<open>False\<close> stands for the early returns of \<open>false\<close>.\<close>

definition handle_readable ::
  "client_connection \<Rightarrow> world \<Rightarrow> (bool \<times> client_connection \<times> world) io_run" where
  "handle_readable client w =
     (let fd = native_handle (cc_socket client)
      in case read_from (cc_reader client) (w_recv w fd) of
           None \<Rightarrow> Inr None
         | Some (res, reader, es) \<Rightarrow>
             let client1 = client\<lparr>cc_reader := reader\<rparr>;
                 w1 = received fd es w
             in case res of
                  Inl e \<Rightarrow> done_io (False, client1, log_io_error ''Error reading message'' e w1)
                | Inr r \<Rightarrow>
                    (case status r of
                       Closed \<Rightarrow> done_io (False, client1, w1)
                     | Complete \<Rightarrow> handle_request client1 (message r) w1
                     | Incomplete \<Rightarrow> done_io (True, client1, w1)))"

definition handle_writable ::
  "client_connection \<Rightarrow> world \<Rightarrow> (bool \<times> client_connection \<times> world) io_run" where
  "handle_writable client w =
     (let fd = native_handle (cc_socket client)
      in case write_to (cc_writer client) (w_send w fd) (w_sent w fd) of
           None \<Rightarrow> Inr None
         | Some (res, writer, es, out) \<Rightarrow>
             let client1 = client\<lparr>cc_writer := writer\<rparr>;
                 w1 = w\<lparr>w_send := (w_send w)(fd := es), w_sent := (w_sent w)(fd := out)\<rparr>
             in case res of
                  Inl e \<Rightarrow> done_io (False, client1, log_io_error ''Error writing message'' e w1)
                | Inr complete \<Rightarrow>
                    done_io (\<not> (complete \<and> cc_close_after_write client1), client1, w1))"

definition handle_client_events ::
  "client_connection \<Rightarrow> u16 \<Rightarrow> world \<Rightarrow> (bool \<times> client_connection \<times> world) io_run" where
  "handle_client_events client events w =
     (if has_event events (POLLERR OR POLLNVAL) then done_io (False, client, w)
      else
        bind_io (if has_event events POLLIN then handle_readable client w
                 else done_io (True, client, w)) (\<lambda>(keep, client1, w1).
        if \<not> keep then done_io (False, client1, w1)
        else
          bind_io (if has_event events POLLOUT then handle_writable client1 w1
                   else done_io (True, client1, w1)) (\<lambda>(keep, client2, w2).
          if \<not> keep then done_io (False, client2, w2)
          else done_io (\<not> has_event events POLLHUP, client2, w2))))"

section \<open>The loop over the connections\<close>

definition erase_client ::
  "nat \<Rightarrow> client_connection list \<Rightarrow> world \<Rightarrow> client_connection list \<times> world" where
  "erase_client index clients w =
     (take index clients @ drop (Suc index) clients,
      w\<lparr>w_os := snd (vector_erase index (map cc_socket clients) (w_os w))\<rparr>)"

text \<open>\<open>for (index = size; index-- > 0;)\<close>; the descriptor of client \<open>index\<close> is at \<open>index + 1\<close>.\<close>

fun serve_clients ::
  "nat \<Rightarrow> u16 list \<Rightarrow> client_connection list \<Rightarrow> world \<Rightarrow> (client_connection list \<times> world) io_run" where
  "serve_clients 0 revents clients w = done_io (clients, w)"
| "serve_clients (Suc index) revents clients w =
     (if length revents \<le> index + 1 \<or> length clients \<le> index then Inl Out_Of_Bounds
      else if revents ! (index + 1) = 0 then serve_clients index revents clients w
      else
        bind_io (handle_client_events (clients ! index) (revents ! (index + 1)) w)
          (\<lambda>(keep, client, w1).
             let clients1 = clients[index := client]
             in if keep then serve_clients index revents clients1 w1
                else let (clients2, w2) = erase_client index clients1 w1
                     in serve_clients index revents clients2 w2))"

section \<open>Accepting\<close>

text \<open>
  The outcome of a call of \<open>accept\<close>: an error number, or a descriptor with what the calls of
  \<open>fcntl\<close> and \<open>setsockopt\<close> on it will return.
\<close>

datatype accept_event =
    Accept_Failed int
  | Accept_Client int "int + u32" "u32 \<Rightarrow> int option" "int \<Rightarrow> int option"

text \<open>A new connection: nothing has been sent on it, and its history is empty.\<close>

definition open_connection :: "int \<Rightarrow> world \<Rightarrow> world" where
  "open_connection fd w =
     w\<lparr>w_os := (w_os w)\<lparr>os_open := insert fd (os_open (w_os w))\<rparr>,
       w_sent := (w_sent w)(fd := []), h_replies := (h_replies w)(fd := []),
       h_requests := (h_requests w)(fd := []), h_received := (h_received w)(fd := [])\<rparr>"

fun accept_clients ::
  "accept_event list \<Rightarrow> client_connection list \<Rightarrow> world
    \<Rightarrow> (client_connection list \<times> world \<times> accept_event list) option" where
  "accept_clients [] clients w = None"
| "accept_clients (Accept_Failed errno # es) clients w =
     (if errno = EINTR then accept_clients es clients w
      else if would_block errno then Some (clients, w, es)
      else Some (clients, log_line (Accept_Warning errno) w, es))"
| "accept_clients (Accept_Client fd getfl setfl setsockopt # es) clients w =
     (let client_socket = socket_of fd; w1 = open_connection fd w;
          dropped = w1\<lparr>w_os := socket_destroy client_socket (w_os w1)\<rparr>
      in if \<not> is_valid client_socket then Some (clients, w, es)
         else case set_nonblocking getfl setfl True of
           Inl errno \<Rightarrow> accept_clients es clients
             (log_line (Setup_Failed ''Failed to make client socket nonblocking'' errno) dropped)
         | Inr _ \<Rightarrow>
             (case set_nodelay setsockopt True of
                Inl errno \<Rightarrow> accept_clients es clients
                  (log_line (Setup_Failed ''Failed to configure client socket'' errno) dropped)
              | Inr _ \<Rightarrow>
                  accept_clients es
                    (clients @ [\<lparr>cc_socket = client_socket, cc_reader = reader_new,
                                 cc_writer = writer_new, cc_close_after_write = False\<rparr>]) w1))"

section \<open>The poll loop\<close>

datatype poll_event = Poll_Failed int | Polled "u16 list"

text \<open>\<open>do poll while (poll_result == -1 && errno == EINTR)\<close>.\<close>

fun poll_loop :: "poll_event list \<Rightarrow> (int + u16 list) option" where
  "poll_loop [] = None"
| "poll_loop (Poll_Failed errno # es) = (if errno = EINTR then poll_loop es else Some (Inl errno))"
| "poll_loop (Polled revents # es) = Some (Inr revents)"

text \<open>The events that are asked for: the listening socket first, then the clients.\<close>

definition poll_interest :: "server \<Rightarrow> u16 list" where
  "poll_interest srv =
     POLLIN # map (\<lambda>client. if has_pending_message (cc_writer client) then POLLOUT else POLLIN)
                (m_clients srv)"

text \<open>How an iteration ends: the loop goes on, it has ended, or the process exits through \<open>err\<close> or \<open>errx\<close>,
  with a message and the error number behind it, if there is one.\<close>

type_synonym exit_message = "string \<times> int option"

datatype iteration = Continue server world | Loop_Ended world | Exit_Failure exit_message world

text \<open>\<open>err\<close> prints the name of the program, the message and the text of the error number.  \<open>errx\<close> prints no
  error number of its own; the message of an \<open>std::error_code\<close> that is part of it has the same place.\<close>

fun exit_line :: "string \<Rightarrow> (int \<Rightarrow> string) \<Rightarrow> exit_message \<Rightarrow> console" where
  "exit_line program strerror (msg, None) = Err (program @ '': '' @ msg @ [LF])"
| "exit_line program strerror (msg, Some errno) =
     Err (program @ '': '' @ msg @ '': '' @ strerror errno @ [LF])"

definition server_iteration ::
  "poll_event list \<Rightarrow> accept_event list \<Rightarrow> server \<Rightarrow> world \<Rightarrow> iteration io_run" where
  "server_iteration polls accept_script srv w =
     (if \<not> is_valid (m_listen_socket srv) then done_io (Loop_Ended w)
      else case poll_loop polls of
        None \<Rightarrow> Inr None
      | Some (Inl errno) \<Rightarrow> done_io (Exit_Failure (''poll'', Some errno) w)
      | Some (Inr revents) \<Rightarrow>
          bind_io (serve_clients (length (m_clients srv)) revents (m_clients srv) w) (\<lambda>(clients, w1).
            if has_event (revents ! 0) (POLLERR OR POLLHUP OR POLLNVAL)
            then done_io (Exit_Failure (''Listening socket failed'', None) w1)
            else if has_event (revents ! 0) POLLIN then
              (case accept_clients accept_script clients w1 of
                 None \<Rightarrow> Inr None
               | Some (clients', w2, _) \<Rightarrow> done_io (Continue (srv\<lparr>m_clients := clients'\<rparr>) w2))
            else done_io (Continue (srv\<lparr>m_clients := clients\<rparr>) w1)))"

definition server_close :: "server \<Rightarrow> os \<Rightarrow> server \<times> os" where
  "server_close srv os =
     (let os1 = vector_clear (map cc_socket (m_clients srv)) os;
          (listen, os2) = socket_reset (m_listen_socket srv) (-1) os1
      in (srv\<lparr>m_clients := [], m_listen_socket := listen\<rparr>, os2))"

section \<open>Starting\<close>

text \<open>
  \<open>start\<close>: what the calls return is an argument (\<open>None\<close>: success, otherwise the error number); every
  failure ends the process through \<open>err\<close> or \<open>errx\<close>, which is \<open>Inl\<close>.  \<open>inet_aton\<close> sets no error number: \<open>err\<close>
  then reports the one that an earlier call has left behind.
\<close>

record start_calls =
  call_socket :: int
  call_socket_errno :: int
  call_last_errno :: int
  call_inet_aton :: "string \<Rightarrow> u32 option"
  call_bind :: "sockaddr_in \<Rightarrow> int option"
  call_listen :: "int \<Rightarrow> int option"
  call_getfl :: "int + u32"
  call_setfl :: "u32 \<Rightarrow> int option"

definition server_start ::
  "start_calls \<Rightarrow> string \<Rightarrow> int \<Rightarrow> server \<Rightarrow> os \<Rightarrow> exit_message + server \<times> os \<times> log_entry" where
  "server_start calls address port srv os =
     (let socket = socket_of (call_socket calls)
      in if \<not> is_valid socket then Inl (''socket'', Some (call_socket_errno calls))
         else let os1 = os\<lparr>os_open := insert (call_socket calls) (os_open os)\<rparr>
         in case make_sockaddr (call_inet_aton calls) address port of
              Inl e \<Rightarrow> Inl (''Failed to construct address: '' @ e, Some (call_last_errno calls))
            | Inr sock_addr \<Rightarrow>
                (case call_bind calls sock_addr of
                   Some errno \<Rightarrow> Inl (''bind'', Some errno)
                 | None \<Rightarrow>
                (case call_listen calls 64 of
                   Some errno \<Rightarrow> Inl (''listen'', Some errno)
                 | None \<Rightarrow>
                (case set_nonblocking (call_getfl calls) (call_setfl calls) True of
                   Inl errno \<Rightarrow> Inl (''Failed to make listening socket nonblocking'', Some errno)
                 | Inr _ \<Rightarrow>
                    let (listen, rest, os2) = socket_move_assign (m_listen_socket srv) socket os1
                    in Inr (srv\<lparr>m_listen_socket := listen\<rparr>, socket_destroy rest os2,
                         Listening (inet_ntoa (sin_addr sock_addr)) port)))))"

section \<open>Invariants\<close>

lemma run_command_stop:
  assumes "ex_commands ex = builtin_table" and run: "run_command ex input = Inr (r, ex')"
  shows "ex_commands ex' = builtin_table" and "res_stop r \<Longrightarrow> res_output r = []"
    and "tokens input = t # ts \<Longrightarrow> arity t = None \<Longrightarrow> r = error_result (no_such_command t) \<and> ex' = ex"
proof -
  obtain p where p: "parse_command ex input = Inr p" and
    c: "(case pr_command p of
         None \<Rightarrow> Inr (default_result\<lparr>res_error := True, res_output := pr_error p\<rparr>, ex)
       | Some command \<Rightarrow>
           bind_run (spec_run command
                       \<lparr>ctx_store = ex_store ex, ctx_args = take (pr_arg_count p) (pr_args p)\<rparr>)
             (\<lambda>(result, store). Inr (result, ex\<lparr>ex_store := store\<rparr>))) = Inr (r, ex')"
    using run by (auto simp: run_command_def bind_run_eq_Inr)
  have p_eq: "p = (case tokens input of
       [] \<Rightarrow> parse_error ''Empty input''
     | operation # ts \<Rightarrow>
        (case builtin_table operation of
           None \<Rightarrow> parse_error (no_such_command operation)
         | Some command \<Rightarrow>
             if length ts \<noteq> nat (required_args command) then parse_error (invalid_args operation)
             else \<lparr>pr_command = Some command,
                   pr_args = ts @ replicate (k_max_command_args - length ts) [],
                   pr_arg_count = length ts, pr_error = []\<rparr>))"
    using parse_command_table [OF assms(1), of input] p by (simp only: sum.inject)
  have mem: "spec \<in> set builtin" if "pr_command p = Some spec" for spec
    using that builtin_table_mem unfolding p_eq
    by (auto simp: parse_error_def split: list.splits option.splits if_splits)
  show "ex_commands ex' = builtin_table" and "res_stop r \<Longrightarrow> res_output r = []"
  proof -
    have "ex_commands ex' = builtin_table \<and> (res_stop r \<longrightarrow> res_output r = [])"
    proof (cases "pr_command p")
      case None
      then show ?thesis using c assms(1) by (auto simp: default_result_def)
    next
      case (Some spec)
      then obtain st where "spec_run spec
          \<lparr>ctx_store = ex_store ex, ctx_args = take (pr_arg_count p) (pr_args p)\<rparr> = Inr (r, st)"
        and "ex' = ex\<lparr>ex_store := st\<rparr>"
        using c by (auto simp: bind_run_eq_Inr)
      then show ?thesis using builtin_stop [OF mem [OF Some]] assms(1) by auto
    qed
    then show "ex_commands ex' = builtin_table" and "res_stop r \<Longrightarrow> res_output r = []" by auto
  qed
  show "r = error_result (no_such_command t) \<and> ex' = ex" if "tokens input = t # ts" "arity t = None"
    using that c unfolding p_eq arity_table by (auto simp: parse_error_def error_result_def)
qed

text \<open>A connection that the server keeps, and the parts of the world that belong to it.\<close>

abbreviation cc_fd :: "client_connection \<Rightarrow> int" where
  "cc_fd client \<equiv> m_fd (cc_socket client)"

definition conn_ok :: "world \<Rightarrow> client_connection \<Rightarrow> bool" where
  "conn_ok w client \<longleftrightarrow> is_valid (cc_socket client) \<and> reader_inv (cc_reader client)
     \<and> writer_inv (cc_writer client) \<and> \<not> cc_close_after_write client
     \<and> w_sent w (cc_fd client) @ remaining (cc_writer client)
         = concat (map frame (h_replies w (cc_fd client)))"

text \<open>
  The executor is where running the commands of the history leads to, the commands came as messages
  within the limit, and no error that was logged is of the kind \<open>invalid_frame\<close>.
\<close>

definition world_ok :: "world \<Rightarrow> bool" where
  "world_ok w \<longleftrightarrow>
     run_commands (register_builtins executor_new) (map fst (h_commands w))
       = Inr (map snd (h_commands w), w_executor w)
     \<and> ex_commands (w_executor w) = builtin_table
     \<and> (\<forall>input \<in> set (map fst (h_commands w)). length input \<le> MAX_MESSAGE_SIZE)
     \<and> (\<forall>op e. Io_Error op e \<in> set (w_log w) \<longrightarrow> err_kind e \<noteq> Invalid_Frame)"

lemma run_commands_append:
  "run_commands ex (xs @ ys) =
     bind_run (run_commands ex xs) (\<lambda>(rs, ex1).
     bind_run (run_commands ex1 ys) (\<lambda>(rs', ex2). Inr (rs @ rs', ex2)))"
proof (induction xs arbitrary: ex)
  case Nil
  then show ?case by (cases "run_commands ex ys") auto
next
  case (Cons x xs)
  then show ?case
    by (cases "run_command ex x")
       (auto simp: Cons.IH bind_run_def split: sum.splits prod.splits)
qed

text \<open>What a step on the connection \<open>client\<close> may change.\<close>

definition touches_only :: "int \<Rightarrow> world \<Rightarrow> world \<Rightarrow> bool" where
  "touches_only fd w w' \<longleftrightarrow> w_os w' = w_os w
     \<and> (\<forall>f. f \<noteq> fd \<longrightarrow> w_sent w' f = w_sent w f \<and> h_replies w' f = h_replies w f)"

lemma touches_only_refl [simp]: "touches_only fd w w"
  by (simp add: touches_only_def)

lemma touches_only_trans:
  "touches_only fd w w1 \<Longrightarrow> touches_only fd w1 w2 \<Longrightarrow> touches_only fd w w2"
  by (simp add: touches_only_def)

lemma conn_ok_other:
  "touches_only fd w w' \<Longrightarrow> cc_fd client \<noteq> fd \<Longrightarrow> conn_ok w client \<Longrightarrow> conn_ok w' client"
  by (simp add: conn_ok_def touches_only_def)

lemma conn_ok_fd: "conn_ok w client \<Longrightarrow> cc_fd client \<noteq> -1"
  by (simp add: conn_ok_def is_valid_def)

text \<open>
  The outcome of a step on a connection: the world stays as specified, only this connection is
  touched, and if it is kept it is in order.
\<close>

definition step_ok ::
  "client_connection \<Rightarrow> world \<Rightarrow> bool \<times> client_connection \<times> world \<Rightarrow> bool" where
  "step_ok client w out \<longleftrightarrow>
     (case out of (keep, client', w') \<Rightarrow>
        world_ok w' \<and> touches_only (cc_fd client) w w' \<and> cc_socket client' = cc_socket client
        \<and> (keep \<longrightarrow> conn_ok w' client')
        \<and> (\<exists>left. w_sent w' (cc_fd client) @ left = concat (map frame (h_replies w' (cc_fd client)))))"

lemma step_okI:
  assumes "world_ok w'" and "touches_only (cc_fd client) w w'" and "cc_socket client' = cc_socket client"
    and "keep \<Longrightarrow> conn_ok w' client'"
    and "w_sent w' (cc_fd client) @ left = concat (map frame (h_replies w' (cc_fd client)))"
  shows "step_ok client w (keep, client', w')"
  using assms by (auto simp: step_ok_def)

lemma conn_ok_left:
  "conn_ok w client \<Longrightarrow>
    w_sent w (cc_fd client) @ remaining (cc_writer client) = concat (map frame (h_replies w (cc_fd client)))"
  by (simp add: conn_ok_def)

lemma world_ok_log:
  "world_ok w \<Longrightarrow> err_kind e \<noteq> Invalid_Frame \<Longrightarrow> world_ok (log_io_error op e w)"
  by (auto simp: world_ok_def log_io_error_def)

lemma world_ok_command:
  assumes "world_ok w" and "run_command (w_executor w) input = Inr (r, ex)"
    and "length input \<le> MAX_MESSAGE_SIZE"
  shows "world_ok (w\<lparr>w_executor := ex, h_commands := h_commands w @ [(input, r)]\<rparr>)"
proof -
  have "ex_commands (w_executor w) = builtin_table" using assms(1) by (simp add: world_ok_def)
  from run_command_stop(1) [OF this assms(2)] show ?thesis
    using assms by (auto simp: world_ok_def run_commands_append)
qed

lemma handle_request_ok:
  assumes inv: "conn_ok w client" "world_ok w" and idle: "\<not> w_pending (cc_writer client)"
    and len: "length input \<le> MAX_MESSAGE_SIZE"
    and run: "handle_request client input w = Inr (Some out)"
  shows "step_ok client w out"
proof -
  let ?fd = "cc_fd client"
  obtain r ex where rc: "run_command (w_executor w) input = Inr (r, ex)"
    using run by (cases "run_command (w_executor w) input") (auto simp: handle_request_def)
  define w1 where "w1 = w\<lparr>w_executor := ex, h_commands := h_commands w @ [(input, r)],
    h_requests := (h_requests w)(?fd := h_requests w ?fd @ [length (h_commands w)])\<rparr>"
  have w1: "world_ok w1" using world_ok_command [OF inv(2) rc len] by (simp add: w1_def world_ok_def)
  have t1: "touches_only ?fd w w1" by (simp add: touches_only_def w1_def)
  have c1: "conn_ok w1 client" using inv(1) by (simp add: conn_ok_def w1_def)
  have "ex_commands (w_executor w) = builtin_table" using inv(2) by (simp add: world_ok_def)
  note stop = run_command_stop(2) [OF this rc]
  show ?thesis
  proof (cases "res_stop r")
    case True
    then have "out = (False, client, w1)"
      using run rc stop by (simp add: handle_request_def w1_def Let_def native_handle_def)
    then show ?thesis using w1 t1 conn_ok_left [OF c1] by (auto intro: step_okI)
  next
    case go: False
    show ?thesis
    proof (cases "length (res_output r) \<le> MAX_MESSAGE_SIZE")
      case False
      then obtain e where q: "queue (cc_writer client) (res_output r) = (Inl e, cc_writer client)"
        "err_kind e = Message_Too_Large"
        using queue_refuses(2) [OF idle, of "res_output r"] by auto
      then have "out = (False, client, log_io_error ''Error queuing message'' e w1)"
        using run rc go by (simp add: handle_request_def w1_def Let_def native_handle_def)
      then show ?thesis
        using world_ok_log [OF w1] q(2) t1 conn_ok_left [OF c1]
        by (auto intro!: step_okI simp: log_io_error_def touches_only_def)
    next
      case True
      have winv: "writer_inv (cc_writer client)" using inv(1) by (simp add: conn_ok_def)
      from queue_ok [OF winv idle True] obtain wr where
        q: "queue (cc_writer client) (res_output r) = (Inr (), wr)" "writer_inv wr" "remaining wr = frame (res_output r)"
        by blast
      let ?w2 = "w1\<lparr>h_replies := (h_replies w1)(?fd := h_replies w1 ?fd @ [res_output r])\<rparr>"
      let ?c2 = "client\<lparr>cc_writer := wr, cc_close_after_write := False\<rparr>"
      have out: "out = (True, ?c2, ?w2)"
        using run rc go q(1) by (simp add: handle_request_def w1_def Let_def native_handle_def)
      have "remaining (cc_writer client) = []" using idle by (simp add: remaining_def)
      then have c2: "conn_ok ?w2 ?c2"
        using c1 q(2,3) by (simp add: conn_ok_def)
      moreover have "world_ok ?w2" using w1 by (simp add: world_ok_def)
      moreover have "touches_only ?fd w ?w2" using t1 by (simp add: touches_only_def)
      ultimately show ?thesis unfolding out using conn_ok_left [OF c2] by (intro step_okI) auto
    qed
  qed
qed

lemma read_error_kind:
  assumes "reader_inv r" and "read_from r es = Some (Inl e, r', es')"
  shows "err_kind e \<noteq> Invalid_Frame"
proof -
  obtain bs s rest where st: "stream es = (bs, s, rest)" by (metis prod_cases3)
  from read_from_stream [OF assms(1) st] assms(2) show ?thesis
    by (auto simp: read_spec_def read_stopped_def read_complete_def message_too_large_def
        unexpected_eof_def system_error_def split: parsed.splits stream_end.splits loop_end.splits if_splits)
qed

lemma read_ok_reader:
  assumes "reader_inv r" and "read_from r es = Some (Inr res, r', es')" and "status res \<noteq> Closed"
  shows "reader_inv r'"
proof -
  obtain bs s rest where st: "stream es = (bs, s, rest)" by (metis prod_cases3)
  from read_from_stream [OF assms(1) st] assms(2,3) show ?thesis
    by (auto simp: read_spec_def read_stopped_def read_complete_def
        split: parsed.splits stream_end.splits loop_end.splits if_splits)
qed

lemma read_message_length:
  assumes "reader_inv r" and "read_from r es = Some (Inr res, r', es')" and "status res = Complete"
  shows "length (message res) \<le> MAX_MESSAGE_SIZE"
proof -
  obtain bs s rest where st: "stream es = (bs, s, rest)" by (metis prod_cases3)
  from read_from_stream [OF assms(1) st] assms(2,3)
  have "\<exists>bs'. parse_frame (progress r @ bs) = Whole (message res) bs'"
    by (auto simp: read_spec_def read_stopped_def read_complete_def
        split: parsed.splits stream_end.splits loop_end.splits if_splits)
  then show ?thesis using parse_frame_Whole(2) by blast
qed

lemma handle_readable_ok:
  assumes inv: "conn_ok w client" "world_ok w" and idle: "\<not> w_pending (cc_writer client)"
    and run: "handle_readable client w = Inr (Some out)"
  shows "step_ok client w out"
proof -
  let ?fd = "cc_fd client"
  have rinv: "reader_inv (cc_reader client)" using inv(1) by (simp add: conn_ok_def)
  obtain res reader es where rd: "read_from (cc_reader client) (w_recv w ?fd) = Some (res, reader, es)"
    using run by (auto simp: handle_readable_def native_handle_def Let_def split: option.splits)
  define c1 where "c1 = client\<lparr>cc_reader := reader\<rparr>"
  define w1 where "w1 = received ?fd es w"
  have w1: "world_ok w1" using inv(2) by (simp add: world_ok_def w1_def)
  have t1: "touches_only ?fd w w1" by (simp add: touches_only_def w1_def)
  have left: "w_sent w1 ?fd @ remaining (cc_writer client) = concat (map frame (h_replies w1 ?fd))"
    using conn_ok_left [OF inv(1)] by (simp add: w1_def)
  show ?thesis
  proof (cases res)
    case (Inl e)
    then have "out = (False, c1, log_io_error ''Error reading message'' e w1)"
      using run rd by (simp add: handle_readable_def native_handle_def c1_def w1_def)
    then show ?thesis
      using world_ok_log [OF w1 read_error_kind [OF rinv rd [unfolded Inl]]] t1 left
      by (auto intro!: step_okI simp: log_io_error_def touches_only_def c1_def)
  next
    case (Inr r)
    show ?thesis
    proof (cases "status r = Closed")
      case True
      then have "out = (False, c1, w1)"
        using run rd Inr by (simp add: handle_readable_def native_handle_def c1_def w1_def)
      then show ?thesis using w1 t1 left by (auto intro!: step_okI simp: c1_def)
    next
      case False
      have cok: "conn_ok w1 c1"
        using inv(1) read_ok_reader [OF rinv rd [unfolded Inr] False] by (simp add: conn_ok_def c1_def w1_def)
      show ?thesis
      proof (cases "status r")
        case Complete
        then have "handle_request c1 (message r) w1 = Inr (Some out)"
          using run rd Inr by (simp add: handle_readable_def native_handle_def c1_def w1_def)
        from handle_request_ok [OF cok w1 _ read_message_length [OF rinv rd [unfolded Inr] Complete] this] idle have "step_ok c1 w1 out" by (simp add: c1_def)
        then show ?thesis using t1 touches_only_trans
          by (auto simp: step_ok_def c1_def split: prod.splits)
      next
        case Incomplete
        then have "out = (True, c1, w1)"
          using run rd Inr by (simp add: handle_readable_def native_handle_def c1_def w1_def)
        then show ?thesis using w1 t1 cok left by (auto intro!: step_okI simp: c1_def)
      qed (use False in simp)
    qed
  qed
qed

lemma handle_writable_ok:
  assumes inv: "conn_ok w client" "world_ok w" and run: "handle_writable client w = Inr (Some out)"
  shows "step_ok client w out"
proof -
  let ?fd = "cc_fd client"
  have winv: "writer_inv (cc_writer client)" using inv(1) by (simp add: conn_ok_def)
  obtain res wr es sent where wt: "write_to (cc_writer client) (w_send w ?fd) (w_sent w ?fd) = Some (res, wr, es, sent)"
    using run by (auto simp: handle_writable_def native_handle_def Let_def split: option.splits)
  note ok = write_to_ok [OF winv wt]
  define c1 where "c1 = client\<lparr>cc_writer := wr\<rparr>"
  define w1 where "w1 = w\<lparr>w_send := (w_send w)(?fd := es), w_sent := (w_sent w)(?fd := sent)\<rparr>"
  have w1: "world_ok w1" using inv(2) by (simp add: world_ok_def w1_def)
  have t1: "touches_only ?fd w w1" by (simp add: touches_only_def w1_def)
  have left: "w_sent w1 ?fd @ remaining wr = concat (map frame (h_replies w1 ?fd))"
    using conn_ok_left [OF inv(1)] ok by (simp add: w1_def)
  show ?thesis
  proof (cases res)
    case (Inl e)
    then have "err_kind e \<noteq> Invalid_Frame" using ok by (simp add: write_result_ok_def)
    moreover have "out = (False, c1, log_io_error ''Error writing message'' e w1)"
      using run wt Inl by (simp add: handle_writable_def native_handle_def c1_def w1_def Let_def)
    ultimately show ?thesis
      using world_ok_log [OF w1] t1 left
      by (auto intro!: step_okI simp: log_io_error_def touches_only_def c1_def)
  next
    case (Inr complete)
    have "conn_ok w1 c1" using inv(1) ok left by (simp add: conn_ok_def c1_def w1_def)
    moreover have "out = (True, c1, w1)"
      using run wt Inr inv(1) by (simp add: handle_writable_def native_handle_def c1_def w1_def conn_ok_def Let_def)
    ultimately show ?thesis using w1 t1 left by (auto intro!: step_okI simp: c1_def)
  qed
qed

lemma step_ok_trans:
  assumes "step_ok client w (True, client1, w1)" and "step_ok client1 w1 out"
  shows "step_ok client w out"
  using assms touches_only_trans by (fastforce simp: step_ok_def split: prod.splits)

lemma step_ok_refl:
  assumes "conn_ok w client" and "world_ok w"
  shows "step_ok client w (keep, client, w)"
  using assms conn_ok_left [OF assms(1)] by (intro step_okI) auto

lemma step_ok_drop: "step_ok client w (keep, client', w') \<Longrightarrow> step_ok client w (False, client', w')"
  by (auto simp: step_ok_def)

text \<open>
  \<open>poll\<close> reports \<open>POLLIN\<close> only for a connection it was asked for, that is with nothing pending.
\<close>

lemma handle_client_events_ok:
  assumes inv: "conn_ok w client" "world_ok w"
    and asked: "has_event events POLLIN \<Longrightarrow> \<not> w_pending (cc_writer client)"
    and run: "handle_client_events client events w = Inr (Some out)"
  shows "step_ok client w out"
proof (cases "has_event events (POLLERR OR POLLNVAL)")
  case True
  then have "out = (False, client, w)" using run by (simp add: handle_client_events_def)
  then show ?thesis using step_ok_refl [OF inv] by simp
next
  case False
  let ?reading = "if has_event events POLLIN then handle_readable client w else done_io (True, client, w)"
  from run False obtain out1 where r1: "?reading = Inr (Some out1)"
    and run1: "(case out1 of (keep, client1, w1) \<Rightarrow>
        if \<not> keep then done_io (False, client1, w1)
        else
          bind_io (if has_event events POLLOUT then handle_writable client1 w1
                   else done_io (True, client1, w1)) (\<lambda>(keep, client2, w2).
          if \<not> keep then done_io (False, client2, w2)
          else done_io (\<not> has_event events POLLHUP, client2, w2))) = Inr (Some out)"
    unfolding handle_client_events_def by (auto elim!: bind_ioE)
  obtain k1 c1 w1 where o1: "out1 = (k1, c1, w1)" by (metis prod_cases3)
  have s1: "step_ok client w (k1, c1, w1)"
    using r1 o1 asked handle_readable_ok [OF inv, of out1] step_ok_refl [OF inv]
    by (auto split: if_splits)
  show ?thesis
  proof (cases k1)
    case False
    then show ?thesis using s1 run1 o1 by simp
  next
    case True
    then have inv1: "conn_ok w1 c1" "world_ok w1" using s1 by (auto simp: step_ok_def)
    let ?writing = "if has_event events POLLOUT then handle_writable c1 w1 else done_io (True, c1, w1)"
    from run1 o1 True obtain k2 c2 w2 where r2: "?writing = Inr (Some (k2, c2, w2))"
      and fin: "out = (k2 \<and> \<not> has_event events POLLHUP, c2, w2)"
      by (auto elim!: bind_ioE split: if_splits)
    have s2: "step_ok c1 w1 (k2, c2, w2)"
      using r2 handle_writable_ok [OF inv1] step_ok_refl [OF inv1] by (auto split: if_splits)
    then have "step_ok client w (k2, c2, w2)" using s1 True by (auto intro: step_ok_trans)
    then show ?thesis unfolding fin using step_ok_drop by (cases k2; cases "has_event events POLLHUP") auto
  qed
qed

section \<open>All connections\<close>

text \<open>
  The sockets \<open>pre\<close> (the listening one) and those of the clients own the open descriptors, and every
  client is in order.
\<close>

definition clients_ok :: "socket list \<Rightarrow> client_connection list \<Rightarrow> world \<Rightarrow> bool" where
  "clients_ok pre clients w \<longleftrightarrow>
     sockets_ok (pre @ map cc_socket clients) (w_os w)
     \<and> (\<forall>client \<in> set clients. conn_ok w client) \<and> world_ok w"

lemma owned_fds_valid: "\<forall>s \<in> set ss. is_valid s \<Longrightarrow> owned_fds ss = map m_fd ss"
  unfolding owned_fds_def by (intro filter_True) (auto simp: is_valid_def)

lemma owned_fds_append [simp]: "owned_fds (xs @ ys) = owned_fds xs @ owned_fds ys"
  by (simp add: owned_fds_def)

lemma sockets_ok_erase:
  assumes ok: "sockets_ok (pre @ ss) os" and valid: "\<forall>s \<in> set ss. is_valid s" and i: "i < length ss"
  shows "sockets_ok (pre @ take i ss @ drop (Suc i) ss) (snd (vector_erase i ss os))"
proof -
  define os1 where "os1 = os\<lparr>os_open := set (owned_fds ss)\<rparr>"
  have split: "ss = take i ss @ ss ! i # drop (Suc i) ss" using i by (rule id_take_nth_drop)
  have own: "owned_fds ss = map m_fd (take i ss) @ m_fd (ss ! i) # map m_fd (drop (Suc i) ss)"
    unfolding owned_fds_valid [OF valid] by (metis split list.simps(9) map_append)
  have "\<forall>s \<in> set (take i ss @ drop (Suc i) ss). is_valid s"
    using valid by (auto dest: in_set_takeD in_set_dropD)
  then have own': "owned_fds (take i ss @ drop (Suc i) ss)
      = map m_fd (take i ss) @ map m_fd (drop (Suc i) ss)"
    using owned_fds_valid by fastforce
  have "\<forall>s \<in> set (drop (Suc i) ss). is_valid s \<and> m_fd s \<noteq> m_fd (ss ! i)"
    using ok valid own by (auto simp: sockets_ok_def image_iff dest: in_set_dropD)
  then have "vector_erase i ss os = (take i ss @ drop (Suc i) ss, close_fd (m_fd (ss ! i)) os)"
    using shift_down_closes [of "ss ! i"] valid i by (simp add: vector_erase_def)
  then show ?thesis
    using ok own own' unfolding sockets_ok_def owned_fds_append by (auto simp: close_fd_def)
qed

lemma conn_ok_os: "conn_ok (w\<lparr>w_os := os\<rparr>) client = conn_ok w client"
  by (simp add: conn_ok_def)

lemma world_ok_os: "world_ok (w\<lparr>w_os := os\<rparr>) = world_ok w"
  by (simp add: world_ok_def)

lemma clients_ok_fds:
  assumes "clients_ok pre clients w" and "i < length clients" and "j < length clients" and "i \<noteq> j"
  shows "cc_fd (clients ! i) \<noteq> cc_fd (clients ! j)"
proof -
  have "\<forall>s \<in> set (map cc_socket clients). is_valid s"
    using assms(1) by (auto simp: clients_ok_def conn_ok_def)
  from owned_fds_valid [OF this] have "distinct (map m_fd (map cc_socket clients))"
    using assms(1) by (simp add: clients_ok_def sockets_ok_def)
  then show ?thesis using assms(2-4) nth_eq_iff_index_eq [of "map m_fd (map cc_socket clients)" i j] by simp
qed

lemma in_erased:
  assumes "x \<in> set (take i xs @ drop (Suc i) xs)"
  obtains j where "j < length xs" and "j \<noteq> i" and "x = xs ! j"
proof -
  from assms consider "x \<in> set (take i xs)" | "x \<in> set (drop (Suc i) xs)" by auto
  then show thesis
  proof cases
    case 1
    then obtain k where "k < length (take i xs)" "x = take i xs ! k" by (metis in_set_conv_nth)
    then show thesis using that [of k] by simp
  next
    case 2
    then obtain k where "k < length (drop (Suc i) xs)" "x = drop (Suc i) xs ! k" by (metis in_set_conv_nth)
    then show thesis using that [of "Suc i + k"] by simp
  qed
qed

lemma clients_ok_step:
  assumes ok: "clients_ok pre clients w" and i: "i < length clients"
    and step: "step_ok (clients ! i) w (keep, client, w1)"
  shows "keep \<Longrightarrow> clients_ok pre (clients[i := client]) w1"
    and "\<not> keep \<Longrightarrow> (case erase_client i (clients[i := client]) w1 of (cs, w2) \<Rightarrow> clients_ok pre cs w2)"
proof -
  have s: "world_ok w1" "touches_only (cc_fd (clients ! i)) w w1" "cc_socket client = cc_socket (clients ! i)"
    "keep \<Longrightarrow> conn_ok w1 client" using step by (auto simp: step_ok_def)
  have socks: "map cc_socket (clients[i := client]) = map cc_socket clients"
    using s(3) i by (simp add: map_update list_update_same_conv)
  have os: "w_os w1 = w_os w" using s(2) by (simp add: touches_only_def)
  have others: "conn_ok w1 (clients ! j)" if "j < length clients" "j \<noteq> i" for j
    using ok that clients_ok_fds [OF ok i that(1)] by (intro conn_ok_other [OF s(2)]) (auto simp: clients_ok_def)
  show "clients_ok pre (clients[i := client]) w1" if keep
  proof -
    have "conn_ok w1 (clients[i := client] ! j)" if "j < length clients" for j
      using that s(4) [OF \<open>keep\<close>] others i by (cases "j = i") auto
    then have "\<forall>c \<in> set (clients[i := client]). conn_ok w1 c"
      by (auto simp: in_set_conv_nth)
    then show ?thesis
      unfolding clients_ok_def socks os using ok s(1) by (simp add: clients_ok_def)
  qed
  show "case erase_client i (clients[i := client]) w1 of (cs, w2) \<Rightarrow> clients_ok pre cs w2" if "\<not> keep"
  proof -
    let ?cs = "take i clients @ drop (Suc i) clients"
    have "sockets_ok (pre @ map cc_socket clients) (w_os w)" using ok by (simp add: clients_ok_def)
    then have "sockets_ok (pre @ map cc_socket ?cs) (snd (vector_erase i (map cc_socket clients) (w_os w)))"
      using sockets_ok_erase [of pre "map cc_socket clients" "w_os w" i] ok i
      by (auto simp: clients_ok_def conn_ok_def take_map drop_map)
    moreover have "conn_ok w1 c" if c: "c \<in> set ?cs" for c
    proof -
      obtain j where "j < length clients" "j \<noteq> i" "c = clients ! j"
        using c by (rule in_erased)
      then show ?thesis using others by simp
    qed
    ultimately show ?thesis
      using s(1) i unfolding erase_client_def socks os
      by (auto simp: clients_ok_def conn_ok_os world_ok_os)
  qed
qed

lemma nth_erased: "j < i \<Longrightarrow> i < length xs \<Longrightarrow> (take i xs @ drop (Suc i) xs) ! j = xs ! j"
  by (simp add: nth_append)

section \<open>Accepting connections\<close>

text \<open>The descriptors that \<open>accept\<close> returns are not open at that time.\<close>

fun accepts_fresh :: "accept_event list \<Rightarrow> int set \<Rightarrow> bool" where
  "accepts_fresh [] A \<longleftrightarrow> True"
| "accepts_fresh (Accept_Failed errno # es) A \<longleftrightarrow> (errno = EINTR \<longrightarrow> accepts_fresh es A)"
| "accepts_fresh (Accept_Client fd getfl setfl setsockopt # es) A \<longleftrightarrow>
     fd \<noteq> -1 \<and> fd \<notin> A
     \<and> accepts_fresh es
         (case set_nonblocking getfl setfl True of
            Inl _ \<Rightarrow> A
          | Inr _ \<Rightarrow> (case set_nodelay setsockopt True of Inl _ \<Rightarrow> A | Inr _ \<Rightarrow> insert fd A))"

lemma open_connection_os:
  assumes "fd \<noteq> -1" and "fd \<notin> os_open (w_os w)"
  shows "os_open (w_os (open_connection fd w)) = insert fd (os_open (w_os w))"
    and "socket_destroy (socket_of fd) (w_os (open_connection fd w)) = w_os w"
  using assms by (simp_all add: open_connection_def socket_destroy_def socket_reset_def socket_of_def close_fd_def)

lemma clients_ok_open:
  assumes ok: "clients_ok pre clients w" and fd: "fd \<noteq> -1" "fd \<notin> os_open (w_os w)"
  defines "w1 \<equiv> open_connection fd w"
  shows "clients_ok pre clients (w1\<lparr>w_os := socket_destroy (socket_of fd) (w_os w1)\<rparr>)"
    and "clients_ok pre (clients @ [\<lparr>cc_socket = socket_of fd, cc_reader = reader_new,
           cc_writer = writer_new, cc_close_after_write = False\<rparr>]) w1"
    and "os_open (w_os (w1\<lparr>w_os := socket_destroy (socket_of fd) (w_os w1)\<rparr>)) = os_open (w_os w)"
    and "os_open (w_os w1) = insert fd (os_open (w_os w))"
proof -
  have socks: "sockets_ok (pre @ map cc_socket clients) (w_os w)" and w: "world_ok w"
    using ok by (simp_all add: clients_ok_def)
  have other: "conn_ok w1 client" if "client \<in> set clients" for client
  proof -
    have c: "conn_ok w client" using ok that by (simp add: clients_ok_def)
    then have "cc_fd client \<in> set (owned_fds (map cc_socket clients))"
      using that by (auto simp: owned_fds_def conn_ok_def is_valid_def)
    then have "cc_fd client \<noteq> fd" using socks fd(2) by (auto simp: sockets_ok_def)
    then show ?thesis using c by (simp add: conn_ok_def w1_def open_connection_def)
  qed
  have w1: "world_ok w1" using w by (simp add: world_ok_def w1_def open_connection_def)
  have os1: "w_os w1 = (w_os w)\<lparr>os_open := insert fd (os_open (w_os w))\<rparr>"
    by (simp add: w1_def open_connection_def)
  have destroyed: "socket_destroy (socket_of fd) (w_os w1) = w_os w"
    using fd by (simp add: os1 socket_destroy_def socket_reset_def socket_of_def close_fd_def)
  show "clients_ok pre clients (w1\<lparr>w_os := socket_destroy (socket_of fd) (w_os w1)\<rparr>)"
    using socks other w1 unfolding destroyed by (simp add: clients_ok_def conn_ok_os world_ok_os)
  show "os_open (w_os (w1\<lparr>w_os := socket_destroy (socket_of fd) (w_os w1)\<rparr>)) = os_open (w_os w)"
    by (simp add: destroyed)
  show "os_open (w_os w1) = insert fd (os_open (w_os w))" by (simp add: os1)
  have "conn_ok w1 \<lparr>cc_socket = socket_of fd, cc_reader = reader_new, cc_writer = writer_new,
      cc_close_after_write = False\<rparr>"
    using fd by (simp add: conn_ok_def w1_def open_connection_def is_valid_def socket_of_def)
  moreover have "sockets_ok (pre @ map cc_socket clients @ [socket_of fd]) (w_os w1)"
    using sockets_ok_push [OF socks fd] by (simp add: os1)
  ultimately show "clients_ok pre (clients @ [\<lparr>cc_socket = socket_of fd, cc_reader = reader_new,
           cc_writer = writer_new, cc_close_after_write = False\<rparr>]) w1"
    using other w1 by (auto simp: clients_ok_def)
qed

section \<open>What poll reports\<close>

text \<open>What \<open>poll\<close> reports was asked for, or is one of the events that are always reported.\<close>

definition poll_contract :: "u16 list \<Rightarrow> u16 list \<Rightarrow> bool" where
  "poll_contract interest revents \<longleftrightarrow>
     list_all2 (\<lambda>asked got. got AND NOT (asked OR POLLERR OR POLLHUP OR POLLNVAL) = 0) interest revents"

lemma poll_pollout:
  assumes "got AND NOT (POLLOUT OR POLLERR OR POLLHUP OR POLLNVAL) = (0 :: u16)"
  shows "\<not> has_event got POLLIN"
proof -
  have "\<not> bit (got AND NOT (POLLOUT OR POLLERR OR POLLHUP OR POLLNVAL)) 0" using assms by simp
  then have "\<not> bit got 0"
    by (simp add: bit_simps POLLOUT_def POLLERR_def POLLHUP_def POLLNVAL_def)
  then show ?thesis by (simp add: has_event_def POLLIN_def bit_0 and_one_eq even_iff_mod_2_eq_zero)
qed

lemma poll_contract_asked:
  assumes "poll_contract (poll_interest srv) revents" and "i < length (m_clients srv)"
    and "has_event (revents ! (i + 1)) POLLIN"
  shows "\<not> w_pending (cc_writer (m_clients srv ! i))"
proof
  assume "w_pending (cc_writer (m_clients srv ! i))"
  then have asked: "poll_interest srv ! (i + 1) = POLLOUT"
    using assms(2) by (simp add: poll_interest_def has_pending_message_def)
  have "i + 1 < length (poll_interest srv)" using assms(2) by (simp add: poll_interest_def)
  from list_all2_nthD [OF assms(1) [unfolded poll_contract_def] this]
  show False using poll_pollout assms(3) unfolding asked by blast
qed

section \<open>Invariants of an iteration\<close>

text \<open>The connection that \<open>accept_clients\<close> makes of a descriptor.\<close>

abbreviation new_connection :: "int \<Rightarrow> client_connection" where
  "new_connection fd \<equiv> \<lparr>cc_socket = socket_of fd, cc_reader = reader_new, cc_writer = writer_new,
     cc_close_after_write = False\<rparr>"

text \<open>
  A property of the connections and the world that every handler keeps, for its connection at \<open>i\<close> in the
  vector, whether this is kept or erased, and that holds again when a new connection is added, or dropped
  because it could not be configured, and after a warning: then every iteration of the loop keeps it.
\<close>

locale connection_invariant =
  fixes P :: "client_connection list \<Rightarrow> world \<Rightarrow> bool"
  assumes handled: "P clients w \<Longrightarrow> i < length clients \<Longrightarrow>
      (has_event events POLLIN \<Longrightarrow> \<not> w_pending (cc_writer (clients ! i))) \<Longrightarrow>
      handle_client_events (clients ! i) events w = Inr (Some (keep, client, w1)) \<Longrightarrow>
      (if keep then P (clients[i := client]) w1
       else case erase_client i (clients[i := client]) w1 of (cs, w2) \<Rightarrow> P cs w2)"
    and opened: "P clients w \<Longrightarrow> fd \<noteq> -1 \<Longrightarrow> fd \<notin> os_open (w_os w) \<Longrightarrow>
      P (clients @ [new_connection fd]) (open_connection fd w)"
    and dropped: "P clients w \<Longrightarrow> fd \<noteq> -1 \<Longrightarrow> fd \<notin> os_open (w_os w) \<Longrightarrow>
      P clients ((open_connection fd w)\<lparr>w_os := socket_destroy (socket_of fd) (w_os (open_connection fd w))\<rparr>)"
    and warned: "P clients w \<Longrightarrow> \<forall>op e. entry \<noteq> Io_Error op e \<Longrightarrow> P clients (log_line entry w)"
begin

lemma serve_clients_keeps:
  assumes "P clients w" and "index \<le> length clients"
    and "\<forall>i < index. has_event (revents ! (i + 1)) POLLIN \<longrightarrow> \<not> w_pending (cc_writer (clients ! i))"
    and "serve_clients index revents clients w = Inr (Some (clients', w'))"
  shows "P clients' w'"
  using assms
proof (induction index arbitrary: clients w)
  case 0
  then show ?case by simp
next
  case (Suc index)
  have i: "index < length clients" and guard: "\<not> (length revents \<le> index + 1 \<or> length clients \<le> index)"
    using Suc.prems(2,4) by (auto split: if_splits)
  show ?case
  proof (cases "revents ! (index + 1) = 0")
    case True
    then show ?thesis using Suc i guard by simp
  next
    case False
    from Suc.prems(4) guard False obtain keep client w1 where
      h: "handle_client_events (clients ! index) (revents ! (index + 1)) w = Inr (Some (keep, client, w1))" and
      rest: "(let clients1 = clients[index := client]
             in if keep then serve_clients index revents clients1 w1
                else let (clients2, w2) = erase_client index clients1 w1
                     in serve_clients index revents clients2 w2) = Inr (Some (clients', w'))"
      by (auto elim!: bind_ioE)
    have "has_event (revents ! (index + 1)) POLLIN \<Longrightarrow> \<not> w_pending (cc_writer (clients ! index))"
      using Suc.prems(3) by simp
    note next_state = handled [OF Suc.prems(1) i this h]
    show ?thesis
    proof (cases keep)
      case True
      then show ?thesis using next_state rest i Suc.prems(3) Suc.IH [of "clients[index := client]" w1] by simp
    next
      case False
      obtain cs w2 where e: "erase_client index (clients[index := client]) w1 = (cs, w2)" by fastforce
      have cs: "cs = take index clients @ drop (Suc index) clients" using e by (auto simp: erase_client_def)
      then have "\<forall>j < index. cs ! j = clients ! j" using i by (simp add: nth_erased)
      then show ?thesis using next_state rest i Suc.prems(3) False e cs Suc.IH [of cs w2] by simp
    qed
  qed
qed

lemma accept_clients_keeps:
  assumes "P clients w" and "accepts_fresh es (os_open (w_os w))"
    and "accept_clients es clients w = Some (clients', w', es')"
  shows "P clients' w'"
  using assms
proof (induction es clients w rule: accept_clients.induct)
  case (1 clients w)
  then show ?case by simp
next
  case (2 errno es clients w)
  then show ?case by (auto split: if_splits intro: warned)
next
  case (3 fd getfl setfl setsockopt es clients w)
  have fd: "fd \<noteq> -1" "fd \<notin> os_open (w_os w)" using "3.prems"(2) by simp_all
  then have valid: "is_valid (socket_of fd)" by (simp add: is_valid_def socket_of_def)
  note o = opened [OF "3.prems"(1) fd] dropped [OF "3.prems"(1) fd] warned open_connection_os [OF fd]
  show ?case
  proof (cases "set_nonblocking getfl setfl True")
    case (Inl e)
    then show ?thesis using "3.IH"(1) "3.prems"(2,3) valid o by (simp add: Let_def)
  next
    case nb: (Inr f)
    show ?thesis
    proof (cases "set_nodelay setsockopt True")
      case (Inl e)
      then show ?thesis using "3.IH"(2) "3.prems"(2,3) valid o nb by (simp add: Let_def)
    next
      case (Inr u)
      then show ?thesis using "3.IH"(3) "3.prems"(2,3) valid o nb by (simp add: Let_def)
    qed
  qed
qed

lemma server_iteration_keeps:
  assumes "P (m_clients srv) w" and valid: "is_valid (m_listen_socket srv)"
    and kernel: "\<forall>revents. poll_loop polls = Some (Inr revents) \<longrightarrow> poll_contract (poll_interest srv) revents
       \<and> (\<forall>clients w1. serve_clients (length (m_clients srv)) revents (m_clients srv) w
              = Inr (Some (clients, w1)) \<longrightarrow> accepts_fresh accept_script (os_open (w_os w1)))"
    and run: "server_iteration polls accept_script srv w = Inr (Some (Continue srv' w'))"
  shows "P (m_clients srv') w'" and "m_listen_socket srv' = m_listen_socket srv"
proof -
  from run valid obtain revents where p: "poll_loop polls = Some (Inr revents)"
    by (auto simp: server_iteration_def split: option.splits sum.splits)
  with kernel have contract: "poll_contract (poll_interest srv) revents" by blast
  from run valid p obtain clients w1 where
    sv: "serve_clients (length (m_clients srv)) revents (m_clients srv) w = Inr (Some (clients, w1))" and
    fin: "(if has_event (revents ! 0) (POLLERR OR POLLHUP OR POLLNVAL)
            then done_io (Exit_Failure (''Listening socket failed'', None) w1)
            else if has_event (revents ! 0) POLLIN then
              (case accept_clients accept_script clients w1 of
                 None \<Rightarrow> Inr None
               | Some (clients', w2, _) \<Rightarrow> done_io (Continue (srv\<lparr>m_clients := clients'\<rparr>) w2))
            else done_io (Continue (srv\<lparr>m_clients := clients\<rparr>) w1)) = Inr (Some (Continue srv' w'))"
    by (auto simp: server_iteration_def elim!: bind_ioE)
  have ok1: "P clients w1"
    using serve_clients_keeps [OF assms(1) _ _ sv] poll_contract_asked [OF contract] by simp
  have fresh: "accepts_fresh accept_script (os_open (w_os w1))" using kernel p sv by blast
  from fin consider
      (accepted) clients' es where "accept_clients accept_script clients w1 = Some (clients', w', es)"
        "srv' = srv\<lparr>m_clients := clients'\<rparr>"
    | (none) "srv' = srv\<lparr>m_clients := clients\<rparr>" "w' = w1"
    by (auto split: if_splits option.splits)
  then have "P (m_clients srv') w' \<and> m_listen_socket srv' = m_listen_socket srv"
  proof cases
    case accepted
    then show ?thesis using accept_clients_keeps [OF ok1 fresh] by simp
  next
    case none
    then show ?thesis using ok1 by simp
  qed
  then show "P (m_clients srv') w'" and "m_listen_socket srv' = m_listen_socket srv" by blast+
qed

end

interpretation connections: connection_invariant "clients_ok pre"
proof unfold_locales
  fix clients w i events keep client w1
  assume ok: "clients_ok pre clients w" and i: "i < length clients"
    and asked: "has_event events POLLIN \<Longrightarrow> \<not> w_pending (cc_writer (clients ! i))"
    and h: "handle_client_events (clients ! i) events w = Inr (Some (keep, client, w1))"
  have inv: "conn_ok w (clients ! i)" "world_ok w" using ok i by (auto simp: clients_ok_def)
  from clients_ok_step [OF ok i handle_client_events_ok [OF inv asked h]]
  show "if keep then clients_ok pre (clients[i := client]) w1
      else case erase_client i (clients[i := client]) w1 of (cs, w2) \<Rightarrow> clients_ok pre cs w2" by simp
qed (simp_all add: clients_ok_open, auto simp: clients_ok_def conn_ok_def world_ok_def)

lemmas serve_clients_ok = connections.serve_clients_keeps

section \<open>Every state of the server\<close>

definition server_ok :: "server \<Rightarrow> world \<Rightarrow> bool" where
  "server_ok srv w \<longleftrightarrow> is_valid (m_listen_socket srv)
     \<and> clients_ok [m_listen_socket srv] (m_clients srv) w"

text \<open>
  The states between two iterations of the loop: after \<open>start\<close> in a process that has no descriptors
  yet; the kernel has received and can send other bytes; and one iteration, under what \<open>poll\<close> and
  \<open>accept\<close> promise.
\<close>

inductive server_reach :: "server \<Rightarrow> world \<Rightarrow> bool" where
  reach_started:
    "server_start calls address port \<lparr>m_listen_socket = socket_new, m_clients = []\<rparr>
         \<lparr>os_open = {}, os_bad_closes = 0\<rparr> = Inr (srv, os, line) \<Longrightarrow>
     server_reach srv
       \<lparr>w_os = os, w_recv = rx, w_send = tx, w_sent = (\<lambda>_. []), w_log = [line],
        w_executor = register_builtins executor_new, h_commands = [], h_replies = (\<lambda>_. []),
        h_requests = (\<lambda>_. []), h_received = (\<lambda>_. [])\<rparr>"
| reach_kernel: "server_reach srv w \<Longrightarrow> server_reach srv (w\<lparr>w_recv := rx, w_send := tx\<rparr>)"
| reach_iteration:
    "server_reach srv w \<Longrightarrow>
     \<forall>revents. poll_loop polls = Some (Inr revents) \<longrightarrow> poll_contract (poll_interest srv) revents
       \<and> (\<forall>clients w1. serve_clients (length (m_clients srv)) revents (m_clients srv) w
              = Inr (Some (clients, w1)) \<longrightarrow> accepts_fresh accept_script (os_open (w_os w1))) \<Longrightarrow>
     server_iteration polls accept_script srv w = Inr (Some (Continue srv' w')) \<Longrightarrow>
     server_reach srv' w'"

lemma server_start_ok:
  assumes "server_start calls address port \<lparr>m_listen_socket = socket_new, m_clients = []\<rparr>
    \<lparr>os_open = {}, os_bad_closes = 0\<rparr> = Inr (srv, os, line)"
  shows "m_clients srv = []" and "m_listen_socket srv = socket_of (call_socket calls)"
    and "is_valid (m_listen_socket srv)" and "os_open os = {call_socket calls}" and "os_bad_closes os = 0"
    and "\<exists>addr. line = Listening addr port"
  using assms
  by (auto simp: server_start_def Let_def socket_move_assign_def socket_release_def socket_reset_def
      socket_of_def socket_new_def is_valid_def socket_destroy_def split: sum.splits option.splits if_splits)

lemma server_reach_ok: "server_reach srv w \<Longrightarrow> server_ok srv w"
proof (induction rule: server_reach.induct)
  case (reach_started calls address port srv os line rx tx)
  note s = server_start_ok [OF reach_started]
  show ?case
    using s by (auto simp: server_ok_def clients_ok_def sockets_ok_def owned_fds_def world_ok_def
        socket_of_def is_valid_def ex_inv_start(1) [unfolded ex_inv_def])
next
  case (reach_kernel srv w rx tx)
  then show ?case by (simp add: server_ok_def clients_ok_def conn_ok_def world_ok_def)
next
  case (reach_iteration srv w polls accept_script srv' w')
  have "is_valid (m_listen_socket srv)" and "clients_ok [m_listen_socket srv] (m_clients srv) w"
    using reach_iteration.IH by (simp_all add: server_ok_def)
  then show ?case
    using connections.server_iteration_keeps [OF _ _ reach_iteration.hyps(2,3), of "[m_listen_socket srv]"]
    by (simp add: server_ok_def)
qed

lemma server_example:
  obtains srv w client where "server_reach srv w" and "m_clients srv = [client]" and "cc_fd client = 4"
    and "m_fd (m_listen_socket srv) = 3" and "w_sent w 4 = []" and "h_commands w = []" and "w_log w = [Listening (inet_ntoa 0) 6337]"
    and "cc_writer client = writer_new" and "cc_reader client = reader_new"
proof -
  let ?calls = "\<lparr>call_socket = 3, call_socket_errno = 0, call_last_errno = 0, call_inet_aton = (\<lambda>_. Some 0), call_bind = (\<lambda>_. None),
    call_listen = (\<lambda>_. None), call_getfl = Inr 0, call_setfl = (\<lambda>_. None)\<rparr>"
  let ?os = "\<lparr>os_open = {3}, os_bad_closes = 0\<rparr>"
  let ?srv = "\<lparr>m_listen_socket = socket_of 3, m_clients = []\<rparr>"
  let ?client = "\<lparr>cc_socket = socket_of 4, cc_reader = reader_new, cc_writer = writer_new,
    cc_close_after_write = False\<rparr>"
  let ?script = "[Accept_Client 4 (Inr 0) (\<lambda>_. None) (\<lambda>_. None), Accept_Failed EAGAIN]"
  define w where "w = \<lparr>w_os = ?os, w_recv = (\<lambda>_. []), w_send = (\<lambda>_. []), w_sent = (\<lambda>_. []),
        w_log = [Listening (inet_ntoa 0) 6337],
        w_executor = register_builtins executor_new, h_commands = [], h_replies = (\<lambda>_. []),
        h_requests = (\<lambda>_. []), h_received = (\<lambda>_. [])\<rparr>"
  have "server_start ?calls ''0.0.0.0'' 6337 \<lparr>m_listen_socket = socket_new, m_clients = []\<rparr>
      \<lparr>os_open = {}, os_bad_closes = 0\<rparr> = Inr (?srv, ?os, Listening (inet_ntoa 0) 6337)"
    by (simp add: server_start_def make_sockaddr_def set_nonblocking_def socket_move_assign_def
        socket_release_def socket_reset_def socket_of_def socket_new_def is_valid_def socket_destroy_def)
  then have r: "server_reach ?srv w" unfolding w_def by (rule reach_started)
  have poll: "has_event POLLIN POLLIN" "\<not> has_event POLLIN (POLLERR OR POLLHUP OR POLLNVAL)"
    by (simp_all add: has_event_def POLLIN_def POLLERR_def POLLHUP_def POLLNVAL_def)
  have contract: "poll_contract (poll_interest ?srv) [POLLIN]"
    by (simp add: poll_contract_def poll_interest_def POLLIN_def POLLERR_def POLLHUP_def POLLNVAL_def)
  have step: "server_iteration [Polled [POLLIN]] ?script ?srv w
      = Inr (Some (Continue (?srv\<lparr>m_clients := [?client]\<rparr>) (open_connection 4 w)))"
    using poll
    by (simp add: server_iteration_def is_valid_def socket_of_def set_nonblocking_def set_nodelay_def
        would_block_def EAGAIN_def EINTR_def Let_def)
  have "server_reach (?srv\<lparr>m_clients := [?client]\<rparr>) (open_connection 4 w)"
    by (rule reach_iteration [OF r _ step])
       (use contract in \<open>simp add: w_def set_nonblocking_def set_nodelay_def EAGAIN_def EINTR_def\<close>)
  then show thesis
    by (rule that [of _ _ ?client]) (simp_all add: open_connection_def w_def socket_of_def)
qed

lemma world_ok_executor:
  assumes "world_ok w" and "2 * length (h_commands w) < 4294967296"
  shows "spec_commands Map.empty (map fst (h_commands w))
      = Some (map snd (h_commands w), ex_abs (w_executor w))"
    and "ex_inv (w_executor w)" and "ex_budget (w_executor w) \<le> 1 + 2 * length (h_commands w)"
proof -
  let ?start = "register_builtins executor_new" and ?inputs = "map fst (h_commands w)"
  have w: "run_commands ?start ?inputs = Inr (map snd (h_commands w), w_executor w)"
    "\<forall>input \<in> set ?inputs. length input \<le> MAX_MESSAGE_SIZE"
    using assms(1) by (simp_all add: world_ok_def)
  have "\<forall>input \<in> set ?inputs. length input < str_limit"
    using w(2) by (fastforce simp: MAX_MESSAGE_SIZE_def str_limit_def)
  then have c: "case spec_commands (ex_abs ?start) ?inputs of
      None \<Rightarrow> run_commands ?start ?inputs = Inl Out_Of_Bounds
    | Some (rs, \<sigma>) \<Rightarrow> \<exists>ex'. run_commands ?start ?inputs = Inr (rs, ex') \<and> ex_inv ex' \<and> ex_abs ex' = \<sigma>
        \<and> ex_budget ex' \<le> ex_budget ?start + 2 * length ?inputs"
    using assms(2) by (intro run_commands_ok ex_inv_start(1)) (simp_all add: ex_inv_start(3) str_limit_def)
  show "spec_commands Map.empty ?inputs = Some (map snd (h_commands w), ex_abs (w_executor w))"
    and "ex_inv (w_executor w)" and "ex_budget (w_executor w) \<le> 1 + 2 * length (h_commands w)"
    using c w(1) unfolding ex_inv_start(2,3) by (auto split: option.splits)
qed

lemma sockets_ok_swap: "sockets_ok (xs @ ys) os \<Longrightarrow> sockets_ok (ys @ xs) os"
  by (auto simp: sockets_ok_def)

section \<open>Properties\<close>

text \<open>At every reachable state of the server, what has been sent on a connection is, byte for
  byte, a prefix of the framed replies to the requests that came on it, in their order; the rest is
  what the connection's writer still holds, and with nothing pending every reply has been sent.\<close>

theorem server_sends_replies:
  assumes "server_reach srv w" and "client \<in> set (m_clients srv)"
  shows "w_sent w (cc_fd client) @ remaining (cc_writer client)
      = concat (map frame (h_replies w (cc_fd client)))
    \<and> (\<not> has_pending_message (cc_writer client) \<longrightarrow>
        w_sent w (cc_fd client) = concat (map frame (h_replies w (cc_fd client))))"
proof -
  have "conn_ok w client"
    using server_reach_ok [OF assms(1)] assms(2) by (simp add: server_ok_def clients_ok_def)
  then show ?thesis by (auto simp: conn_ok_def remaining_def has_pending_message_def)
qed

theorem server_sends_replies_witness:
  "\<exists>srv w client. server_reach srv w \<and> client \<in> set (m_clients srv)
    \<and> w_sent w (cc_fd client) = concat (map frame (h_replies w (cc_fd client)))"
proof -
  obtain srv w client where e: "server_reach srv w" "m_clients srv = [client]" "cc_fd client = 4"
    "m_fd (m_listen_socket srv) = 3" "w_sent w 4 = []" "h_commands w = []" "w_log w = [Listening (inet_ntoa 0) 6337]"
    "cc_writer client = writer_new" "cc_reader client = reader_new"
    by (rule server_example)
  then have mem: "client \<in> set (m_clients srv)" by simp
  have "w_sent w (cc_fd client) = concat (map frame (h_replies w (cc_fd client)))"
    using server_sends_replies [OF e(1) mem] e(8) by (simp add: has_pending_message_def)
  then show ?thesis using e(1) mem by blast
qed

text \<open>The commands of all connections take effect one after the other: at every reachable state
  with fewer than 2^31 commands executed, the results of the commands and the contents of the store
  are those of running the same commands in this order on an abstract map.\<close>

theorem server_history_correct:
  assumes "server_reach srv w" and "2 * length (h_commands w) < 4294967296"
  shows "spec_commands Map.empty (map fst (h_commands w))
    = Some (map snd (h_commands w), ex_abs (w_executor w)) \<and> ex_inv (w_executor w)"
  using server_reach_ok [OF assms(1)] world_ok_executor [OF _ assms(2)]
  by (simp add: server_ok_def clients_ok_def)

theorem server_history_correct_witness:
  "\<exists>srv w. server_reach srv w \<and> m_clients srv \<noteq> [] \<and> ex_abs (w_executor w) = Map.empty"
proof -
  obtain srv w client where e: "server_reach srv w" "m_clients srv = [client]" "cc_fd client = 4"
    "m_fd (m_listen_socket srv) = 3" "w_sent w 4 = []" "h_commands w = []" "w_log w = [Listening (inet_ntoa 0) 6337]"
    "cc_writer client = writer_new" "cc_reader client = reader_new"
    by (rule server_example)
  have "ex_abs (w_executor w) = Map.empty" using server_history_correct [OF e(1)] e(6) by simp
  moreover have "m_clients srv \<noteq> []" using e(2) by simp
  ultimately show ?thesis using e(1) by blast
qed

text \<open>C11: at every reachable state the open descriptors of the process are exactly the listening one
  and one per connection, all different, and none has been closed twice.\<close>

theorem server_descriptors:
  assumes "server_reach srv w"
  shows "os_open (w_os w) = set (m_fd (m_listen_socket srv) # map cc_fd (m_clients srv))
    \<and> distinct (m_fd (m_listen_socket srv) # map cc_fd (m_clients srv)) \<and> os_bad_closes (w_os w) = 0"
proof -
  let ?ss = "m_listen_socket srv # map cc_socket (m_clients srv)"
  have ok: "server_ok srv w" by (rule server_reach_ok [OF assms])
  then have "\<forall>s \<in> set ?ss. is_valid s" by (auto simp: server_ok_def clients_ok_def conn_ok_def)
  from owned_fds_valid [OF this] have "owned_fds ?ss = m_fd (m_listen_socket srv) # map cc_fd (m_clients srv)"
    by simp
  then show ?thesis using ok by (auto simp: server_ok_def clients_ok_def sockets_ok_def)
qed

theorem server_descriptors_witness:
  "\<exists>srv w. server_reach srv w \<and> os_open (w_os w) = {3, 4}"
proof -
  obtain srv w client where e: "server_reach srv w" "m_clients srv = [client]" "cc_fd client = 4"
    "m_fd (m_listen_socket srv) = 3" "w_sent w 4 = []" "h_commands w = []" "w_log w = [Listening (inet_ntoa 0) 6337]"
    "cc_writer client = writer_new" "cc_reader client = reader_new"
    by (rule server_example)
  have "os_open (w_os w) = {3, 4}" using server_descriptors [OF e(1)] e(2-4) by simp
  then show ?thesis using e(1) by blast
qed

text \<open>\<open>Server::close\<close>, at any reachable state, closes every descriptor once and leaves neither a
  connection nor a listening socket.\<close>

theorem server_close_correct:
  assumes "server_reach srv w"
  shows "\<exists>srv' os'. server_close srv (w_os w) = (srv', os') \<and> os_open os' = {} \<and> os_bad_closes os' = 0
    \<and> m_clients srv' = [] \<and> \<not> is_valid (m_listen_socket srv')"
proof -
  let ?cs = "map cc_socket (m_clients srv)"
  have ok: "sockets_ok ([m_listen_socket srv] @ ?cs) (w_os w)" "is_valid (m_listen_socket srv)"
    using server_reach_ok [OF assms] by (simp_all add: server_ok_def clients_ok_def)
  from ok(1) have "sockets_ok (?cs @ [m_listen_socket srv]) (w_os w)" by (rule sockets_ok_swap)
  then have "sockets_ok [m_listen_socket srv] (vector_clear ?cs (w_os w))" by (rule vector_clear_ok)
  then have o: "os_open (vector_clear ?cs (w_os w)) = {m_fd (m_listen_socket srv)}"
    "os_bad_closes (vector_clear ?cs (w_os w)) = 0"
    using ok(2) by (simp_all add: sockets_ok_def owned_fds_def is_valid_def)
  show ?thesis using o ok(2)
    by (simp add: server_close_def socket_reset_def close_fd_def is_valid_def)
qed

theorem server_close_correct_witness:
  "\<exists>srv (w :: world) srv' os'. os_open (w_os w) \<noteq> {} \<and> server_close srv (w_os w) = (srv', os') \<and> os_open os' = {}"
proof -
  obtain srv w client where e: "server_reach srv w" "m_clients srv = [client]" "cc_fd client = 4"
    "m_fd (m_listen_socket srv) = 3" "w_sent w 4 = []" "h_commands w = []" "w_log w = [Listening (inet_ntoa 0) 6337]"
    "cc_writer client = writer_new" "cc_reader client = reader_new"
    by (rule server_example)
  have "sockets_ok ([m_listen_socket srv] @ map cc_socket (m_clients srv)) (w_os w)"
    using server_reach_ok [OF e(1)] by (simp add: server_ok_def clients_ok_def)
  then have "os_open (w_os w) \<noteq> {}" using e by (auto simp: sockets_ok_def owned_fds_def)
  moreover obtain srv' os' where "server_close srv (w_os w) = (srv', os')" "os_open os' = {}"
    using server_close_correct [OF e(1)] by blast
  ultimately show ?thesis by blast
qed

text \<open>The states that the code provides for but never enters: no connection is ever marked to be
  closed after writing (the only command that stops has no output), and the writer never refuses a
  reply because another one is pending.\<close>

theorem server_unreachable_states:
  assumes "server_reach srv w"
  shows "(\<forall>client \<in> set (m_clients srv). \<not> cc_close_after_write client)
    \<and> (\<forall>op e. Io_Error op e \<in> set (w_log w) \<longrightarrow> err_kind e \<noteq> Invalid_Frame)"
  using server_reach_ok [OF assms] by (auto simp: server_ok_def clients_ok_def conn_ok_def world_ok_def)

theorem server_unreachable_states_witness:
  "\<exists>srv w. server_reach srv w \<and> m_clients srv \<noteq> []
    \<and> (\<forall>client \<in> set (m_clients srv). \<not> cc_close_after_write client)"
proof -
  obtain srv w client where e: "server_reach srv w" "m_clients srv = [client]" "cc_fd client = 4"
    "m_fd (m_listen_socket srv) = 3" "w_sent w 4 = []" "h_commands w = []" "w_log w = [Listening (inet_ntoa 0) 6337]"
    "cc_writer client = writer_new" "cc_reader client = reader_new"
    by (rule server_example)
  have "m_clients srv \<noteq> []" using e(2) by simp
  then show ?thesis using e(1) server_unreachable_states [OF e(1)] by blast
qed

lemma has_event_POLLIN [simp]:
  "has_event POLLIN POLLIN" "\<not> has_event POLLIN POLLOUT" "\<not> has_event POLLIN POLLHUP"
  "\<not> has_event POLLIN (POLLERR OR POLLNVAL)"
  by (simp_all add: has_event_def POLLIN_def POLLOUT_def POLLERR_def POLLHUP_def POLLNVAL_def)

text \<open>A readable connection whose bytes complete a frame.\<close>

lemma handle_whole_frame:
  assumes inv: "conn_ok w client" and st: "stream (w_recv w (cc_fd client)) = (bs, s, rest)"
    and whole: "parse_frame (progress (cc_reader client) @ bs) = Whole msg bs'"
  obtains es where "stream es = (bs', s, rest)"
    and "handle_client_events client POLLIN w
      = bind_io (handle_request (client\<lparr>cc_reader := reader_new\<rparr>) msg
                   (received (cc_fd client) es w)) done_io"
proof -
  have rinv: "reader_inv (cc_reader client)" using inv by (simp add: conn_ok_def)
  from read_from_stream [OF rinv st] whole obtain es where
    es: "read_from (cc_reader client) (w_recv w (cc_fd client))
       = Some (Inr \<lparr>status = Complete, message = msg\<rparr>, reader_new, es)" "stream es = (bs', s, rest)"
    by (auto simp: read_spec_def read_complete_def)
  have "handle_client_events client POLLIN w
      = bind_io (handle_request (client\<lparr>cc_reader := reader_new\<rparr>) msg
                   (received (cc_fd client) es w)) done_io"
    using es(1)
    by (auto simp: handle_client_events_def handle_readable_def native_handle_def Let_def
        intro!: arg_cong2 [of _ _ _ _ bind_io])
  with es(2) show thesis by (rule that)
qed

text \<open>C14: a request whose last byte has arrived is answered in the same iteration: the handler runs
  the command, keeps the connection with exactly the framed reply to be sent and the reader at the
  start of the next frame; \<open>exit\<close> ends the connection.\<close>

theorem request_is_answered:
  assumes "conn_ok w client" and "\<not> has_pending_message (cc_writer client)"
    and "stream (w_recv w (cc_fd client)) = (bs, s, rest)"
    and "parse_frame (progress (cc_reader client) @ bs) = Whole msg bs'"
    and "run_command (w_executor w) msg = Inr (r, ex)" and "world_ok w"
    and "length (res_output r) \<le> MAX_MESSAGE_SIZE"
  shows "\<exists>client' w'. handle_client_events client POLLIN w = Inr (Some (\<not> res_stop r, client', w'))
    \<and> w_executor w' = ex \<and> progress (cc_reader client') = []
    \<and> stream (w_recv w' (cc_fd client)) = (bs', s, rest)
    \<and> remaining (cc_writer client') = (if res_stop r then [] else frame (res_output r))"
proof -
  obtain es where es: "stream es = (bs', s, rest)"
    and h: "handle_client_events client POLLIN w
      = bind_io (handle_request (client\<lparr>cc_reader := reader_new\<rparr>) msg
                   (received (cc_fd client) es w)) done_io"
    by (rule handle_whole_frame [OF assms(1,3,4)])
  have idle: "\<not> w_pending (cc_writer client)" using assms(2) by (simp add: has_pending_message_def)
  have "writer_inv (cc_writer client)" using assms(1) by (simp add: conn_ok_def)
  from queue_ok [OF this idle assms(7)] obtain wr where
    q: "queue (cc_writer client) (res_output r) = (Inr (), wr)" "remaining wr = frame (res_output r)"
    by blast
  have "ex_commands (w_executor w) = builtin_table" using assms(6) by (simp add: world_ok_def)
  note stop = run_command_stop(2) [OF this assms(5)]
  show ?thesis
  proof (cases "res_stop r")
    case True
    then show ?thesis using h assms(5) stop idle es
      by (simp add: handle_request_def Let_def remaining_def)
  next
    case False
    then show ?thesis using h assms(5) q es
      by (simp add: handle_request_def Let_def native_handle_def)
  qed
qed

text \<open>A connection on which the bytes \<open>bs\<close> have arrived at a server that has just started.\<close>

definition example_client :: client_connection where
  "example_client = \<lparr>cc_socket = socket_of 4, cc_reader = reader_new, cc_writer = writer_new,
     cc_close_after_write = False\<rparr>"

definition example_world :: "string \<Rightarrow> world" where
  "example_world bs = \<lparr>w_os = \<lparr>os_open = {4}, os_bad_closes = 0\<rparr>, w_recv = (\<lambda>_. [Received bs]),
     w_send = (\<lambda>_. []), w_sent = (\<lambda>_. []), w_log = [], w_executor = register_builtins executor_new,
     h_commands = [], h_replies = (\<lambda>_. []),
        h_requests = (\<lambda>_. []), h_received = (\<lambda>_. [])\<rparr>"

lemma example_ok:
  "conn_ok (example_world bs) example_client" "world_ok (example_world bs)"
  "cc_writer example_client = writer_new" "progress (cc_reader example_client) = []"
  "bs \<noteq> [] \<Longrightarrow> stream (w_recv (example_world bs) fd) = (bs, Exhausted, [])"
  "w_executor (example_world bs) = register_builtins executor_new"
  using ex_inv_start(1)
  by (simp_all add: conn_ok_def is_valid_def socket_of_def example_client_def example_world_def
      world_ok_def ex_inv_def)

theorem request_is_answered_witness:
  "\<exists>client' w'. handle_client_events example_client POLLIN (example_world (frame ''ping''))
      = Inr (Some (True, client', w'))
    \<and> remaining (cc_writer client') = frame ''pong''"
proof -
  have p: "parse_frame (frame ''ping'') = Whole ''ping'' []"
    using parse_frame_frame [of "''ping''" "[]"] by (simp add: MAX_MESSAGE_SIZE_def)
  obtain ex where r: "run_command (register_builtins executor_new) ''ping''
      = Inr (default_result\<lparr>res_output := ''pong''\<rparr>, ex)"
    using run_command_ok [OF ex_inv_start(1), of "''ping''"] ex_inv_start(3)
    by (auto simp: run_ok_def str_limit_def spec_command_def is_whitespace_def arity_def)
  show ?thesis
    using request_is_answered [of "example_world (frame ''ping'')" example_client "frame ''ping''"
        Exhausted "[]" "''ping''" "[]" "default_result\<lparr>res_output := ''pong''\<rparr>" ex] p r
    by (auto simp: example_ok has_pending_message_def default_result_def MAX_MESSAGE_SIZE_def)
qed

lemma arity_length: "arity t = Some n \<Longrightarrow> length t \<le> 5"
  by (auto simp: arity_def split: if_splits)

text \<open>C37: a request within the limit can make the server drop the connection without a reply: the
  reply to an unknown command quotes it, and for a command of more than 16777215 - 18 characters it
  is longer than a message may be.\<close>

theorem long_unknown_command_drops:
  assumes "conn_ok w client" and "world_ok w" and "\<not> has_pending_message (cc_writer client)"
    and "stream (w_recv w (cc_fd client)) = (frame msg, s, rest)" and "progress (cc_reader client) = []"
    and "\<forall>c \<in> set msg. \<not> is_whitespace c"
    and "MAX_MESSAGE_SIZE - 18 < length msg" and "length msg \<le> MAX_MESSAGE_SIZE"
    and "run_command (w_executor w) msg = Inr (r, ex)"
  shows "\<exists>client' w' e. handle_client_events client POLLIN w = Inr (Some (False, client', w'))
    \<and> w_log w' = w_log w @ [Io_Error ''Error queuing message'' e] \<and> err_kind e = Message_Too_Large
    \<and> w_sent w' = w_sent w \<and> h_replies w' = h_replies w \<and> w_executor w' = w_executor w"
proof -
  have "parse_frame (progress (cc_reader client) @ frame msg) = Whole msg []"
    using parse_frame_frame [OF assms(8), of "[]"] assms(5) by simp
  from handle_whole_frame [OF assms(1,4) this] obtain es where
    h: "handle_client_events client POLLIN w
      = bind_io (handle_request (client\<lparr>cc_reader := reader_new\<rparr>) msg
                   (received (cc_fd client) es w)) done_io"
    by blast
  have tok: "tokens msg = [msg]" using assms(6,7) by (intro tokens_single) auto
  have "\<not> length msg \<le> 5" using assms(7) by (simp add: MAX_MESSAGE_SIZE_def)
  then have "arity msg = None" using arity_length by (cases "arity msg") auto
  moreover have "ex_commands (w_executor w) = builtin_table" using assms(2) by (simp add: world_ok_def)
  ultimately have r: "r = error_result (no_such_command msg)" "ex = w_executor w"
    using run_command_stop(3) [OF _ assms(9) tok] by auto
  have "MAX_MESSAGE_SIZE < length (res_output r)"
    using assms(7) by (simp add: r error_result_def no_such_command_def)
  then obtain e where q: "queue (cc_writer client) (res_output r) = (Inl e, cc_writer client)"
    "err_kind e = Message_Too_Large"
    using queue_refuses(2) [of "cc_writer client" "res_output r"] assms(3)
    by (auto simp: has_pending_message_def)
  have "\<not> res_stop r" by (simp add: r error_result_def default_result_def)
  then show ?thesis
    using h assms(9) q r(2) by (simp add: handle_request_def Let_def log_io_error_def)
qed

theorem long_unknown_command_drops_witness:
  "\<exists>msg client' w'. length msg \<le> MAX_MESSAGE_SIZE
    \<and> handle_client_events example_client POLLIN (example_world (frame msg)) = Inr (Some (False, client', w'))
    \<and> w_sent w' = (\<lambda>_. [])"
proof -
  define msg where "msg = replicate 16777200 CHR ''x''"
  have m: "\<forall>c \<in> set msg. \<not> is_whitespace c" "length msg = 16777200"
    by (simp_all only: msg_def length_replicate set_replicate_conv_if) (simp add: is_whitespace_def)
  have len: "length msg < str_limit" using m(2) by (simp add: str_limit_def)
  have "tokens msg = [msg]" using m by (intro tokens_single) auto
  moreover have "arity msg = None" using arity_length [of msg] m(2) by (cases "arity msg") auto
  ultimately have "spec_command Map.empty msg = Some (error_result (no_such_command msg), Map.empty)"
    by (simp add: spec_command_def)
  then obtain ex where r: "run_command (register_builtins executor_new) msg
      = Inr (error_result (no_such_command msg), ex)"
    using run_command_ok [OF ex_inv_start(1) _ len] ex_inv_start(2,3)
    by (auto simp: run_ok_def str_limit_def)
  have "\<exists>client' w' e. handle_client_events example_client POLLIN (example_world (frame msg))
      = Inr (Some (False, client', w'))
    \<and> w_log w' = w_log (example_world (frame msg)) @ [Io_Error ''Error queuing message'' e]
    \<and> err_kind e = Message_Too_Large \<and> w_sent w' = w_sent (example_world (frame msg))
    \<and> h_replies w' = h_replies (example_world (frame msg))
    \<and> w_executor w' = w_executor (example_world (frame msg))"
    by (rule long_unknown_command_drops [where msg = msg and s = Exhausted and rest = "[]"
          and r = "error_result (no_such_command msg)" and ex = ex])
       (use m r in \<open>simp_all add: example_ok has_pending_message_def MAX_MESSAGE_SIZE_def\<close>)
  moreover have "w_sent (example_world (frame msg)) = (\<lambda>_. [])" by (simp add: example_world_def)
  moreover have "length msg \<le> MAX_MESSAGE_SIZE" using m(2) by (simp add: MAX_MESSAGE_SIZE_def)
  ultimately show ?thesis by metis
qed

end
