(* ===== verification/Client.thy ===== *)
theory Client
  imports Message Socket
begin

text \<open>
  The client (client/include/attokv_client/client.h, client/src/client.cpp): connecting, and one
  command as a request and its reply on a blocking socket.

  What the calls of the system return is an argument; \<open>strerror\<close> stands for the texts of the error
  numbers.
\<close>

record client =
  cl_socket :: socket

definition client_new :: client where
  "client_new = \<lparr>cl_socket = socket_new\<rparr>"

section \<open>Connecting\<close>

record connect_calls =
  cn_strerror :: "int \<Rightarrow> string"
  cn_socket :: int
  cn_socket_errno :: int
  cn_inet_aton :: "string \<Rightarrow> u32 option"
  cn_connect :: "sockaddr_in \<Rightarrow> int option"
  cn_setsockopt :: "int \<Rightarrow> int option"

text \<open>The local socket of \<open>connect\<close> is destroyed on every return.\<close>

definition client_connect ::
  "connect_calls \<Rightarrow> string \<Rightarrow> int \<Rightarrow> client \<Rightarrow> os \<Rightarrow> (string + unit) \<times> client \<times> os" where
  "client_connect calls address port cl os =
     (let socket = socket_of (cn_socket calls)
      in if \<not> is_valid socket then
           (Inl (''Failed to create socket: '' @ cn_strerror calls (cn_socket_errno calls)), cl, os)
         else
           let os1 = os\<lparr>os_open := insert (cn_socket calls) (os_open os)\<rparr>;
               failed = (\<lambda>msg. (Inl msg, cl, socket_destroy socket os1))
           in case make_sockaddr (cn_inet_aton calls) address port of
                Inl e \<Rightarrow> failed (''Failed to construct address: '' @ e)
              | Inr sock_addr \<Rightarrow>
                  (case cn_connect calls sock_addr of
                     Some errno \<Rightarrow> failed (''Failed to connect: '' @ cn_strerror calls errno)
                   | None \<Rightarrow>
                       (case set_nodelay (cn_setsockopt calls) True of
                          Inl errno \<Rightarrow> failed (''Failed to configure socket: '' @ cn_strerror calls errno)
                        | Inr _ \<Rightarrow>
                            let (mine, rest, os2) = socket_move_assign (cl_socket cl) socket os1
                            in (Inr (), cl\<lparr>cl_socket := mine\<rparr>, socket_destroy rest os2))))"

text \<open>The end of the lifetime of a client.\<close>

definition client_destroy :: "client \<Rightarrow> os \<Rightarrow> os" where
  "client_destroy cl os = socket_destroy (cl_socket cl) os"

section \<open>One command\<close>

text \<open>The two directions of the connection.\<close>

record link =
  ln_recv :: "recv_event list"
  ln_send :: "send_event list"
  ln_sent :: string

definition reset_client :: "client \<Rightarrow> os \<Rightarrow> client \<times> os" where
  "reset_client cl os =
     (let (s, os') = socket_reset (cl_socket cl) (-1) os in (cl\<lparr>cl_socket := s\<rparr>, os'))"

definition client_command ::
  "client \<Rightarrow> string \<Rightarrow> link \<Rightarrow> os \<Rightarrow> ((io_error + string option) \<times> client \<times> link \<times> os) option" where
  "client_command cl input ln os =
     (case write_message input (ln_send ln) (ln_sent ln) of
        None \<Rightarrow> None
      | Some (written, tx, sent) \<Rightarrow>
          let ln1 = ln\<lparr>ln_send := tx, ln_sent := sent\<rparr>
          in case written of
               Inl e \<Rightarrow> let (cl', os') = reset_client cl os in Some (Inl e, cl', ln1, os')
             | Inr _ \<Rightarrow>
                 (case read_message (ln_recv ln1) of
                    None \<Rightarrow> None
                  | Some (answer, rx) \<Rightarrow>
                      let ln2 = ln1\<lparr>ln_recv := rx\<rparr>
                      in case answer of
                           Inl e \<Rightarrow> let (cl', os') = reset_client cl os in Some (Inl e, cl', ln2, os')
                         | Inr None \<Rightarrow>
                             let (cl', os') = reset_client cl os in Some (Inr None, cl', ln2, os')
                         | Inr (Some msg) \<Rightarrow> Some (Inr (Some msg), cl, ln2, os)))"

section \<open>Lemmas\<close>

lemma accepts_replicate: "accepts (replicate n (Accepted (Suc 0))) = n"
  by (induction n) simp_all

lemma write_message_completes:
  assumes "length msg \<le> MAX_MESSAGE_SIZE" and "4 + length msg + extra \<le> accepts es"
  shows "\<exists>es'. write_message msg es out = Some (Inr (), es', out @ frame msg) \<and> extra \<le> accepts es'"
proof -
  from send_loop_completes [of 0 "frame_header (length msg)" "length msg + extra" es out] assms(2)
  obtain es1 out1 where l1: "send_loop (frame_header (length msg)) 0 es out = Some (Filled, 4, es1, out1)"
    "length msg + extra \<le> accepts es1" by auto
  from send_loop_completes [of 0 msg extra es1 out1] l1(2) obtain es2 out2 where
    l2: "send_loop msg 0 es1 out1 = Some (Filled, length msg, es2, out2)" "extra \<le> accepts es2" by auto
  have run: "write_message msg es out = Some (Inr (), es2, out2)"
    using l1(1) l2(1) assms(1) by (simp add: write_message_def write_all_def)
  from write_message_sent(1) [OF run assms(1)] obtain sent unsent where
    "out2 = out @ sent" "frame msg = sent @ unsent" "unsent = []" by auto
  then show ?thesis using run l2(2) by simp
qed

lemma client_command_ok:
  assumes "length input \<le> MAX_MESSAGE_SIZE" and "4 + length input + extra \<le> accepts (ln_send ln)"
    and "length reply \<le> MAX_MESSAGE_SIZE" and "stream (ln_recv ln) = (frame reply @ later, s, rest)"
  shows "\<exists>ln'. client_command cl input ln os = Some (Inr (Some reply), cl, ln', os)
    \<and> ln_sent ln' = ln_sent ln @ frame input \<and> stream (ln_recv ln') = (later, s, rest)
    \<and> extra \<le> accepts (ln_send ln')"
proof -
  from write_message_completes [OF assms(1,2)] obtain tx where
    w: "write_message input (ln_send ln) (ln_sent ln) = Some (Inr (), tx, ln_sent ln @ frame input)"
    "extra \<le> accepts tx"
    by blast
  from read_message_stream [OF assms(4)] parse_frame_frame [OF assms(3), of later] obtain rx where
    "read_message (ln_recv ln) = Some (Inr (Some reply), rx)" "stream rx = (later, s, rest)"
    by (auto simp: read_message_spec_def)
  then show ?thesis using w by (simp add: client_command_def Let_def)
qed

lemma reset_client_closes:
  assumes "cl_socket cl = socket_of fd" and "fd \<noteq> -1" and "fd \<in> os_open os"
  shows "reset_client cl os = (cl\<lparr>cl_socket := socket_new\<rparr>, os\<lparr>os_open := os_open os - {fd}\<rparr>)"
  using assms by (simp add: reset_client_def socket_reset_def socket_of_def socket_new_def close_fd_def)

lemma client_connect_ok:
  assumes "client_connect calls address port cl os = (res, cl', os')"
    and "cn_socket calls \<notin> os_open os" and "-1 \<notin> os_open os" and "cn_socket calls \<noteq> m_fd (cl_socket cl)"
    and "is_valid (cl_socket cl) \<longrightarrow> m_fd (cl_socket cl) \<in> os_open os"
  shows "case res of
      Inl _ \<Rightarrow> cl' = cl \<and> os' = os
    | Inr _ \<Rightarrow> m_fd (cl_socket cl') = cn_socket calls \<and> is_valid (cl_socket cl')
        \<and> os_open os' = insert (cn_socket calls) (os_open os - {m_fd (cl_socket cl)})
        \<and> os_bad_closes os' = os_bad_closes os"
proof (cases "is_valid (socket_of (cn_socket calls))")
  case False
  then show ?thesis using assms(1) by (auto simp: client_connect_def Let_def)
next
  case True
  define os1 where "os1 = os\<lparr>os_open := insert (cn_socket calls) (os_open os)\<rparr>"
  have d: "socket_destroy (socket_of (cn_socket calls)) os1 = os"
    using True assms(2)
    by (simp add: os1_def socket_destroy_def socket_reset_def socket_of_def close_fd_def is_valid_def)
  show ?thesis
  proof (cases res)
    case (Inl e)
    then show ?thesis using assms(1) True d
      by (auto simp: client_connect_def Let_def os1_def [symmetric] split: sum.splits option.splits prod.splits)
  next
    case (Inr u)
    then obtain mine rest os2 where m: "socket_move_assign (cl_socket cl) (socket_of (cn_socket calls)) os1 = (mine, rest, os2)"
      and r: "cl' = cl\<lparr>cl_socket := mine\<rparr>" "os' = socket_destroy rest os2"
      using assms(1) True
      by (auto simp: client_connect_def Let_def os1_def [symmetric] split: sum.splits option.splits prod.splits)
    have "m_fd mine = cn_socket calls" "m_fd rest = -1"
      "os2 = (if m_fd (cl_socket cl) \<noteq> -1 then close_fd (m_fd (cl_socket cl)) os1 else os1)"
      using m assms(4)
      by (auto simp: socket_move_assign_def socket_release_def socket_reset_def socket_of_def)
    then show ?thesis using Inr r True assms(3-5)
      by (auto simp: socket_destroy_def socket_reset_def close_fd_def os1_def is_valid_def socket_of_def)
  qed
qed

text \<open>What becomes of the socket.\<close>

lemma client_command_ends:
  assumes "client_command cl input ln os = Some (res, cl', ln', os')"
    and "cl_socket cl = socket_of fd" and "fd \<noteq> -1" and "fd \<in> os_open os"
  shows "if (\<exists>reply. res = Inr (Some reply)) then cl' = cl \<and> os' = os
    else \<not> is_valid (cl_socket cl') \<and> os_open os' = os_open os - {fd} \<and> os_bad_closes os' = os_bad_closes os"
proof -
  note rc = reset_client_closes [OF assms(2-4)]
  obtain written tx sent where w: "write_message input (ln_send ln) (ln_sent ln) = Some (written, tx, sent)"
    using assms(1) by (cases "write_message input (ln_send ln) (ln_sent ln)") (auto simp: client_command_def)
  show ?thesis
  proof (cases written)
    case (Inl e)
    then show ?thesis using assms(1) w rc
      by (auto simp: client_command_def Let_def is_valid_def socket_new_def)
  next
    case (Inr u)
    then obtain answer rx where a: "read_message (ln_recv ln) = Some (answer, rx)"
      using assms(1) w by (cases "read_message (ln_recv ln)") (auto simp: client_command_def)
    consider (err) e where "answer = Inl e" | (closed) "answer = Inr None" | (reply) m where "answer = Inr (Some m)"
      by (metis old.sum.exhaust option.exhaust)
    then show ?thesis
      using assms(1) w Inr a rc
      by cases (auto simp: client_command_def Let_def is_valid_def socket_new_def)
  qed
qed

section \<open>Properties\<close>

text \<open>\<open>Client::connect\<close> never leaks a descriptor: when it fails, the client and the open
  descriptors are as before; when it succeeds, the client owns the new one and the previous one of the
  client has been closed.\<close>

theorem client_connect_descriptors:
  assumes "client_connect calls address port cl os = (res, cl', os')"
    and "cn_socket calls \<notin> os_open os" and "-1 \<notin> os_open os" and "cn_socket calls \<noteq> m_fd (cl_socket cl)"
    and "is_valid (cl_socket cl) \<longrightarrow> m_fd (cl_socket cl) \<in> os_open os"
  shows "case res of
      Inl _ \<Rightarrow> cl' = cl \<and> os' = os
    | Inr _ \<Rightarrow> m_fd (cl_socket cl') = cn_socket calls \<and> is_valid (cl_socket cl')
        \<and> os_open os' = insert (cn_socket calls) (os_open os - {m_fd (cl_socket cl)})
        \<and> os_bad_closes os' = os_bad_closes os"
  using assms by (rule client_connect_ok)

theorem client_connect_descriptors_witness:
  "\<exists>res cl' os'. client_connect \<lparr>cn_strerror = (\<lambda>_. []), cn_socket = 5, cn_socket_errno = 0,
       cn_inet_aton = (\<lambda>_. Some 0), cn_connect = (\<lambda>_. Some 111), cn_setsockopt = (\<lambda>_. None)\<rparr>
       ''127.0.0.1'' 6337 client_new \<lparr>os_open = {0}, os_bad_closes = 0\<rparr> = (res, cl', os')
     \<and> res = Inl ''Failed to connect: '' \<and> os_open os' = {0}"
proof -
  let ?calls = "\<lparr>cn_strerror = (\<lambda>_. []), cn_socket = 5, cn_socket_errno = 0,
       cn_inet_aton = (\<lambda>_. Some 0), cn_connect = (\<lambda>_. Some 111), cn_setsockopt = (\<lambda>_. None)\<rparr>"
  let ?os = "\<lparr>os_open = {0}, os_bad_closes = 0\<rparr>"
  obtain res cl' os' where run: "client_connect ?calls ''127.0.0.1'' 6337 client_new ?os = (res, cl', os')"
    by (metis prod_cases3)
  then have "res = Inl ''Failed to connect: ''"
    by (auto simp: client_connect_def make_sockaddr_def is_valid_def socket_of_def Let_def)
  moreover from client_connect_descriptors [OF run] this have "os' = ?os"
    by (simp add: client_new_def socket_new_def is_valid_def)
  ultimately show ?thesis using run by simp
qed

text \<open>C32: \<open>Client::command\<close> sends exactly the frame of the input and returns the first message that the
  server sends, however its bytes arrive, leaving the following bytes for the next command.\<close>

theorem client_command_reply:
  assumes "length input \<le> MAX_MESSAGE_SIZE" and "4 + length input \<le> accepts (ln_send ln)"
    and "length reply \<le> MAX_MESSAGE_SIZE" and "stream (ln_recv ln) = (frame reply @ later, s, rest)"
  shows "\<exists>ln'. client_command cl input ln os = Some (Inr (Some reply), cl, ln', os)
    \<and> ln_sent ln' = ln_sent ln @ frame input \<and> stream (ln_recv ln') = (later, s, rest)"
  using client_command_ok [OF assms(1) _ assms(3,4), of 0 cl os] assms(2) by auto

theorem client_command_reply_witness:
  "\<exists>ln'. client_command client_new [] \<lparr>ln_recv = [Received (frame ''NULL'')],
      ln_send = replicate 4 (Accepted 1), ln_sent = []\<rparr> \<lparr>os_open = {}, os_bad_closes = 0\<rparr>
      = Some (Inr (Some ''NULL''), client_new, ln', \<lparr>os_open = {}, os_bad_closes = 0\<rparr>)
    \<and> ln_sent ln' = frame []"
proof -
  let ?ln = "\<lparr>ln_recv = [Received (frame ''NULL'')], ln_send = replicate 4 (Accepted 1), ln_sent = []\<rparr>"
  have "length ([] :: string) \<le> MAX_MESSAGE_SIZE" "length ''NULL'' \<le> MAX_MESSAGE_SIZE"
    by (simp_all add: MAX_MESSAGE_SIZE_def)
  moreover have "4 + length ([] :: string) \<le> accepts (ln_send ?ln)" by (simp add: accepts_replicate)
  moreover have "stream (ln_recv ?ln) = (frame ''NULL'' @ [], Exhausted, [])" by (simp add: frame_def)
  ultimately show ?thesis
    using client_command_reply [of "[]" ?ln "''NULL''" "[]" Exhausted "[]" client_new
        "\<lparr>os_open = {}, os_bad_closes = 0\<rparr>"] by auto
qed

text \<open>Whenever \<open>Client::command\<close> returns without a reply (an error, or the server closed the
  connection), the client has closed its socket, so that nothing of a half-done exchange can be taken
  for the answer to a later command; a reply keeps the connection as it is.\<close>

theorem client_command_failure:
  assumes "client_command cl input ln os = Some (res, cl', ln', os')"
    and "cl_socket cl = socket_of fd" and "fd \<noteq> -1" and "fd \<in> os_open os"
  shows "if (\<exists>reply. res = Inr (Some reply)) then cl' = cl \<and> os' = os
    else \<not> is_valid (cl_socket cl') \<and> os_open os' = os_open os - {fd} \<and> os_bad_closes os' = os_bad_closes os"
  using assms by (rule client_command_ends)

theorem client_command_failure_witness:
  "\<exists>cl' ln' os'. client_command \<lparr>cl_socket = socket_of 5\<rparr> []
      \<lparr>ln_recv = [Received []], ln_send = replicate 4 (Accepted 1), ln_sent = []\<rparr>
      \<lparr>os_open = {5}, os_bad_closes = 0\<rparr> = Some (Inr None, cl', ln', os') \<and> os_open os' = {}"
proof -
  let ?cl = "\<lparr>cl_socket = socket_of 5\<rparr>"
  let ?ln = "\<lparr>ln_recv = [Received []], ln_send = replicate 4 (Accepted 1), ln_sent = []\<rparr>"
  let ?os = "\<lparr>os_open = {5}, os_bad_closes = 0\<rparr>"
  from write_message_completes [of "[]" 0 "ln_send ?ln" "[]"] obtain tx where
    w: "write_message [] (replicate 4 (Accepted 1)) [] = Some (Inr (), tx, frame [])"
    by (auto simp: accepts_replicate)
  have "read_message [Received []] = Some (Inr None, [])"
    using read_message_stream [of "[Received []]"] by (simp add: read_message_spec_def parse_frame_def)
  moreover obtain cl' os' where "reset_client ?cl ?os = (cl', os')" by fastforce
  ultimately have "\<exists>ln'. client_command ?cl [] ?ln ?os = Some (Inr None, cl', ln', os')"
    using w by (simp add: client_command_def Let_def)
  then obtain ln' where run: "client_command ?cl [] ?ln ?os = Some (Inr None, cl', ln', os')" by blast
  from client_command_failure [OF run, of 5] have "os_open os' = {}" by simp
  with run show ?thesis by blast
qed

end
