(* ===== verification/CommandLine.thy ===== *)
theory CommandLine
  imports Executor Client Console
begin

text \<open>
  The two programs (server/src/main.cpp, client/src/main.cpp): their command lines, the REPL of the
  server and the session of the client.  The arguments are those behind the program name, a loop over
  lines of the standard input takes the list of the lines up to its end, and everything that is printed is
  returned.
\<close>

section \<open>The port\<close>

text \<open>The \<open>int&\<close> is assigned as soon as the number fits, also when it is then refused.\<close>

definition parse_port :: "string \<Rightarrow> int \<Rightarrow> bool \<times> int" where
  "parse_port input port =
     (let (ec, ptr, port') = from_chars (-2147483648) 2147483647 input port
      in (ec = No_Error \<and> ptr = length input \<and> 1 \<le> port' \<and> port' \<le> 65535, port'))"

section \<open>Options of the server\<close>

record server_options =
  so_host :: string
  so_port :: int
  so_repl :: bool

definition default_server_options :: server_options where
  "default_server_options = \<lparr>so_host = ''127.0.0.1'', so_port = 6337, so_repl = False\<rparr>"

definition server_usage :: console where
  "server_usage = Out (''Usage: attokv_server [--host <IPv4 address>] [--port <port>] [--repl]'' @ [LF])"

definition invalid_argument :: "string \<Rightarrow> console" where
  "invalid_argument argument = Err (''Invalid argument: '' @ argument @ [LF])"

text \<open>The result is what the function returns, the options and the \<open>help\<close> flag, and what is printed.\<close>

function parse_server_options ::
  "string list \<Rightarrow> server_options \<Rightarrow> (bool \<times> server_options \<times> bool) \<times> console list" where
  "parse_server_options [] options = ((True, options, False), [])"
| "parse_server_options (argument # args) options =
     (if argument = ''--help'' then ((True, options, True), [])
      else if argument = ''--repl'' then parse_server_options args (options\<lparr>so_repl := True\<rparr>)
      else if argument = ''--host'' \<and> args \<noteq> [] then
        parse_server_options (tl args) (options\<lparr>so_host := hd args\<rparr>)
      else if argument = ''--port'' \<and> args \<noteq> [] then
        (let (ok, port) = parse_port (hd args) (so_port options)
         in if ok then parse_server_options (tl args) (options\<lparr>so_port := port\<rparr>)
            else ((False, options\<lparr>so_port := port\<rparr>, False), [invalid_argument argument]))
      else ((False, options, False), [invalid_argument argument]))"
  by pat_completeness auto
termination by (relation "measure (\<lambda>(args, options). length args)") auto

text \<open>\<open>main\<close> up to the REPL or the server: it ends, or goes on with the registered commands.\<close>

datatype server_action = Exit nat | Start_Repl executor | Start_Server executor string int

definition server_main :: "string list \<Rightarrow> server_action \<times> console list" where
  "server_main args =
     (let ((ok, options, help), printed) = parse_server_options args default_server_options
      in if \<not> ok then (Exit 1, printed @ [server_usage])
         else if help then (Exit 0, printed @ [server_usage])
         else let ex = register_builtins executor_new
              in if so_repl options then (Start_Repl ex, printed @ [Out (''Repl mode enabled'' @ [LF])])
                 else (Start_Server ex (so_host options) (so_port options), printed))"

text \<open>The loop of \<open>run_repl\<close>; its local \<open>KVStore\<close> is not used.\<close>

fun run_repl :: "executor \<Rightarrow> string list \<Rightarrow> (console list \<times> executor) run" where
  "run_repl ex [] = Inr ([prompt], ex)"
| "run_repl ex (line # lines) =
     bind_run (run_command ex line) (\<lambda>(result, ex').
       let printed = prompt # (if res_output result \<noteq> [] then [reply_line (res_output result)] else [])
       in if \<not> res_error result \<and> res_stop result then Inr (printed, ex')
          else bind_run (run_repl ex' lines) (\<lambda>(more, ex''). Inr (printed @ more, ex'')))"

section \<open>Options and session of the client\<close>

record client_options =
  co_host :: string
  co_port :: int

definition default_client_options :: client_options where
  "default_client_options = \<lparr>co_host = ''127.0.0.1'', co_port = 6337\<rparr>"

definition client_usage :: console where
  "client_usage = Out (''Usage: attokv_client [--host <IPv4 address>] [--port <port>]'' @ [LF])"

function parse_client_options ::
  "string list \<Rightarrow> client_options \<Rightarrow> (bool \<times> client_options \<times> bool) \<times> console list" where
  "parse_client_options [] options = ((True, options, False), [])"
| "parse_client_options (argument # args) options =
     (if argument = ''--help'' then ((True, options, True), [])
      else if argument = ''--host'' \<and> args \<noteq> [] then
        parse_client_options (tl args) (options\<lparr>co_host := hd args\<rparr>)
      else if argument = ''--port'' \<and> args \<noteq> [] then
        (let (ok, port) = parse_port (hd args) (co_port options)
         in if ok then parse_client_options (tl args) (options\<lparr>co_port := port\<rparr>)
            else ((False, options\<lparr>co_port := port\<rparr>, False), [invalid_argument argument, client_usage]))
      else ((False, options, False), [invalid_argument argument, client_usage]))"
  by pat_completeness auto
termination by (relation "measure (\<lambda>(args, options). length args)") auto

text \<open>The loop over the lines: the exit code of the program and what it printed.\<close>

fun client_session ::
  "(int \<Rightarrow> string) \<Rightarrow> client \<Rightarrow> string list \<Rightarrow> link \<Rightarrow> os
    \<Rightarrow> (nat \<times> console list \<times> client \<times> link \<times> os) option" where
  "client_session strerror cl [] ln os = Some (0, [prompt], cl, ln, os)"
| "client_session strerror cl (line # lines) ln os =
     (case client_command cl line ln os of
        None \<Rightarrow> None
      | Some (Inl e, cl', ln', os') \<Rightarrow>
          Some (1, [prompt, error_line strerror ''Failed to call command'' e], cl', ln', os')
      | Some (Inr None, cl', ln', os') \<Rightarrow> Some (0, [prompt], cl', ln', os')
      | Some (Inr (Some reply), cl', ln', os') \<Rightarrow>
          map_option (\<lambda>(code, printed, x). (code, prompt # reply_line reply # printed, x))
            (client_session strerror cl' lines ln' os'))"

text \<open>\<open>main\<close> of the client: the exit code, what it printed, and the descriptors when its local \<open>Client\<close>
  has been destroyed.\<close>

definition client_main ::
  "connect_calls \<Rightarrow> string list \<Rightarrow> string list \<Rightarrow> link \<Rightarrow> os \<Rightarrow> (nat \<times> console list \<times> os) option" where
  "client_main calls args lines ln os =
     (let ((ok, options, help), printed) = parse_client_options args default_client_options
      in if \<not> ok then Some (1, printed, os)
         else if help then Some (0, printed @ [client_usage], os)
         else case client_connect calls (co_host options) (co_port options) client_new os of
             (Inl e, cl, os') \<Rightarrow>
               Some (1, printed @ [Err (''Failed to connect: '' @ e @ [LF])], client_destroy cl os')
           | (Inr _, cl, os') \<Rightarrow>
               map_option (\<lambda>(code, more, cl', _, os''). (code, printed @ more, client_destroy cl' os''))
                 (client_session (cn_strerror calls) cl lines ln os'))"

section \<open>Lemmas\<close>

lemma parse_port_whole:
  "parse_port s p = (let (ok, n) = parse_whole (-2147483648) 2147483647 s p in (ok \<and> 1 \<le> n \<and> n \<le> 65535, n))"
  by (simp add: parse_port_def parse_whole_def Let_def split: prod.splits)

lemma parse_port_iff:
  "fst (parse_port s p) \<longleftrightarrow>
     s \<noteq> [] \<and> (\<forall>c \<in> set s. is_digit c) \<and> 1 \<le> decimal s \<and> decimal s \<le> 65535"
  "fst (parse_port s p) \<Longrightarrow> snd (parse_port s p) = decimal s"
proof -
  have "(fst (parse_port s p) \<longleftrightarrow>
     s \<noteq> [] \<and> (\<forall>c \<in> set s. is_digit c) \<and> 1 \<le> decimal s \<and> decimal s \<le> 65535)
    \<and> (fst (parse_port s p) \<longrightarrow> snd (parse_port s p) = decimal s)"
  proof (cases "\<exists>t. s = CHR ''-'' # t")
    case True
    then obtain t where t: "s = CHR ''-'' # t" by blast
    have "(\<forall>c \<in> set t. is_digit c) \<Longrightarrow> 0 \<le> decimal t" by (rule decimal_nonneg)
    then have "\<not> fst (parse_port s p)"
      using parse_whole_negative [of "-2147483648" 2147483647 t p] t
      by (auto simp: parse_port_whole Let_def split: prod.splits)
    then show ?thesis using t not_digit_minus by auto
  next
    case False
    then have eq: "parse_whole (-2147483648) 2147483647 s p =
      (let ok = (s \<noteq> [] \<and> (\<forall>c \<in> set s. is_digit c) \<and> decimal s \<le> 2147483647)
       in (ok, if takeWhile is_digit s \<noteq> [] \<and> decimal (takeWhile is_digit s) \<le> 2147483647
               then decimal (takeWhile is_digit s) else p))"
      by (intro parse_whole_unsigned) auto
    show ?thesis
    proof (cases "s \<noteq> [] \<and> (\<forall>c \<in> set s. is_digit c) \<and> decimal s \<le> 2147483647")
      case True
      then have tw: "takeWhile is_digit s = s" by (simp only: takeWhile_eq_all_conv) simp
      show ?thesis using True unfolding parse_port_whole eq tw by (simp add: Let_def)
    next
      case False
      then show ?thesis unfolding parse_port_whole eq by (auto simp: Let_def)
    qed
  qed
  then show "fst (parse_port s p) \<longleftrightarrow>
     s \<noteq> [] \<and> (\<forall>c \<in> set s. is_digit c) \<and> 1 \<le> decimal s \<and> decimal s \<le> 65535"
    and "fst (parse_port s p) \<Longrightarrow> snd (parse_port s p) = decimal s" by simp_all
qed

lemma parse_server_options_port:
  "parse_server_options args o1 = ((True, o2, help), printed) \<Longrightarrow> 1 \<le> so_port o1 \<Longrightarrow> so_port o1 \<le> 65535 \<Longrightarrow>
    1 \<le> so_port o2 \<and> so_port o2 \<le> 65535"
proof (induction args o1 rule: parse_server_options.induct)
  case (1 options)
  then show ?case by simp
next
  case (2 argument args options)
  show ?case
  proof (cases "argument = ''--port'' \<and> args \<noteq> []")
    case True
    obtain ok port where p: "parse_port (hd args) (so_port options) = (ok, port)" by fastforce
    then have "ok" using "2.prems"(1) True by (auto split: if_splits)
    then have "1 \<le> port" "port \<le> 65535"
      using parse_port_iff [of "hd args" "so_port options"] p by auto
    then show ?thesis using "2.IH"(3) "2.prems"(1) True p \<open>ok\<close> by auto
  next
    case False
    then show ?thesis using "2.IH"(1,2) "2.prems" by (auto split: if_splits)
  qed
qed

fun spec_repl ::
  "(string \<rightharpoonup> string) \<Rightarrow> string list \<Rightarrow> (console list \<times> (string \<rightharpoonup> string)) option" where
  "spec_repl \<sigma> [] = Some ([prompt], \<sigma>)"
| "spec_repl \<sigma> (line # lines) =
     (case spec_command \<sigma> line of
        None \<Rightarrow> None
      | Some (r, \<sigma>1) \<Rightarrow>
          let printed = prompt # (if res_output r \<noteq> [] then [reply_line (res_output r)] else [])
          in if \<not> res_error r \<and> res_stop r then Some (printed, \<sigma>1)
             else map_option (\<lambda>(more, \<sigma>2). (printed @ more, \<sigma>2)) (spec_repl \<sigma>1 lines))"

lemma run_repl_ok:
  assumes "ex_inv ex" and "ex_budget ex + 2 * length lines \<le> str_limit"
    and "\<forall>line \<in> set lines. length line < str_limit"
  shows "case spec_repl (ex_abs ex) lines of
      None \<Rightarrow> run_repl ex lines = Inl Out_Of_Bounds
    | Some (printed, \<sigma>) \<Rightarrow> \<exists>ex'. run_repl ex lines = Inr (printed, ex') \<and> ex_inv ex' \<and> ex_abs ex' = \<sigma>"
  using assms
proof (induction lines arbitrary: ex)
  case Nil
  then show ?case by simp
next
  case (Cons line lines)
  have "run_ok ex (spec_command (ex_abs ex) line) (run_command ex line)"
    using Cons.prems by (intro run_command_ok) auto
  then consider (faults) "spec_command (ex_abs ex) line = None" "run_command ex line = Inl Out_Of_Bounds"
    | (runs) r ex1 where "spec_command (ex_abs ex) line = Some (r, ex_abs ex1)"
        "run_command ex line = Inr (r, ex1)" "ex_inv ex1" "ex_budget ex1 \<le> ex_budget ex + 2"
    by (auto simp: run_ok_def split: option.splits)
  then show ?case
  proof cases
    case faults
    then show ?thesis by simp
  next
    case runs
    show ?thesis
    proof (cases "\<not> res_error r \<and> res_stop r")
      case True
      then show ?thesis using runs by (simp add: Let_def)
    next
      case False
      have "ex_budget ex1 + 2 * length lines \<le> str_limit" using Cons.prems(2) runs(4) by simp
      from Cons.IH [OF runs(3) this] Cons.prems(3)
      have ih: "case spec_repl (ex_abs ex1) lines of
          None \<Rightarrow> run_repl ex1 lines = Inl Out_Of_Bounds
        | Some (printed, \<sigma>) \<Rightarrow> \<exists>ex'. run_repl ex1 lines = Inr (printed, ex') \<and> ex_inv ex' \<and> ex_abs ex' = \<sigma>"
        by simp
      show ?thesis
      proof (cases "spec_repl (ex_abs ex1) lines")
        case None
        then show ?thesis using ih runs False by (simp add: Let_def)
      next
        case (Some p)
        then show ?thesis using ih runs False by (cases p) (auto simp: Let_def)
      qed
    qed
  qed
qed

lemma client_session_ok:
  assumes "length replies = length lines"
    and "\<forall>line \<in> set lines. length line \<le> MAX_MESSAGE_SIZE"
    and "\<forall>r \<in> set replies. length r \<le> MAX_MESSAGE_SIZE"
    and "length (concat (map frame lines)) \<le> accepts (ln_send ln)"
    and "stream (ln_recv ln) = (concat (map frame replies) @ later, s, rest)"
  shows "\<exists>ln'. client_session strerror cl lines ln os = Some (0, transcript replies, cl, ln', os)
    \<and> ln_sent ln' = ln_sent ln @ concat (map frame lines)"
  using assms
proof (induction lines arbitrary: replies ln)
  case Nil
  then show ?case by simp
next
  case (Cons line lines)
  obtain reply replies' where r: "replies = reply # replies'"
    using Cons.prems(1) by (cases replies) auto
  have pre: "length line \<le> MAX_MESSAGE_SIZE" "length reply \<le> MAX_MESSAGE_SIZE"
    "4 + length line + length (concat (map frame lines)) \<le> accepts (ln_send ln)"
    "stream (ln_recv ln) = (frame reply @ concat (map frame replies') @ later, s, rest)"
    using Cons.prems r by simp_all
  from client_command_ok [OF pre(1,3,2,4), of cl os] obtain ln1 where
    c: "client_command cl line ln os = Some (Inr (Some reply), cl, ln1, os)"
    "ln_sent ln1 = ln_sent ln @ frame line" "stream (ln_recv ln1) = (concat (map frame replies') @ later, s, rest)"
    "length (concat (map frame lines)) \<le> accepts (ln_send ln1)"
    by blast
  from Cons.IH [OF _ _ _ c(4,3)] Cons.prems(1-3) r obtain ln' where
    "client_session strerror cl lines ln1 os = Some (0, transcript replies', cl, ln', os)"
    "ln_sent ln' = ln_sent ln1 @ concat (map frame lines)" by auto
  then show ?case using c r by simp
qed

text \<open>The socket of a session is closed in the end, and an error is printed exactly before exit code 1.\<close>

lemma client_session_ends:
  assumes "client_session strerror cl lines ln os = Some (code, printed, cl', ln', os')"
    and "cl_socket cl = socket_of fd" and "fd \<noteq> -1" and "fd \<in> os_open os"
  shows "client_destroy cl' os' = os\<lparr>os_open := os_open os - {fd}\<rparr>"
    and "code = (if \<exists>e. Err e \<in> set printed then 1 else 0)"
proof -
  have "client_destroy cl' os' = os\<lparr>os_open := os_open os - {fd}\<rparr>
    \<and> code = (if \<exists>e. Err e \<in> set printed then 1 else 0)"
    using assms
  proof (induction lines arbitrary: cl ln os code printed)
    case Nil
    then show ?case
      by (auto simp: client_destroy_def socket_destroy_def socket_reset_def socket_of_def close_fd_def prompt_def)
  next
    case (Cons line lines)
    from Cons.prems(1) obtain res cl1 ln1 os1 where
      c: "client_command cl line ln os = Some (res, cl1, ln1, os1)"
      by (auto split: option.splits)
    note ends = client_command_ends [OF c Cons.prems(2-4)]
    have closed_end: "client_destroy cl1 os1 = os\<lparr>os_open := os_open os - {fd}\<rparr>" if "\<nexists>m. res = Inr (Some m)"
      using ends that by (intro os.equality) (simp_all add: client_destroy_def socket_destroy_def socket_reset_def is_valid_def)
    consider (err) e where "res = Inl e" | (closed) "res = Inr None" | (reply) m where "res = Inr (Some m)"
      by (metis old.sum.exhaust option.exhaust)
    then show ?case
    proof cases
      case reply
      then obtain printed1 where
        rest: "client_session strerror cl1 lines ln1 os1 = Some (code, printed1, cl', ln', os')"
        and p: "printed = prompt # reply_line m # printed1"
        using Cons.prems(1) c by auto
      show ?thesis using Cons.IH [OF rest] ends reply Cons.prems(2-4) p
        by (auto simp: prompt_def reply_line_def)
    next
      case err
      then have "cl' = cl1" "os' = os1" "code = 1"
        "printed = [prompt, error_line strerror ''Failed to call command'' e]" using Cons.prems(1) c by simp_all
      then show ?thesis using closed_end err by (auto simp: error_line_def)
    next
      case closed
      then have "cl' = cl1" "os' = os1" "code = 0" "printed = [prompt]" using Cons.prems(1) c by simp_all
      then show ?thesis using closed_end closed by (simp add: prompt_def)
    qed
  qed
  then show "client_destroy cl' os' = os\<lparr>os_open := os_open os - {fd}\<rparr>"
    and "code = (if \<exists>e. Err e \<in> set printed then 1 else 0)" by blast+
qed

lemma parse_client_options_printed:
  "parse_client_options args o1 = ((ok, o2, help), printed) \<Longrightarrow> ok \<longleftrightarrow> \<not> (\<exists>e. Err e \<in> set printed)"
proof (induction args o1 rule: parse_client_options.induct)
  case (1 options)
  then show ?case by auto
next
  case (2 argument args options)
  then show ?case by (auto simp: invalid_argument_def split: if_splits prod.splits)
qed

section \<open>Properties\<close>

text \<open>\<open>parse_port\<close> accepts exactly the non-empty digit strings of a number from 1 to 65535, and
  gives this number; signs, blanks, trailing characters and numbers beyond an \<open>int\<close> are refused.\<close>

theorem parse_port_correct:
  "(fst (parse_port s p) \<longleftrightarrow>
     s \<noteq> [] \<and> (\<forall>c \<in> set s. is_digit c) \<and> 1 \<le> decimal s \<and> decimal s \<le> 65535)
   \<and> (fst (parse_port s p) \<longrightarrow> snd (parse_port s p) = decimal s)"
  using parse_port_iff by blast

theorem parse_port_correct_witness:
  "parse_port ''6337'' 0 = (True, 6337) \<and> \<not> fst (parse_port ''65536'' 0) \<and> \<not> fst (parse_port ''80 '' 0)"
proof -
  have "fst (parse_port ''6337'' 0)" "\<not> fst (parse_port ''65536'' 0)" "\<not> fst (parse_port ''80 '' 0)"
    using parse_port_correct [of "''6337''" 0] parse_port_correct [of "''65536''" 0]
      parse_port_correct [of "''80 ''" 0]
    by (auto simp: is_digit_def decimal_def)
  moreover have "decimal ''6337'' = 6337" by (simp add: decimal_def)
  ultimately show ?thesis using parse_port_correct [of "''6337''" 0] by (metis prod.collapse)
qed

text \<open>The server is only ever started with a port from 1 to 65535 and with the commands
  registered, whatever the command line.\<close>

theorem server_main_port:
  assumes "server_main args = (Start_Server ex host port, printed)"
  shows "1 \<le> port \<and> port \<le> 65535 \<and> ex = register_builtins executor_new"
proof -
  obtain ok opts h before where p: "parse_server_options args default_server_options = ((ok, opts, h), before)"
    by (metis surj_pair)
  with assms have "ok" "port = so_port opts" "ex = register_builtins executor_new"
    by (auto simp: server_main_def Let_def split: if_splits)
  moreover have "1 \<le> so_port opts \<and> so_port opts \<le> 65535"
    using parse_server_options_port [of args default_server_options opts h before] p \<open>ok\<close>
    by (simp add: default_server_options_def)
  ultimately show ?thesis by simp
qed

theorem server_main_port_witness:
  "server_main [''--port'', ''80''] = (Start_Server (register_builtins executor_new) ''127.0.0.1'' 80, [])
    \<and> (1 :: int) \<le> 80"
proof -
  have "parse_port ''80'' 6337 = (True, 80)"
    by (simp add: parse_port_def from_chars_def is_digit_def decimal_def)
  then have m: "server_main [''--port'', ''80''] = (Start_Server (register_builtins executor_new) ''127.0.0.1'' 80, [])"
    by (simp add: server_main_def default_server_options_def)
  show ?thesis using m server_main_port [OF m] by simp
qed

text \<open>C36: the REPL prints, for every sequence of lines, a prompt for each and the non-empty replies of
  the abstract map, up to \<open>exit\<close> or the end of the input, and is undefined exactly when a line before that sets a value to
  a strictly shorter one.\<close>

theorem repl_correct:
  assumes "2 * length lines < 4294967296" and "\<forall>line \<in> set lines. length line < str_limit"
  shows "case spec_repl Map.empty lines of
      None \<Rightarrow> run_repl (register_builtins executor_new) lines = Inl Out_Of_Bounds
    | Some (printed, \<sigma>) \<Rightarrow> \<exists>ex'. run_repl (register_builtins executor_new) lines = Inr (printed, ex')
        \<and> ex_abs ex' = \<sigma>"
proof -
  have "ex_budget (register_builtins executor_new) + 2 * length lines \<le> str_limit"
    using assms(1) by (simp add: ex_inv_start(3) str_limit_def)
  from run_repl_ok [OF ex_inv_start(1) this assms(2)] show ?thesis
    unfolding ex_inv_start(2) by (auto split: option.splits)
qed

theorem repl_correct_witness:
  "\<exists>ex'. run_repl (register_builtins executor_new) [''set a 1'', ''what'', ''get a'', ''exit'', ''ping'']
      = Inr ([prompt, reply_line ''OK'', prompt, reply_line (no_such_command ''what''), prompt, reply_line ''1'', prompt], ex')"
  using repl_correct [of "[''set a 1'', ''what'', ''get a'', ''exit'', ''ping'']"]
  by (auto simp: str_limit_def spec_command_def is_whitespace_def arity_def shrinks_def error_result_def
      default_result_def no_such_command_def)

text \<open>A session of the client against a server that answers every line prints the answers in
  order, sends exactly the frames of the lines, and ends with exit code 0.\<close>

theorem client_session_replies:
  assumes "length replies = length lines"
    and "\<forall>line \<in> set lines. length line \<le> MAX_MESSAGE_SIZE"
    and "\<forall>r \<in> set replies. length r \<le> MAX_MESSAGE_SIZE"
    and "length (concat (map frame lines)) \<le> accepts (ln_send ln)"
    and "stream (ln_recv ln) = (concat (map frame replies) @ later, s, rest)"
  shows "\<exists>ln'. client_session strerror cl lines ln os = Some (0, transcript replies, cl, ln', os)
    \<and> ln_sent ln' = ln_sent ln @ concat (map frame lines)"
  using assms by (rule client_session_ok)

theorem client_session_replies_witness:
  "\<exists>ln'. client_session (\<lambda>_. []) client_new [[], []] \<lparr>ln_recv = [Received (frame ''NULL'' @ frame ''OK'')],
      ln_send = replicate 8 (Accepted 1), ln_sent = []\<rparr> \<lparr>os_open = {}, os_bad_closes = 0\<rparr>
      = Some (0, [prompt, reply_line ''NULL'', prompt, reply_line ''OK'', prompt], client_new, ln', \<lparr>os_open = {}, os_bad_closes = 0\<rparr>)"
proof -
  let ?ln = "\<lparr>ln_recv = [Received (frame ''NULL'' @ frame ''OK'')], ln_send = replicate 8 (Accepted 1), ln_sent = []\<rparr>"
  have "stream (ln_recv ?ln) = (concat (map frame [''NULL'', ''OK'']) @ [], Exhausted, [])"
    by (simp add: frame_def)
  moreover have "length (concat (map frame [[], []])) \<le> accepts (ln_send ?ln)"
    by (simp add: accepts_replicate)
  ultimately show ?thesis
    using client_session_replies [of "[''NULL'', ''OK'']" "[[], []]" ?ln "[]" Exhausted "[]" "\<lambda>_. []" client_new
        "\<lparr>os_open = {}, os_bad_closes = 0\<rparr>"]
    by (auto simp: MAX_MESSAGE_SIZE_def)
qed

text \<open>C33: the client leaves no descriptor open and closes none twice, whatever its arguments, its input, the
  system and the server do; and it ends with exit code 1 exactly when it has printed an error.\<close>

theorem client_main_ends:
  assumes "client_main calls args lines ln os = Some (code, printed, os')"
    and "cn_socket calls \<notin> os_open os" and "-1 \<notin> os_open os"
  shows "os' = os \<and> code = (if \<exists>e. Err e \<in> set printed then 1 else 0)"
proof -
  obtain ok o1 h before where p: "parse_client_options args default_client_options = ((ok, o1, h), before)"
    by (metis surj_pair)
  note before = parse_client_options_printed [OF p]
  show ?thesis
  proof (cases "ok \<and> \<not> h")
    case False
    then consider "\<not> ok" "code = 1" "printed = before" "os' = os" | "ok" "code = 0" "printed = before @ [client_usage]" "os' = os"
      using assms(1) p by (cases ok) (auto simp: client_main_def)
    then show ?thesis using before by cases (auto simp: client_usage_def)
  next
    case True
    obtain res cl os1 where c: "client_connect calls (co_host o1) (co_port o1) client_new os = (res, cl, os1)"
      by (metis prod_cases3)
    show ?thesis
    proof (cases "cn_socket calls = -1 \<or> (\<exists>e. res = Inl e)")
      case True
      then obtain e where e: "res = Inl e" "cl = client_new" "os1 = os"
        using c client_connect_ok [OF c assms(2,3)]
        by (cases "cn_socket calls = -1") (auto simp: client_connect_def is_valid_def socket_of_def client_new_def socket_new_def)
      then show ?thesis using assms(1) p c \<open>ok \<and> \<not> h\<close> before
        by (auto simp: client_main_def client_destroy_def client_new_def socket_new_def
            socket_destroy_def socket_reset_def)
    next
      case False
      then obtain u where u: "res = Inr u" "cn_socket calls \<noteq> -1" by (cases res) auto
      then have o: "cl_socket cl = socket_of (cn_socket calls)" "os_open os1 = insert (cn_socket calls) (os_open os)"
        "os_bad_closes os1 = os_bad_closes os"
        using client_connect_ok [OF c assms(2,3)] assms(3)
        by (auto simp: client_new_def socket_new_def is_valid_def socket_of_def intro!: socket.equality)
      from assms(1) p c True before u(1) obtain more cl2 ln2 os2 where
        run: "client_session (cn_strerror calls) cl lines ln os1 = Some (code, more, cl2, ln2, os2)"
        and fin: "printed = before @ more" "os' = client_destroy cl2 os2"
        by (auto simp: client_main_def)
      note ends = client_session_ends [OF run o(1) u(2)]
      have "os' = os" using ends(1) fin(2) o(2,3) assms(2) by (intro os.equality) simp_all
      moreover have "code = (if \<exists>e. Err e \<in> set printed then 1 else 0)"
        using ends(2) o(2) fin(1) before True by auto
      ultimately show ?thesis by blast
    qed
  qed
qed

theorem client_main_ends_witness:
  "client_main \<lparr>cn_strerror = (\<lambda>_. []), cn_socket = 5, cn_socket_errno = 0, cn_inet_aton = (\<lambda>_. Some 0),
       cn_connect = (\<lambda>_. None), cn_setsockopt = (\<lambda>_. None)\<rparr> [] []
       \<lparr>ln_recv = [], ln_send = [], ln_sent = []\<rparr> \<lparr>os_open = {0}, os_bad_closes = 0\<rparr>
    = Some (0, [prompt], \<lparr>os_open = {0}, os_bad_closes = 0\<rparr>)"
proof -
  let ?calls = "\<lparr>cn_strerror = (\<lambda>_. []), cn_socket = 5, cn_socket_errno = 0, cn_inet_aton = (\<lambda>_. Some 0),
       cn_connect = (\<lambda>_. None), cn_setsockopt = (\<lambda>_. None)\<rparr>"
  let ?ln = "\<lparr>ln_recv = [], ln_send = [], ln_sent = []\<rparr>" and ?os = "\<lparr>os_open = {0 :: int}, os_bad_closes = 0\<rparr>"
  obtain os' where run: "client_main ?calls [] [] ?ln ?os = Some (0, [prompt], os')"
    by (simp add: client_main_def client_connect_def default_client_options_def make_sockaddr_def is_valid_def
        socket_of_def set_nodelay_def Let_def case_prod_unfold)
  from client_main_ends [OF run] have "os' = ?os" by simp
  with run show ?thesis by simp
qed

end
