(* ===== verification/EndToEnd.thy ===== *)
theory EndToEnd
  imports Server CommandLine
begin

text \<open>
  The two programs together: a client that sends one request after the other on its connection, and a
  server with any number of connections that serves them, two iterations of its loop for a request
  (one for the request, one for the reply), with the bytes of both directions arriving in any pieces.
\<close>

section \<open>One connection at a time\<close>

text \<open>What \<open>poll\<close> reports when only client \<open>i\<close> of \<open>n\<close> has events.\<close>

definition only_client :: "nat \<Rightarrow> nat \<Rightarrow> u16 \<Rightarrow> u16 list" where
  "only_client n i events = (replicate (Suc n) 0)[Suc i := events]"

lemma only_client_simps [simp]:
  "length (only_client n i events) = Suc n"
  "only_client n i events ! 0 = 0"
  "i < n \<Longrightarrow> only_client n i events ! Suc i = events"
  "k < n \<Longrightarrow> k \<noteq> i \<Longrightarrow> only_client n i events ! Suc k = 0"
  by (simp_all add: only_client_def nth_list_update)

lemma serve_clients_idle:
  assumes "k \<le> i" and "i < n" and "length clients = n"
  shows "serve_clients k (only_client n i events) clients w = done_io (clients, w)"
  using assms by (induction k) simp_all

lemma serve_clients_only:
  assumes "i < n" and "length clients = n" and "events \<noteq> 0" and "i < k" and "k \<le> n"
    and "handle_client_events (clients ! i) events w = Inr (Some (True, client, w'))"
  shows "serve_clients k (only_client n i events) clients w = Inr (Some (clients[i := client], w'))"
  using assms(4,5)
proof (induction k)
  case 0
  then show ?case by simp
next
  case (Suc k)
  show ?case
  proof (cases "k = i")
    case True
    then show ?thesis
      using assms(1-3,6) Suc.prems serve_clients_idle [of i i n "clients[i := client]" events w']
      by (simp add: bind_io_def done_io_def)
  next
    case False
    then show ?thesis using Suc assms(2) by simp
  qed
qed

definition served :: "nat \<Rightarrow> client_connection \<Rightarrow> server \<Rightarrow> server" where
  "served i client srv = srv\<lparr>m_clients := (m_clients srv)[i := client]\<rparr>"

lemma served_simps [simp]:
  "m_clients (served i client srv) = (m_clients srv)[i := client]"
  "m_listen_socket (served i client srv) = m_listen_socket srv"
  by (simp_all add: served_def)

text \<open>An iteration in which only client \<open>i\<close> has events, which its handler takes.\<close>

lemma server_iteration_only:
  assumes "is_valid (m_listen_socket srv)" and "i < length (m_clients srv)" and "events \<noteq> 0"
    and "handle_client_events (m_clients srv ! i) events w = Inr (Some (True, client, w'))"
  shows "server_iteration [Polled (only_client (length (m_clients srv)) i events)] [] srv w
    = Inr (Some (Continue (served i client srv) w'))"
proof -
  have "serve_clients (length (m_clients srv)) (only_client (length (m_clients srv)) i events) (m_clients srv) w
      = Inr (Some ((m_clients srv)[i := client], w'))"
    by (rule serve_clients_only [OF assms(2) refl assms(3) _ _ assms(4)]) (use assms(2) in simp_all)
  moreover have "\<not> has_event 0 e" for e by (simp add: has_event_def)
  ultimately show ?thesis using assms(1)
    by (simp add: server_iteration_def bind_io_def done_io_def served_def)
qed

lemma poll_contract_only:
  assumes "i < length (m_clients srv)" and "events = poll_interest srv ! Suc i"
  shows "poll_contract (poll_interest srv) (only_client (length (m_clients srv)) i events)"
proof -
  let ?n = "length (m_clients srv)"
  have len: "length (poll_interest srv) = Suc ?n" by (simp add: poll_interest_def)
  have "only_client ?n i events ! k AND NOT (poll_interest srv ! k OR POLLERR OR POLLHUP OR POLLNVAL) = 0"
    if "k < Suc ?n" for k
  proof (cases "k = Suc i")
    case True
    then have eq: "only_client ?n i events ! k = poll_interest srv ! k" using assms by simp
    show ?thesis unfolding eq by (rule bit_word_eqI) (auto simp: bit_simps)
  next
    case False
    then have "only_client ?n i events ! k = 0" using that by (cases k) simp_all
    then show ?thesis by simp
  qed
  then show ?thesis using len by (simp add: poll_contract_def list_all2_conv_all_nth)
qed

text \<open>Such an iteration leads from a reachable state to a reachable state.\<close>

lemma reach_only:
  assumes "server_reach srv w" and "i < length (m_clients srv)" and "events = poll_interest srv ! Suc i"
    and "handle_client_events (m_clients srv ! i) events w = Inr (Some (True, client, w'))"
  shows "server_iteration [Polled (only_client (length (m_clients srv)) i events)] [] srv w
      = Inr (Some (Continue (served i client srv) w'))"
    and "server_reach (served i client srv) w'"
proof -
  have "is_valid (m_listen_socket srv)" using server_reach_ok [OF assms(1)] by (simp add: server_ok_def)
  moreover have "events \<noteq> 0" using assms(2,3) by (simp add: poll_interest_def POLLIN_def POLLOUT_def)
  ultimately show run: "server_iteration [Polled (only_client (length (m_clients srv)) i events)] [] srv w
      = Inr (Some (Continue (served i client srv) w'))"
    using assms(2,4) by (intro server_iteration_only)
  show "server_reach (served i client srv) w'"
    by (rule reach_iteration [OF assms(1) _ run]) (simp add: poll_contract_only [OF assms(2,3)])
qed

section \<open>Request and reply\<close>

text \<open>The kernel's side of a connection for the next exchange: what is received and can be sent.\<close>

definition with_scripts :: "int \<Rightarrow> recv_event list \<Rightarrow> send_event list \<Rightarrow> world \<Rightarrow> world" where
  "with_scripts fd rx tx w = w\<lparr>w_recv := (w_recv w)(fd := rx), w_send := (w_send w)(fd := tx)\<rparr>"

text \<open>The two iterations for one request of client \<open>i\<close>.\<close>

definition serve_request ::
  "nat \<Rightarrow> recv_event list \<Rightarrow> send_event list \<Rightarrow> server \<Rightarrow> world \<Rightarrow> iteration io_run" where
  "serve_request i rx tx srv w =
     (let n = length (m_clients srv); w0 = with_scripts (cc_fd (m_clients srv ! i)) rx tx w
      in bind_io (server_iteration [Polled (only_client n i POLLIN)] [] srv w0) (\<lambda>it.
           case it of
             Continue srv1 w1 \<Rightarrow> server_iteration [Polled (only_client n i POLLOUT)] [] srv1 w1
           | _ \<Rightarrow> done_io it))"

text \<open>The requests of several clients, one after the other: the client and the kernel's side for each.\<close>

fun serve_schedule ::
  "(nat \<times> recv_event list \<times> send_event list) list \<Rightarrow> server \<Rightarrow> world \<Rightarrow> iteration io_run" where
  "serve_schedule [] srv w = done_io (Continue srv w)"
| "serve_schedule ((i, rx, tx) # rest) srv w =
     bind_io (serve_request i rx tx srv w) (\<lambda>it.
       case it of Continue srv1 w1 \<Rightarrow> serve_schedule rest srv1 w1 | _ \<Rightarrow> done_io it)"

text \<open>A session of one client.\<close>

definition serve_session ::
  "nat \<Rightarrow> (recv_event list \<times> send_event list) list \<Rightarrow> server \<Rightarrow> world \<Rightarrow> iteration io_run" where
  "serve_session i scripts = serve_schedule (map (Pair i) scripts)"

text \<open>Client \<open>i\<close> is between two requests.\<close>

definition idle :: "nat \<Rightarrow> server \<Rightarrow> bool" where
  "idle i srv \<longleftrightarrow> i < length (m_clients srv) \<and> \<not> has_pending_message (cc_writer (m_clients srv ! i))
     \<and> progress (cc_reader (m_clients srv ! i)) = []"

lemma has_event_POLLOUT [simp]:
  "has_event POLLOUT POLLOUT" "\<not> has_event POLLOUT POLLIN" "\<not> has_event POLLOUT POLLHUP"
  "\<not> has_event POLLOUT (POLLERR OR POLLNVAL)"
  by (simp_all add: has_event_def POLLIN_def POLLOUT_def POLLERR_def POLLHUP_def POLLNVAL_def)

lemma handle_reply:
  assumes "conn_ok w client" and "length (remaining (cc_writer client)) \<le> accepts (w_send w (cc_fd client))"
  shows "\<exists>es. handle_client_events client POLLOUT w = Inr (Some (True, client\<lparr>cc_writer := writer_new\<rparr>,
      w\<lparr>w_send := (w_send w)(cc_fd client := es),
        w_sent := (w_sent w)(cc_fd client := w_sent w (cc_fd client) @ remaining (cc_writer client))\<rparr>))"
proof -
  have "writer_inv (cc_writer client)" "\<not> cc_close_after_write client" using assms(1) by (simp_all add: conn_ok_def)
  moreover from write_to_completes [OF this(1) assms(2), of "w_sent w (cc_fd client)"] obtain es where
    "write_to (cc_writer client) (w_send w (cc_fd client)) (w_sent w (cc_fd client))
      = Some (Inr True, writer_new, es, w_sent w (cc_fd client) @ remaining (cc_writer client))" by blast
  ultimately have "handle_client_events client POLLOUT w = Inr (Some (True, client\<lparr>cc_writer := writer_new\<rparr>,
      w\<lparr>w_send := (w_send w)(cc_fd client := es),
        w_sent := (w_sent w)(cc_fd client := w_sent w (cc_fd client) @ remaining (cc_writer client))\<rparr>))"
    by (simp add: handle_client_events_def handle_writable_def native_handle_def Let_def)
  then show ?thesis by blast
qed

text \<open>The request with the executor's result, on a connection between two requests.\<close>

lemma handle_command:
  assumes "conn_ok w client" and "\<not> has_pending_message (cc_writer client)"
    and "progress (cc_reader client) = []"
    and "stream (w_recv w (cc_fd client)) = (frame msg, s, rest)" and "length msg \<le> MAX_MESSAGE_SIZE"
    and "run_command (w_executor w) msg = Inr (r, ex)" and "\<not> res_stop r"
    and "length (res_output r) \<le> MAX_MESSAGE_SIZE"
  shows "\<exists>es wr. writer_inv wr \<and> w_pending wr \<and> remaining wr = frame (res_output r)
    \<and> handle_client_events client POLLIN w = Inr (Some (True,
        client\<lparr>cc_reader := reader_new, cc_writer := wr, cc_close_after_write := False\<rparr>,
        (received (cc_fd client) es w)\<lparr>w_executor := ex, h_commands := h_commands w @ [(msg, r)],
          h_requests := (h_requests w)(cc_fd client := h_requests w (cc_fd client) @ [length (h_commands w)]),
          h_replies := (h_replies w)(cc_fd client := h_replies w (cc_fd client) @ [res_output r])\<rparr>))"
proof -
  have "parse_frame (progress (cc_reader client) @ frame msg) = Whole msg []"
    using parse_frame_frame [OF assms(5), of "[]"] assms(3) by simp
  from handle_whole_frame [OF assms(1,4) this] obtain es where
    h: "handle_client_events client POLLIN w
      = bind_io (handle_request (client\<lparr>cc_reader := reader_new\<rparr>) msg
                   (received (cc_fd client) es w)) done_io"
    by blast
  have "writer_inv (cc_writer client)" "\<not> w_pending (cc_writer client)"
    using assms(1,2) by (simp_all add: conn_ok_def has_pending_message_def)
  from queue_ok [OF this assms(8)] obtain wr where
    q: "queue (cc_writer client) (res_output r) = (Inr (), wr)" "writer_inv wr" "w_pending wr"
      "remaining wr = frame (res_output r)"
    by blast
  have "handle_client_events client POLLIN w = Inr (Some (True,
        client\<lparr>cc_reader := reader_new, cc_writer := wr, cc_close_after_write := False\<rparr>,
        (received (cc_fd client) es w)\<lparr>w_executor := ex, h_commands := h_commands w @ [(msg, r)],
          h_requests := (h_requests w)(cc_fd client := h_requests w (cc_fd client) @ [length (h_commands w)]),
          h_replies := (h_replies w)(cc_fd client := h_replies w (cc_fd client) @ [res_output r])\<rparr>))"
    using h assms(6,7) q(1)
    by (simp add: handle_request_def Let_def native_handle_def bind_io_def [of _ done_io] done_io_def)
  with q(2-4) show ?thesis by blast
qed

lemma server_reach_scripts: "server_reach srv w \<Longrightarrow> server_reach srv (with_scripts fd rx tx w)"
  unfolding with_scripts_def by (rule reach_kernel)

lemma poll_interest_client:
  "i < length (m_clients srv) \<Longrightarrow>
    poll_interest srv ! Suc i = (if has_pending_message (cc_writer (m_clients srv ! i)) then POLLOUT else POLLIN)"
  by (simp add: poll_interest_def)

lemma reach_conn_ok: "server_reach srv w \<Longrightarrow> i < length (m_clients srv) \<Longrightarrow> conn_ok w (m_clients srv ! i)"
  using server_reach_ok [of srv w] by (simp add: server_ok_def clients_ok_def)

lemma serve_request_ok:
  assumes reach: "server_reach srv w" and idle: "idle i srv"
    and rx: "stream rx = (frame msg, s, rest)" and len: "length msg \<le> MAX_MESSAGE_SIZE"
    and run: "run_command (w_executor w) msg = Inr (r, ex)" and go: "\<not> res_stop r"
    and fits: "length (res_output r) \<le> MAX_MESSAGE_SIZE" and tx: "4 + length (res_output r) \<le> accepts tx"
  defines "fd \<equiv> cc_fd (m_clients srv ! i)"
  shows "\<exists>srv' w'. serve_request i rx tx srv w = Inr (Some (Continue srv' w')) \<and> server_reach srv' w'
    \<and> idle i srv' \<and> cc_fd (m_clients srv' ! i) = fd \<and> w_executor w' = ex
    \<and> h_commands w' = h_commands w @ [(msg, r)] \<and> length (m_clients srv') = length (m_clients srv)
    \<and> (\<forall>j. j \<noteq> i \<longrightarrow> m_clients srv' ! j = m_clients srv ! j)
    \<and> w_sent w' = (w_sent w)(fd := w_sent w fd @ frame (res_output r))
    \<and> h_requests w' = (h_requests w)(fd := h_requests w fd @ [length (h_commands w)])
    \<and> (\<exists>srv1 w1. server_iteration [Polled (only_client (length (m_clients srv)) i POLLIN)] [] srv (with_scripts fd rx tx w)
          = Inr (Some (Continue srv1 w1)) \<and> length (m_clients srv1) = length (m_clients srv)
        \<and> has_pending_message (cc_writer (m_clients srv1 ! i)))"
proof -
  let ?c = "m_clients srv ! i" and ?w0 = "with_scripts fd rx tx w"
  have i: "i < length (m_clients srv)" and quiet: "\<not> has_pending_message (cc_writer ?c)"
    and start: "progress (cc_reader ?c) = []" using idle by (simp_all add: idle_def)
  have reach0: "server_reach srv ?w0" using reach by (rule server_reach_scripts)
  have w0: "w_recv ?w0 fd = rx" "w_send ?w0 fd = tx" "w_executor ?w0 = w_executor w"
    "h_commands ?w0 = h_commands w" "w_sent ?w0 = w_sent w" "h_requests ?w0 = h_requests w"
    by (simp_all add: with_scripts_def)
  from handle_command [OF reach_conn_ok [OF reach0 i] quiet start _ len _ go fits, of s rest ex]
    rx run w0 obtain es wr where
    wr: "w_pending wr" "remaining wr = frame (res_output r)" and
    step1: "handle_client_events ?c POLLIN ?w0 = Inr (Some (True,
        ?c\<lparr>cc_reader := reader_new, cc_writer := wr, cc_close_after_write := False\<rparr>,
        (received fd es ?w0)\<lparr>w_executor := ex, h_commands := h_commands w @ [(msg, r)],
          h_requests := (h_requests ?w0)(fd := h_requests ?w0 fd @ [length (h_commands w)]),
          h_replies := (h_replies ?w0)(fd := h_replies ?w0 fd @ [res_output r])\<rparr>))"
    unfolding fd_def by auto
  define c1 where "c1 = ?c\<lparr>cc_reader := reader_new, cc_writer := wr, cc_close_after_write := False\<rparr>"
  define w1 where "w1 = (received fd es ?w0)\<lparr>w_executor := ex, h_commands := h_commands w @ [(msg, r)],
          h_requests := (h_requests ?w0)(fd := h_requests ?w0 fd @ [length (h_commands w)]),
          h_replies := (h_replies ?w0)(fd := h_replies ?w0 fd @ [res_output r])\<rparr>"
  define srv1 where "srv1 = served i c1 srv"
  have ev1: "POLLIN = poll_interest srv ! Suc i" using i quiet by (simp add: poll_interest_client)
  note it1 = reach_only [OF reach0 i ev1 step1, folded c1_def w1_def, folded srv1_def]
  have i1: "i < length (m_clients srv1)" "m_clients srv1 ! i = c1" "length (m_clients srv1) = length (m_clients srv)"
    using i by (simp_all add: srv1_def)
  have c1: "cc_fd c1 = fd" "cc_writer c1 = wr" "cc_reader c1 = reader_new"
    by (simp_all add: c1_def fd_def)
  have w1: "w_send w1 fd = tx" "w_sent w1 = w_sent w" "w_executor w1 = ex" "h_commands w1 = h_commands w @ [(msg, r)]"
    "h_requests w1 = (h_requests w)(fd := h_requests w fd @ [length (h_commands w)])"
    using w0 by (simp_all add: w1_def)
  have "conn_ok w1 c1" using reach_conn_ok [OF it1(2) i1(1)] i1(2) by simp
  from handle_reply [OF this] c1 w1 wr tx obtain es2 where
    step2: "handle_client_events (m_clients srv1 ! i) POLLOUT w1 = Inr (Some (True, c1\<lparr>cc_writer := writer_new\<rparr>,
      w1\<lparr>w_send := (w_send w1)(fd := es2), w_sent := (w_sent w)(fd := w_sent w fd @ frame (res_output r))\<rparr>))"
    by (auto simp: i1(2))
  have ev2: "POLLOUT = poll_interest srv1 ! Suc i"
    using i1 c1 wr by (simp add: poll_interest_client has_pending_message_def)
  note it2 = reach_only [OF it1(2) i1(1) ev2 step2]
  have "serve_request i rx tx srv w = Inr (Some (Continue (served i (c1\<lparr>cc_writer := writer_new\<rparr>) srv1)
      (w1\<lparr>w_send := (w_send w1)(fd := es2), w_sent := (w_sent w)(fd := w_sent w fd @ frame (res_output r))\<rparr>)))"
    using it1(1) it2(1) i1(3) by (simp add: serve_request_def fd_def [symmetric] bind_io_def done_io_def)
  moreover have "idle i (served i (c1\<lparr>cc_writer := writer_new\<rparr>) srv1)"
    using i1 c1 by (simp add: idle_def has_pending_message_def)
  moreover have "m_clients srv1 ! j = m_clients srv ! j" if "j \<noteq> i" for j
    using that by (simp add: srv1_def)
  moreover have "\<exists>srv1 w1. server_iteration [Polled (only_client (length (m_clients srv)) i POLLIN)] [] srv ?w0
      = Inr (Some (Continue srv1 w1)) \<and> length (m_clients srv1) = length (m_clients srv)
        \<and> has_pending_message (cc_writer (m_clients srv1 ! i))"
    using it1(1) i1 c1(2) wr(1) by (auto simp: has_pending_message_def)
  ultimately show ?thesis using it2(2) i1 c1 w1 by (auto simp: i1(1))
qed

section \<open>A whole session\<close>

text \<open>What the executor of a reachable state is, by its history.\<close>

lemma reach_executor:
  assumes "server_reach srv w" and "2 * length (h_commands w) < 4294967296"
  shows "ex_inv (w_executor w)" and "ex_budget (w_executor w) \<le> 1 + 2 * length (h_commands w)"
proof -
  have "world_ok w" using server_reach_ok [OF assms(1)] by (simp add: server_ok_def clients_ok_def)
  from world_ok_executor [OF this assms(2)]
  show "ex_inv (w_executor w)" and "ex_budget (w_executor w) \<le> 1 + 2 * length (h_commands w)" by simp_all
qed

text \<open>The clients \<open>I\<close> are between two requests.\<close>

abbreviation all_idle :: "nat set \<Rightarrow> server \<Rightarrow> bool" where
  "all_idle I srv \<equiv> \<forall>i \<in> I. idle i srv"

lemma distinct_fds:
  assumes "server_reach srv w" and "i < length (m_clients srv)" and "j < length (m_clients srv)" and "i \<noteq> j"
  shows "cc_fd (m_clients srv ! i) \<noteq> cc_fd (m_clients srv ! j)"
  using server_reach_ok [OF assms(1)] clients_ok_fds [OF _ assms(2-4)] by (auto simp: server_ok_def)

text \<open>The elements \<open>xs\<close> of a schedule that belong to client \<open>j\<close>.\<close>

definition of_client :: "nat \<Rightarrow> nat list \<Rightarrow> 'a list \<Rightarrow> 'a list" where
  "of_client j is xs = map snd (filter (\<lambda>(i, x). i = j) (zip is xs))"

lemma of_client_simps [simp]:
  "of_client j [] xs = []"
  "of_client j is [] = []"
  "of_client j (i # is) (x # xs) = (if i = j then [x] else []) @ of_client j is xs"
  by (simp_all add: of_client_def)

lemma of_client_append:
  "length is = length xs \<Longrightarrow> of_client j (is @ is') (xs @ xs') = of_client j is xs @ of_client j is' xs'"
  by (simp add: of_client_def)

lemma of_client_map: "of_client j is (map f xs) = map f (of_client j is xs)"
  by (simp add: of_client_def zip_map2 filter_map o_def case_prod_unfold)

lemma of_client_replicate: "of_client j (replicate (length xs) i) xs = (if i = j then xs else [])"
  by (induction xs) simp_all

lemma of_client_other: "j \<notin> set is \<Longrightarrow> of_client j is xs = []"
  by (auto simp: of_client_def filter_empty_conv dest: set_zip_leftD)

text \<open>What is sent on the connection of client \<open>j\<close>: the replies to its own requests.\<close>

definition sent_to :: "nat \<Rightarrow> nat list \<Rightarrow> command_result list \<Rightarrow> string" where
  "sent_to j is rs = concat (map (\<lambda>r. frame (res_output r)) (of_client j is rs))"

lemma sent_to_simps [simp]:
  "sent_to j [] rs = []"
  "sent_to j (i # is) (r # rs) = (if i = j then frame (res_output r) else []) @ sent_to j is rs"
  by (simp_all add: sent_to_def)

text \<open>The requests of a schedule, of any clients: each is answered on its own connection, with the replies of
  the abstract map to all of them in their order.\<close>

lemma serve_schedule_ok:
  assumes "server_reach srv w" and "all_idle I srv" and "fst ` set sched \<subseteq> I"
    and "2 * (length (h_commands w) + length lines) < 4294967296"
    and "spec_commands (ex_abs (w_executor w)) lines = Some (rs, \<sigma>)"
    and "\<forall>r \<in> set rs. \<not> res_stop r \<and> length (res_output r) \<le> MAX_MESSAGE_SIZE"
    and "\<forall>line \<in> set lines. length line \<le> MAX_MESSAGE_SIZE"
    and "list_all2 (\<lambda>(i, rx, tx) line. \<exists>s rest. stream rx = (frame line, s, rest)) sched lines"
    and "list_all2 (\<lambda>(i, rx, tx) r. 4 + length (res_output r) \<le> accepts tx) sched rs"
  shows "\<exists>srv' w'. serve_schedule sched srv w = Inr (Some (Continue srv' w')) \<and> server_reach srv' w'
    \<and> ex_abs (w_executor w') = \<sigma> \<and> map fst (h_commands w') = map fst (h_commands w) @ lines
    \<and> all_idle I srv' \<and> (\<forall>j \<in> I. cc_fd (m_clients srv' ! j) = cc_fd (m_clients srv ! j)
        \<and> w_sent w' (cc_fd (m_clients srv ! j))
          = w_sent w (cc_fd (m_clients srv ! j)) @ sent_to j (map fst sched) rs)
    \<and> (\<forall>fd. fd \<notin> (\<lambda>i. cc_fd (m_clients srv ! i)) ` I \<longrightarrow> w_sent w' fd = w_sent w fd)"
  using assms
proof (induction lines arbitrary: srv w rs sched)
  case Nil
  then show ?case by (simp add: done_io_def)
next
  case (Cons line lines)
  obtain i rx tx sched' where sc: "sched = (i, rx, tx) # sched'"
    using Cons.prems(8) by (auto simp: list_all2_Cons2)
  obtain r \<sigma>1 rs' where r: "spec_command (ex_abs (w_executor w)) line = Some (r, \<sigma>1)"
    "rs = r # rs'" "spec_commands \<sigma>1 lines = Some (rs', \<sigma>)"
    using Cons.prems(5) by (auto split: option.splits)
  obtain s rest where st: "stream rx = (frame line, s, rest)" using Cons.prems(8) sc by auto
  have i: "i \<in> I" "idle i srv" using Cons.prems(2,3) sc by auto
  have small: "2 * length (h_commands w) < 4294967296" using Cons.prems(4) by simp
  note ex = reach_executor [OF Cons.prems(1) small]
  have len: "length line \<le> MAX_MESSAGE_SIZE" using Cons.prems(7) by simp
  have "run_ok (w_executor w) (spec_command (ex_abs (w_executor w)) line) (run_command (w_executor w) line)"
    using ex Cons.prems(4) len
    by (intro run_command_ok) (simp_all add: str_limit_def MAX_MESSAGE_SIZE_def)
  then obtain ex' where run: "run_command (w_executor w) line = Inr (r, ex')" "ex_abs ex' = \<sigma>1"
    using r(1) by (auto simp: run_ok_def)
  have ok: "\<not> res_stop r" "length (res_output r) \<le> MAX_MESSAGE_SIZE" using Cons.prems(6) r(2) by simp_all
  have tx: "4 + length (res_output r) \<le> accepts tx" using Cons.prems(9) sc r(2) by simp
  from serve_request_ok [OF Cons.prems(1) i(2) st len run(1) ok tx] obtain srv1 w1 where
    one: "serve_request i rx tx srv w = Inr (Some (Continue srv1 w1))" "server_reach srv1 w1" "idle i srv1"
    "cc_fd (m_clients srv1 ! i) = cc_fd (m_clients srv ! i)" "w_executor w1 = ex'"
    "h_commands w1 = h_commands w @ [(line, r)]" "length (m_clients srv1) = length (m_clients srv)"
    "\<forall>j. j \<noteq> i \<longrightarrow> m_clients srv1 ! j = m_clients srv ! j"
    "w_sent w1 = (w_sent w)(cc_fd (m_clients srv ! i)
        := w_sent w (cc_fd (m_clients srv ! i)) @ frame (res_output r))" by blast
  have fds: "cc_fd (m_clients srv1 ! j) = cc_fd (m_clients srv ! j)" for j
    using one(4,8) by (cases "j = i") simp_all
  have "idle j srv1" if "j \<in> I" for j
    using Cons.prems(2) that one(3,7,8) by (cases "j = i") (auto simp: idle_def)
  then have idle1: "all_idle I srv1" by blast
  have "2 * (length (h_commands w1) + length lines) < 4294967296" using Cons.prems(4) one(6) by simp
  moreover have "spec_commands (ex_abs (w_executor w1)) lines = Some (rs', \<sigma>)" using r(3) run(2) one(5) by simp
  moreover have "\<forall>r \<in> set rs'. \<not> res_stop r \<and> length (res_output r) \<le> MAX_MESSAGE_SIZE"
    "\<forall>line \<in> set lines. length line \<le> MAX_MESSAGE_SIZE"
    "list_all2 (\<lambda>(i, rx, tx) line. \<exists>s rest. stream rx = (frame line, s, rest)) sched' lines"
    "list_all2 (\<lambda>(i, rx, tx) r. 4 + length (res_output r) \<le> accepts tx) sched' rs'"
    "fst ` set sched' \<subseteq> I"
    using Cons.prems(3,6-9) sc r(2) by simp_all
  ultimately obtain srv' w' where
    more: "serve_schedule sched' srv1 w1 = Inr (Some (Continue srv' w'))" "server_reach srv' w'"
    "ex_abs (w_executor w') = \<sigma>" "map fst (h_commands w') = map fst (h_commands w1) @ lines" "all_idle I srv'"
    "\<forall>j \<in> I. cc_fd (m_clients srv' ! j) = cc_fd (m_clients srv1 ! j)
        \<and> w_sent w' (cc_fd (m_clients srv1 ! j))
          = w_sent w1 (cc_fd (m_clients srv1 ! j)) @ sent_to j (map fst sched') rs'"
    "\<forall>fd. fd \<notin> (\<lambda>i. cc_fd (m_clients srv1 ! i)) ` I \<longrightarrow> w_sent w' fd = w_sent w1 fd"
    using Cons.IH [OF one(2) idle1, of sched' rs'] by blast
  have "w_sent w' (cc_fd (m_clients srv ! j))
      = w_sent w (cc_fd (m_clients srv ! j)) @ sent_to j (map fst sched) rs" if "j \<in> I" for j
  proof -
    have "j \<noteq> i \<Longrightarrow> cc_fd (m_clients srv ! j) \<noteq> cc_fd (m_clients srv ! i)"
      using distinct_fds [OF Cons.prems(1)] Cons.prems(2) that i by (auto simp: idle_def)
    then show ?thesis using more(6) that one(9) sc r(2) by (auto simp: fds)
  qed
  moreover have "w_sent w' fd = w_sent w fd" if "fd \<notin> (\<lambda>i. cc_fd (m_clients srv ! i)) ` I" for fd
    using more(7) that one(9) i(1) by (auto simp: fds)
  moreover have "serve_schedule sched srv w = Inr (Some (Continue srv' w'))"
    using one(1) more(1) sc by (simp add: bind_io_def)
  ultimately show ?case using more(2-6) one(6) by (intro exI [of _ srv'] exI [of _ w']) (simp add: fds)
qed

lemma serve_session_ok:
  assumes "server_reach srv w" and "idle i srv"
    and "2 * (length (h_commands w) + length lines) < 4294967296"
    and "spec_commands (ex_abs (w_executor w)) lines = Some (rs, \<sigma>)"
    and "\<forall>r \<in> set rs. \<not> res_stop r \<and> length (res_output r) \<le> MAX_MESSAGE_SIZE"
    and "\<forall>line \<in> set lines. length line \<le> MAX_MESSAGE_SIZE"
    and "list_all2 (\<lambda>(rx, tx) line. \<exists>s rest. stream rx = (frame line, s, rest)) scripts lines"
    and "list_all2 (\<lambda>(rx, tx) r. 4 + length (res_output r) \<le> accepts tx) scripts rs"
  defines "fd \<equiv> cc_fd (m_clients srv ! i)"
  shows "\<exists>srv' w'. serve_session i scripts srv w = Inr (Some (Continue srv' w')) \<and> server_reach srv' w'
    \<and> ex_abs (w_executor w') = \<sigma>
    \<and> w_sent w' = (w_sent w)(fd := w_sent w fd @ concat (map (\<lambda>r. frame (res_output r)) rs))"
proof -
  have "map fst (map (Pair i) scripts) = replicate (length rs) i"
    using assms(8) by (simp add: o_def map_replicate_const list_all2_lengthD)
  then have out: "sent_to i (map fst (map (Pair i) scripts)) rs = concat (map (\<lambda>r. frame (res_output r)) rs)"
    by (simp add: sent_to_def of_client_replicate)
  have "list_all2 (\<lambda>(i, rx, tx) line. \<exists>s rest. stream rx = (frame line, s, rest)) (map (Pair i) scripts) lines"
    "list_all2 (\<lambda>(i, rx, tx) r. 4 + length (res_output r) \<le> accepts tx) (map (Pair i) scripts) rs"
    using assms(7,8) by (simp_all add: list_all2_map1 case_prod_unfold)
  from serve_schedule_ok [OF assms(1) _ _ assms(3-6) this, of "{i}"] assms(2) out obtain srv' w' where
    "serve_session i scripts srv w = Inr (Some (Continue srv' w'))" "server_reach srv' w'"
    "ex_abs (w_executor w') = \<sigma>" "w_sent w' fd = w_sent w fd @ concat (map (\<lambda>r. frame (res_output r)) rs)"
    "\<forall>f. f \<noteq> fd \<longrightarrow> w_sent w' f = w_sent w f" by (auto simp: serve_session_def fd_def image_subset_iff)
  moreover from this(4,5)
  have "w_sent w' = (w_sent w)(fd := w_sent w fd @ concat (map (\<lambda>r. frame (res_output r)) rs))" by auto
  ultimately show ?thesis by blast
qed

text \<open>The same, with the client's side: what it prints and what it sends.\<close>

lemma session_end_to_end:
  assumes "server_reach srv w" and "idle i srv"
    and "2 * (length (h_commands w) + length lines) < 4294967296"
    and "spec_commands (ex_abs (w_executor w)) lines = Some (rs, \<sigma>)"
    and "\<forall>r \<in> set rs. \<not> res_stop r \<and> length (res_output r) \<le> MAX_MESSAGE_SIZE"
    and "\<forall>line \<in> set lines. length line \<le> MAX_MESSAGE_SIZE"
    and "list_all2 (\<lambda>(rx, tx) line. \<exists>s rest. stream rx = (frame line, s, rest)) scripts lines"
    and "list_all2 (\<lambda>(rx, tx) r. 4 + length (res_output r) \<le> accepts tx) scripts rs"
    and "length (concat (map frame lines)) \<le> accepts (ln_send ln)"
    and "stream (ln_recv ln) = (concat (map (\<lambda>r. frame (res_output r)) rs) @ later, s, rest)"
  shows "\<exists>srv' w' ln'. serve_session i scripts srv w = Inr (Some (Continue srv' w')) \<and> server_reach srv' w'
    \<and> ex_abs (w_executor w') = \<sigma>
    \<and> w_sent w' (cc_fd (m_clients srv ! i))
        = w_sent w (cc_fd (m_clients srv ! i)) @ concat (map (\<lambda>r. frame (res_output r)) rs)
    \<and> client_session strerror cl lines ln os = Some (0, transcript (map res_output rs), cl, ln', os)
    \<and> ln_sent ln' = ln_sent ln @ concat (map frame lines)"
proof -
  from serve_session_ok [OF assms(1-8)] obtain srv' w' where
    srv: "serve_session i scripts srv w = Inr (Some (Continue srv' w'))" "server_reach srv' w'"
      "ex_abs (w_executor w') = \<sigma>"
      "w_sent w' = (w_sent w)(cc_fd (m_clients srv ! i)
        := w_sent w (cc_fd (m_clients srv ! i)) @ concat (map (\<lambda>r. frame (res_output r)) rs))" by blast
  have "length rs = length lines"
    using assms(7,8) by (auto dest!: list_all2_lengthD)
  then have "length (map res_output rs) = length lines" by simp
  moreover have "stream (ln_recv ln) = (concat (map frame (map res_output rs)) @ later, s, rest)"
    using assms(10) by (simp add: o_def)
  moreover have "\<forall>r \<in> set (map res_output rs). length r \<le> MAX_MESSAGE_SIZE" using assms(5) by simp
  ultimately obtain ln' where "client_session strerror cl lines ln os = Some (0, transcript (map res_output rs), cl, ln', os)"
    "ln_sent ln' = ln_sent ln @ concat (map frame lines)"
    using client_session_ok [OF _ assms(6) _ assms(9)] by blast
  then show ?thesis using srv by simp
qed

text \<open>A server that has just accepted its first connection.\<close>

lemma idle_example:
  obtains srv w where "server_reach srv w" and "idle 0 srv" and "h_commands w = []"
    and "ex_abs (w_executor w) = Map.empty" and "w_sent w (cc_fd (m_clients srv ! 0)) = []"
    and "length (m_clients srv) = 1"
proof -
  obtain srv w client where e: "server_reach srv w" "m_clients srv = [client]" "cc_fd client = 4"
    "m_fd (m_listen_socket srv) = 3" "w_sent w 4 = []" "h_commands w = []" "w_log w = [Listening (inet_ntoa 0) 6337]"
    "cc_writer client = writer_new" "cc_reader client = reader_new"
    by (rule server_example)
  have "world_ok w" using server_reach_ok [OF e(1)] by (simp add: server_ok_def clients_ok_def)
  from world_ok_executor(1) [OF this] e(6) have "ex_abs (w_executor w) = Map.empty" by simp
  with e show thesis by (intro that [of srv w]) (simp_all add: idle_def has_pending_message_def)
qed

text \<open>The same server after a first request.\<close>

lemma served_example:
  obtains srv w where "server_reach srv w" and "idle 0 srv" and "ex_abs (w_executor w) = [''a'' \<mapsto> ''11'']"
    and "h_commands w = [(''set a 11'', default_result\<lparr>res_output := ''OK''\<rparr>)]"
    and "length (m_clients srv) = 1" and "w_sent w (cc_fd (m_clients srv ! 0)) = frame ''OK''"
proof -
  obtain srv w where e: "server_reach srv w" "idle 0 srv" "h_commands w = []"
    "ex_abs (w_executor w) = Map.empty" "w_sent w (cc_fd (m_clients srv ! 0)) = []"
    "length (m_clients srv) = 1"
    by (rule idle_example)
  let ?r = "default_result\<lparr>res_output := ''OK''\<rparr>"
  have "2 * length (h_commands w) < 4294967296" using e(3) by simp
  note ex = reach_executor [OF e(1) this]
  have "run_ok (w_executor w) (spec_command (ex_abs (w_executor w)) ''set a 11'')
      (run_command (w_executor w) ''set a 11'')"
    using ex e(3) by (intro run_command_ok) (simp_all add: str_limit_def)
  then obtain ex1 where run: "run_command (w_executor w) ''set a 11'' = Inr (?r, ex1)"
    "ex_abs ex1 = [''a'' \<mapsto> ''11'']"
    unfolding e(4) by (auto simp: run_ok_def spec_command_def is_whitespace_def arity_def shrinks_def)
  have rx: "stream [Received (frame ''set a 11'')] = (frame ''set a 11'', Exhausted, [])" by simp
  have "accepts (replicate 100 (Accepted 1)) = 100" using accepts_replicate [of 100] by simp
  then have go: "\<not> res_stop ?r" "length (res_output ?r) \<le> MAX_MESSAGE_SIZE"
    "4 + length (res_output ?r) \<le> accepts (replicate 100 (Accepted 1))"
    by (simp_all add: default_result_def MAX_MESSAGE_SIZE_def)
  have len: "length ''set a 11'' \<le> MAX_MESSAGE_SIZE" by (simp add: MAX_MESSAGE_SIZE_def)
  from serve_request_ok [OF e(1,2) rx len run(1) go] run(2) e(3,5,6) show thesis
    by (auto intro: that)
qed

end
