(* ===== verification/ServerHistory.thy ===== *)
theory ServerHistory
  imports EndToEnd
begin

text \<open>
  What the commands of the server have to do with its connections: the history of all commands is an
  interleaving of the requests of the connections.  The requests of a connection are, in their order,
  the messages whose frames have been received on it, and its replies are the results of just these
  commands.
\<close>

section \<open>Received bytes\<close>

lemma stream_pending: "stream es = (bs, s, rest) \<Longrightarrow> pending es = bs @ pending rest"
  by (induction es arbitrary: bs rule: stream.induct) (auto split: if_splits prod.splits)

text \<open>What a reader has of an unfinished frame is shorter than the frame.\<close>

lemma progress_short:
  assumes "reader_inv r" and "parse_frame (progress r @ bs) = Whole msg bs'"
  shows "length bs' \<le> length bs"
proof (cases "r_payload r = []")
  case True
  then have "length (progress r) < 4" using assms(1) by (auto simp: reader_inv_def progress_def)
  moreover have "length (progress r @ bs) = length (frame msg @ bs')" using parse_frame_Whole(1) [OF assms(2)] by simp
  ultimately show ?thesis by simp
next
  case False
  then have r: "length (r_header r) = 4" "r_header_bytes r = 4" "length (r_payload r) = header_size (r_header r)"
    "r_payload_bytes r < length (r_payload r)"
    using assms(1) by (auto simp: reader_inv_def)
  have p: "progress r = r_header r @ take (r_payload_bytes r) (r_payload r)" using r by (simp add: progress_def)
  then have "bs' = drop (header_size (r_header r)) (take (r_payload_bytes r) (r_payload r) @ bs)"
    using assms(2) r(1) by (simp add: parse_frame_append split: if_splits)
  then show ?thesis using r(3,4) by simp
qed

text \<open>The bytes that a call of \<open>read_from\<close> takes are the next ones of the frame.\<close>

lemma read_from_taken:
  assumes inv: "reader_inv r" and run: "read_from r es = Some (Inr res, r', es')"
  shows "status res = Complete \<Longrightarrow> progress r @ taken es es' = frame (message res) \<and> progress r' = []"
    and "status res = Incomplete \<Longrightarrow> progress r @ taken es es' = progress r'"
proof -
  obtain bs s rest where st: "stream es = (bs, s, rest)" by (metis prod_cases3)
  note spec = read_from_stream [OF inv st]
  note all = stream_pending [OF st]
  show "progress r @ taken es es' = frame (message res) \<and> progress r' = []" if "status res = Complete"
  proof -
    from spec run that obtain bs' where w: "parse_frame (progress r @ bs) = Whole (message res) bs'"
      and r': "r' = reader_new" "stream es' = (bs', s, rest)"
      by (auto simp: read_spec_def read_stopped_def read_complete_def
          split: parsed.splits stream_end.splits loop_end.splits if_splits)
    have len: "length bs' \<le> length bs" using progress_short [OF inv w] .
    have p: "progress r @ bs = frame (message res) @ bs'" using w by (rule parse_frame_Whole(1))
    then obtain us where us: "progress r @ us = frame (message res)" "bs = us @ bs'"
      using len by (auto simp: append_eq_append_conv2)
    have "taken es es' = us"
      using all stream_pending [OF r'(2)] us(2) by (simp add: taken_def)
    then show ?thesis using r'(1) us(1) by simp
  qed
  show "progress r @ taken es es' = progress r'" if "status res = Incomplete"
  proof -
    from spec run that have "es' = rest" "progress r' = progress r @ bs"
      by (auto simp: read_spec_def read_stopped_def read_complete_def
          split: parsed.splits stream_end.splits loop_end.splits if_splits)
    then show ?thesis using all by (simp add: taken_def)
  qed
qed

section \<open>The history of a connection\<close>

abbreviation request_at :: "world \<Rightarrow> nat \<Rightarrow> string" where
  "request_at w i \<equiv> fst (h_commands w ! i)"

abbreviation result_at :: "world \<Rightarrow> nat \<Rightarrow> command_result" where
  "result_at w i \<equiv> snd (h_commands w ! i)"

text \<open>The positions of the requests are positions of the history, increasing on every connection, and
  no command belongs to two connections.\<close>

definition requests_ok :: "world \<Rightarrow> bool" where
  "requests_ok w \<longleftrightarrow>
     (\<forall>fd. sorted_wrt (<) (h_requests w fd) \<and> (\<forall>i \<in> set (h_requests w fd). i < length (h_commands w)))
     \<and> (\<forall>fd fd'. fd \<noteq> fd' \<longrightarrow> set (h_requests w fd) \<inter> set (h_requests w fd') = {})"

text \<open>The bytes received on \<open>fd\<close> are the frames of its requests and \<open>part\<close>; the replies are their results.\<close>

definition history_ok :: "world \<Rightarrow> int \<Rightarrow> string \<Rightarrow> bool" where
  "history_ok w fd part \<longleftrightarrow>
     h_received w fd = concat (map (\<lambda>i. frame (request_at w i)) (h_requests w fd)) @ part
     \<and> h_replies w fd = map (\<lambda>i. res_output (result_at w i)) (h_requests w fd)"

text \<open>A step on connection \<open>fd\<close>: the history grows, by its requests, and the other connections keep theirs.\<close>

definition history_step :: "int \<Rightarrow> world \<Rightarrow> world \<Rightarrow> bool" where
  "history_step fd w w' \<longleftrightarrow> requests_ok w' \<and> (\<exists>cs. h_commands w' = h_commands w @ cs)
     \<and> (\<exists>new. h_requests w' fd = h_requests w fd @ new \<and> (\<forall>i \<in> set new. length (h_commands w) \<le> i))
     \<and> (\<forall>f. f \<noteq> fd \<longrightarrow> h_requests w' f = h_requests w f \<and> h_received w' f = h_received w f
          \<and> h_replies w' f = h_replies w f)"

lemma history_step_refl: "requests_ok w \<Longrightarrow> history_step fd w w"
  by (simp add: history_step_def)

lemma history_step_trans: "history_step fd w w1 \<Longrightarrow> history_step fd w1 w2 \<Longrightarrow> history_step fd w w2"
  by (fastforce simp: history_step_def)

lemma history_ok_other:
  assumes "history_step fd w w'" and "requests_ok w" and "f \<noteq> fd" and "history_ok w f part"
  shows "history_ok w' f part"
proof -
  obtain cs where cs: "h_commands w' = h_commands w @ cs" using assms(1) by (auto simp: history_step_def)
  have "h_commands w' ! i = h_commands w ! i" if "i \<in> set (h_requests w f)" for i
    using that assms(2) cs by (auto simp: requests_ok_def nth_append)
  then show ?thesis using assms(1,3,4) by (auto simp: history_step_def history_ok_def cong: map_cong)
qed

lemma requests_ok_received [simp]: "requests_ok (received fd es w) = requests_ok w"
  by (simp add: requests_ok_def)

lemma requests_ok_push:
  assumes "requests_ok w"
    and "h_commands w' = h_commands w @ [c]"
    and "h_requests w' = (h_requests w)(fd := h_requests w fd @ [length (h_commands w)])"
  shows "requests_ok w'"
proof -
  have b: "i < length (h_commands w)" if "i \<in> set (h_requests w f)" for i f
    using assms(1) that by (auto simp: requests_ok_def)
  then have n: "length (h_commands w) \<notin> set (h_requests w f)" for f by blast
  have "sorted_wrt (<) (h_requests w f)" for f using assms(1) by (simp add: requests_ok_def)
  moreover have "set (h_requests w f) \<inter> set (h_requests w g) = {}" if "f \<noteq> g" for f g
    using assms(1) that by (auto simp: requests_ok_def)
  ultimately show ?thesis using b n
    unfolding requests_ok_def assms(2,3) by (auto simp: sorted_wrt_append less_SucI)
qed

lemma history_ok_push:
  assumes "history_ok w fd (frame input)" and "requests_ok w"
    and "h_commands w' = h_commands w @ [(input, r)]"
    and "h_requests w' = (h_requests w)(fd := h_requests w fd @ [length (h_commands w)])"
    and "h_received w' = h_received w" and "h_replies w' = (h_replies w)(fd := h_replies w fd @ [res_output r])"
  shows "history_ok w' fd []"
proof -
  have "(h_commands w @ [(input, r)]) ! i = h_commands w ! i" if "i \<in> set (h_requests w fd)" for i
    using that assms(2) by (auto simp: requests_ok_def nth_append)
  then show ?thesis using assms(1) unfolding history_ok_def assms(3-6) by (simp cong: map_cong)
qed

section \<open>Every step keeps the history\<close>

lemma handle_request_history:
  assumes "requests_ok w" and "history_ok w (cc_fd client) (frame input)" and "progress (cc_reader client) = []"
    and run: "handle_request client input w = Inr (Some (keep, client', w'))"
  shows "history_step (cc_fd client) w w'"
    and "keep \<Longrightarrow> history_ok w' (cc_fd client) (progress (cc_reader client'))"
proof -
  let ?fd = "cc_fd client"
  from run obtain r ex where rc: "run_command (w_executor w) input = Inr (r, ex)"
    by (auto simp: handle_request_def bind_run_eq_Inr)
  define w1 where "w1 = w\<lparr>w_executor := ex, h_commands := h_commands w @ [(input, r)],
    h_requests := (h_requests w)(?fd := h_requests w ?fd @ [length (h_commands w)])\<rparr>"
  have "requests_ok w1" by (rule requests_ok_push [OF assms(1)]) (simp_all add: w1_def)
  then have step1: "history_step ?fd w w1" by (simp add: history_step_def w1_def)
  have same: "history_step ?fd w w2" if "h_commands w2 = h_commands w1" "h_requests w2 = h_requests w1"
    "h_received w2 = h_received w1" "\<forall>f. f \<noteq> ?fd \<longrightarrow> h_replies w2 f = h_replies w1 f" for w2
    using step1 that by (simp add: history_step_def requests_ok_def)
  from run rc consider
      (dropped) e where "\<not> keep" "w' = w1 \<or> w' = log_io_error ''Error queuing message'' e w1"
    | (queued) wr where "client' = client\<lparr>cc_writer := wr, cc_close_after_write := res_stop r\<rparr>"
        "w' = w1\<lparr>h_replies := (h_replies w1)(?fd := h_replies w1 ?fd @ [res_output r])\<rparr>"
    by (auto simp: handle_request_def w1_def Let_def native_handle_def split: if_splits prod.splits sum.splits)
  then show "history_step ?fd w w'" and "keep \<Longrightarrow> history_ok w' ?fd (progress (cc_reader client'))"
  proof (atomize (full), cases)
    case dropped
    then show "history_step ?fd w w' \<and> (keep \<longrightarrow> history_ok w' ?fd (progress (cc_reader client')))"
      by (auto intro!: same simp: log_io_error_def)
  next
    case queued
    have "history_step ?fd w w'" by (rule same) (simp_all add: queued)
    moreover have "history_ok w' ?fd []"
      by (rule history_ok_push [OF assms(2,1)]) (simp_all add: queued w1_def)
    ultimately show "history_step ?fd w w' \<and> (keep \<longrightarrow> history_ok w' ?fd (progress (cc_reader client')))"
      using assms(3) by (simp add: queued)
  qed
qed

lemma handle_readable_history:
  assumes inv: "reader_inv (cc_reader client)" and "requests_ok w"
    and hist: "history_ok w (cc_fd client) (progress (cc_reader client))"
    and run: "handle_readable client w = Inr (Some (keep, client', w'))"
  shows "history_step (cc_fd client) w w'
    \<and> (keep \<longrightarrow> history_ok w' (cc_fd client) (progress (cc_reader client')))"
proof -
  let ?fd = "cc_fd client"
  obtain res reader es where rd: "read_from (cc_reader client) (w_recv w ?fd) = Some (res, reader, es)"
    using run by (auto simp: handle_readable_def native_handle_def Let_def split: option.splits)
  define c1 where "c1 = client\<lparr>cc_reader := reader\<rparr>"
  define w1 where "w1 = received ?fd es w"
  have step1: "history_step ?fd w w1" using assms(2) by (simp add: history_step_def w1_def)
  have dropped: "history_step ?fd w (log_io_error op e w1)" for op e
    using step1 by (simp add: history_step_def log_io_error_def requests_ok_def)
  have run1: "(case res of
                  Inl e \<Rightarrow> done_io (False, c1, log_io_error ''Error reading message'' e w1)
                | Inr r \<Rightarrow>
                    (case status r of
                       Closed \<Rightarrow> done_io (False, c1, w1)
                     | Complete \<Rightarrow> handle_request c1 (message r) w1
                     | Incomplete \<Rightarrow> done_io (True, c1, w1))) = Inr (Some (keep, client', w'))"
    using run rd unfolding c1_def w1_def
    by (simp only: handle_readable_def native_handle_def Let_def option.case prod.case)
  show ?thesis
  proof (cases res)
    case (Inl e)
    then show ?thesis using run1 dropped [of "''Error reading message''" e] by auto
  next
    case (Inr r)
    have got: "history_ok w1 ?fd (progress (cc_reader client) @ taken (w_recv w ?fd) es)"
      using hist by (simp add: history_ok_def w1_def)
    note taken = read_from_taken [OF inv rd [unfolded Inr]]
    show ?thesis
    proof (cases "status r")
      case Complete
      have "history_ok w1 (cc_fd c1) (frame (message r))" "progress (cc_reader c1) = []"
        using got taken(1) [OF Complete] by (simp_all add: c1_def)
      from handle_request_history [OF _ this] run1 Inr Complete assms(2)
      have "history_step ?fd w1 w'" "keep \<Longrightarrow> history_ok w' ?fd (progress (cc_reader client'))"
        by (simp_all add: w1_def c1_def)
      then show ?thesis using step1 history_step_trans by blast
    next
      case Incomplete
      then show ?thesis using run1 Inr step1 got taken(2) by (auto simp: c1_def)
    next
      case Closed
      then show ?thesis using run1 Inr step1 by simp
    qed
  qed
qed

lemma handle_writable_history:
  assumes "requests_ok w" and "history_ok w (cc_fd client) (progress (cc_reader client))"
    and "handle_writable client w = Inr (Some (keep, client', w'))"
  shows "history_step (cc_fd client) w w'
    \<and> history_ok w' (cc_fd client) (progress (cc_reader client'))"
proof -
  have "h_commands w' = h_commands w" "h_requests w' = h_requests w" "h_received w' = h_received w"
    "h_replies w' = h_replies w" "cc_reader client' = cc_reader client"
    using assms(3) by (auto simp: handle_writable_def Let_def log_io_error_def split: option.splits sum.splits)
  then show ?thesis using assms(1,2) by (simp add: history_step_def history_ok_def requests_ok_def)
qed

lemma handle_client_events_history:
  assumes inv: "reader_inv (cc_reader client)" and "requests_ok w"
    and "history_ok w (cc_fd client) (progress (cc_reader client))"
    and run: "handle_client_events client events w = Inr (Some (keep, client', w'))"
  shows "history_step (cc_fd client) w w'
    \<and> (keep \<longrightarrow> history_ok w' (cc_fd client) (progress (cc_reader client')))"
proof (cases "has_event events (POLLERR OR POLLNVAL)")
  case True
  then show ?thesis using run assms(2,3) by (auto simp: handle_client_events_def history_step_refl)
next
  case False
  let ?reading = "if has_event events POLLIN then handle_readable client w else done_io (True, client, w)"
  from run False obtain k1 c1 w1 where r1: "?reading = Inr (Some (k1, c1, w1))"
    and run1: "(if \<not> k1 then done_io (False, c1, w1)
        else
          bind_io (if has_event events POLLOUT then handle_writable c1 w1
                   else done_io (True, c1, w1)) (\<lambda>(keep, client2, w2).
          if \<not> keep then done_io (False, client2, w2)
          else done_io (\<not> has_event events POLLHUP, client2, w2))) = Inr (Some (keep, client', w'))"
    unfolding handle_client_events_def by (auto elim!: bind_ioE)
  have s1: "history_step (cc_fd client) w w1" "k1 \<Longrightarrow> history_ok w1 (cc_fd client) (progress (cc_reader c1))"
    using r1 handle_readable_history [OF assms(1-3)] assms(2,3) by (auto simp: history_step_refl split: if_splits)
  show ?thesis
  proof (cases k1)
    case False
    then show ?thesis using s1 run1 by simp
  next
    case True
    have fd: "cc_fd c1 = cc_fd client"
      using r1 by (auto simp: handle_readable_def handle_request_def Let_def bind_run_eq_Inr native_handle_def
          split: if_splits option.splits sum.splits message_read_status.splits prod.splits)
    have q1: "requests_ok w1" using s1(1) by (simp add: history_step_def)
    let ?writing = "if has_event events POLLOUT then handle_writable c1 w1 else done_io (True, c1, w1)"
    from run1 True obtain k2 where r2: "?writing = Inr (Some (k2, client', w'))"
      by (auto elim!: bind_ioE split: if_splits)
    have "history_step (cc_fd client) w1 w' \<and> history_ok w' (cc_fd client) (progress (cc_reader client'))"
      using r2 handle_writable_history [OF q1, of c1 k2 client' w'] s1(2) True q1 unfolding fd
      by (auto simp: history_step_refl split: if_splits)
    then show ?thesis using s1(1) history_step_trans by blast
  qed
qed

section \<open>Every reachable state\<close>

text \<open>The connections are in order, and so are their histories.\<close>

definition histories_ok :: "socket list \<Rightarrow> client_connection list \<Rightarrow> world \<Rightarrow> bool" where
  "histories_ok pre clients w \<longleftrightarrow> clients_ok pre clients w \<and> requests_ok w
     \<and> (\<forall>client \<in> set clients. history_ok w (cc_fd client) (progress (cc_reader client)))"

lemma history_ok_os [simp]: "history_ok (w\<lparr>w_os := os\<rparr>) fd part = history_ok w fd part"
  by (simp add: history_ok_def)

lemma requests_ok_os [simp]: "requests_ok (w\<lparr>w_os := os\<rparr>) = requests_ok w"
  by (simp add: requests_ok_def)

lemma histories_ok_open:
  assumes "histories_ok pre clients w" and fd: "fd \<noteq> -1" "fd \<notin> os_open (w_os w)"
  shows "requests_ok (open_connection fd w)"
    and "history_ok (open_connection fd w) fd []"
    and "client \<in> set clients \<Longrightarrow>
      history_ok (open_connection fd w) (cc_fd client) (progress (cc_reader client))"
proof -
  show "requests_ok (open_connection fd w)"
    using assms(1) by (auto simp: histories_ok_def requests_ok_def open_connection_def)
  show "history_ok (open_connection fd w) fd []" by (simp add: history_ok_def open_connection_def)
  assume c: "client \<in> set clients"
  then have "cc_fd client \<in> set (owned_fds (map cc_socket clients))"
    using assms(1) by (auto simp: histories_ok_def clients_ok_def owned_fds_def conn_ok_def is_valid_def)
  then have "cc_fd client \<noteq> fd"
    using assms by (auto simp: histories_ok_def clients_ok_def sockets_ok_def)
  moreover have "history_ok w (cc_fd client) (progress (cc_reader client))"
    using assms(1) c by (simp add: histories_ok_def)
  ultimately show "history_ok (open_connection fd w) (cc_fd client) (progress (cc_reader client))"
    by (simp add: history_ok_def open_connection_def)
qed

lemma histories_ok_handled:
  assumes ok: "histories_ok pre clients w" and i: "i < length clients"
    and asked: "has_event events POLLIN \<Longrightarrow> \<not> w_pending (cc_writer (clients ! i))"
    and h: "handle_client_events (clients ! i) events w = Inr (Some (keep, client, w1))"
  shows "requests_ok w1"
    and "keep \<Longrightarrow> x \<in> set (clients[i := client]) \<Longrightarrow> history_ok w1 (cc_fd x) (progress (cc_reader x))"
    and "x \<in> set (take i clients @ drop (Suc i) clients) \<Longrightarrow> history_ok w1 (cc_fd x) (progress (cc_reader x))"
proof -
  have c: "clients_ok pre clients w" "requests_ok w" "conn_ok w (clients ! i)"
    "history_ok w (cc_fd (clients ! i)) (progress (cc_reader (clients ! i)))" "world_ok w"
    using ok i by (simp_all add: histories_ok_def clients_ok_def)
  from c(3) have "reader_inv (cc_reader (clients ! i))" by (simp add: conn_ok_def)
  note hist = handle_client_events_history [OF this c(2,4) h]
  note step = handle_client_events_ok [OF c(3,5) asked h]
  have fd: "cc_fd client = cc_fd (clients ! i)" using step by (simp add: step_ok_def)
  have other: "history_ok w1 (cc_fd (clients ! j)) (progress (cc_reader (clients ! j)))"
    if j: "j < length clients" "j \<noteq> i" for j
  proof (rule history_ok_other [OF _ c(2)])
    show "history_step (cc_fd (clients ! i)) w w1" using hist by blast
    show "cc_fd (clients ! j) \<noteq> cc_fd (clients ! i)" by (rule clients_ok_fds [OF c(1) j(1) i j(2)])
    show "history_ok w (cc_fd (clients ! j)) (progress (cc_reader (clients ! j)))"
      using ok j(1) by (simp add: histories_ok_def)
  qed
  show "requests_ok w1" using hist by (simp add: history_step_def)
  show "history_ok w1 (cc_fd x) (progress (cc_reader x))" if keep "x \<in> set (clients[i := client])"
  proof -
    obtain j where "j < length clients" "x = clients[i := client] ! j"
      using \<open>x \<in> set (clients[i := client])\<close> by (auto simp: in_set_conv_nth)
    then show ?thesis using hist other i fd \<open>keep\<close> by (cases "j = i") simp_all
  qed
  show "history_ok w1 (cc_fd x) (progress (cc_reader x))"
    if "x \<in> set (take i clients @ drop (Suc i) clients)"
    using that by (rule in_erased) (simp add: other)
qed

interpretation histories: connection_invariant "histories_ok pre"
proof unfold_locales
  fix clients w i events keep client w1
  assume ok: "histories_ok pre clients w" and i: "i < length clients"
    and asked: "has_event events POLLIN \<Longrightarrow> \<not> w_pending (cc_writer (clients ! i))"
    and h: "handle_client_events (clients ! i) events w = Inr (Some (keep, client, w1))"
  have c: "clients_ok pre clients w" using ok by (simp add: histories_ok_def)
  note kept = histories_ok_handled [OF ok i asked h]
  show "if keep then histories_ok pre (clients[i := client]) w1
      else case erase_client i (clients[i := client]) w1 of (cs, w2) \<Rightarrow> histories_ok pre cs w2"
  proof (cases keep)
    case True
    then show ?thesis using connections.handled [OF c i asked h] kept(1,2) by (simp add: histories_ok_def)
  next
    case False
    then show ?thesis using connections.handled [OF c i asked h] kept(1,3) i
      by (simp add: histories_ok_def erase_client_def)
  qed
next
  fix clients w fd
  assume ok: "histories_ok pre clients w" and fd: "fd \<noteq> -1" "fd \<notin> os_open (w_os w)"
  note o = histories_ok_open [OF ok fd]
  have c: "clients_ok pre clients w" using ok by (simp add: histories_ok_def)
  show "histories_ok pre (clients @ [new_connection fd]) (open_connection fd w)"
    using o connections.opened [OF c fd] by (auto simp: histories_ok_def socket_of_def)
  show "histories_ok pre clients
      ((open_connection fd w)\<lparr>w_os := socket_destroy (socket_of fd) (w_os (open_connection fd w))\<rparr>)"
    using o connections.dropped [OF c fd] by (simp add: histories_ok_def)
next
  fix clients w entry
  assume ok: "histories_ok pre clients w" and entry: "\<forall>op e. entry \<noteq> Io_Error op e"
  then show "histories_ok pre clients (log_line entry w)"
    using connections.warned [OF _ entry] by (auto simp: histories_ok_def history_ok_def requests_ok_def)
qed

lemma server_reach_histories:
  "server_reach srv w \<Longrightarrow> histories_ok [m_listen_socket srv] (m_clients srv) w"
proof (induction rule: server_reach.induct)
  case (reach_started calls address port srv os line rx tx)
  have "server_reach srv
       \<lparr>w_os = os, w_recv = rx, w_send = tx, w_sent = (\<lambda>_. []), w_log = [line],
        w_executor = register_builtins executor_new, h_commands = [], h_replies = (\<lambda>_. []),
        h_requests = (\<lambda>_. []), h_received = (\<lambda>_. [])\<rparr>"
    using reach_started by (rule server_reach.reach_started)
  from server_reach_ok [OF this] show ?case
    using server_start_ok(1) [OF reach_started] by (simp add: server_ok_def histories_ok_def requests_ok_def)
next
  case (reach_kernel srv w rx tx)
  then show ?case
    by (simp add: histories_ok_def clients_ok_def conn_ok_def world_ok_def requests_ok_def history_ok_def)
next
  case (reach_iteration srv w polls accept_script srv' w')
  have "is_valid (m_listen_socket srv)" using server_reach_ok [OF reach_iteration.hyps(1)] by (simp add: server_ok_def)
  then show ?case
    using histories.server_iteration_keeps [OF reach_iteration.IH _ reach_iteration.hyps(2,3)] by simp
qed

text \<open>C2: the server is linearizable.  At every reachable state with fewer than 2^31 commands executed, the
  commands of all connections take effect one after the other on an abstract map, and this one history is
  an interleaving of the connections: the positions of the requests of a connection are increasing, and
  those of two connections are disjoint; the bytes that a connection has received are the frames of
  exactly its requests, in their order, with what its reader has of the next frame; and the bytes sent on
  it, with what its writer still holds, are the frames of the results of exactly these requests.\<close>

theorem server_linearizable:
  assumes "server_reach srv w" and "2 * length (h_commands w) < 4294967296"
  shows "spec_commands Map.empty (map fst (h_commands w))
      = Some (map snd (h_commands w), ex_abs (w_executor w))
    \<and> (\<forall>client \<in> set (m_clients srv).
        sorted_wrt (<) (h_requests w (cc_fd client))
        \<and> (\<forall>i \<in> set (h_requests w (cc_fd client)). i < length (h_commands w))
        \<and> h_received w (cc_fd client)
            = concat (map (\<lambda>i. frame (request_at w i)) (h_requests w (cc_fd client)))
                @ progress (cc_reader client)
        \<and> w_sent w (cc_fd client) @ remaining (cc_writer client)
            = concat (map (\<lambda>i. frame (res_output (result_at w i))) (h_requests w (cc_fd client))))
    \<and> (\<forall>c \<in> set (m_clients srv). \<forall>d \<in> set (m_clients srv). cc_fd c \<noteq> cc_fd d \<longrightarrow>
        set (h_requests w (cc_fd c)) \<inter> set (h_requests w (cc_fd d)) = {})"
proof -
  have h: "clients_ok [m_listen_socket srv] (m_clients srv) w" "requests_ok w"
    "\<forall>client \<in> set (m_clients srv). history_ok w (cc_fd client) (progress (cc_reader client))"
    using server_reach_histories [OF assms(1)] by (simp_all add: histories_ok_def)
  have "world_ok w" and "\<forall>client \<in> set (m_clients srv). conn_ok w client"
    using h(1) by (simp_all add: clients_ok_def)
  then show ?thesis
    using h(2,3) world_ok_executor(1) [OF _ assms(2)]
    by (auto simp: history_ok_def conn_ok_def requests_ok_def o_def)
qed

theorem server_linearizable_witness:
  "\<exists>srv w fd. server_reach srv w \<and> w_sent w fd = frame ''OK''
    \<and> spec_commands Map.empty [''set a 11''] = Some (map snd (h_commands w), ex_abs (w_executor w))
    \<and> h_received w fd = concat (map (\<lambda>i. frame (request_at w i)) (h_requests w fd))
    \<and> frame ''OK'' = concat (map (\<lambda>i. frame (res_output (result_at w i))) (h_requests w fd))"
proof -
  obtain srv w where e: "server_reach srv w" "idle 0 srv" "ex_abs (w_executor w) = [''a'' \<mapsto> ''11'']"
    "h_commands w = [(''set a 11'', default_result\<lparr>res_output := ''OK''\<rparr>)]"
    "length (m_clients srv) = 1" "w_sent w (cc_fd (m_clients srv ! 0)) = frame ''OK''"
    by (rule served_example)
  have mem: "m_clients srv ! 0 \<in> set (m_clients srv)" using e(5) by simp
  have i: "progress (cc_reader (m_clients srv ! 0)) = []" "remaining (cc_writer (m_clients srv ! 0)) = []"
    using e(2) by (simp_all add: idle_def remaining_def has_pending_message_def)
  have "2 * length (h_commands w) < 4294967296" using e(4) by simp
  from server_linearizable [OF e(1) this] have
    "spec_commands Map.empty [''set a 11''] = Some (map snd (h_commands w), ex_abs (w_executor w))"
    and "\<forall>client \<in> set (m_clients srv). h_received w (cc_fd client)
            = concat (map (\<lambda>i. frame (request_at w i)) (h_requests w (cc_fd client)))
                @ progress (cc_reader client)
        \<and> w_sent w (cc_fd client) @ remaining (cc_writer client)
            = concat (map (\<lambda>i. frame (res_output (result_at w i))) (h_requests w (cc_fd client)))"
    using e(4) by auto
  with mem i e(1,6) show ?thesis by (metis append_Nil2)
qed

end
