(* ===== verification/ServerRun.thy ===== *)
theory ServerRun
  imports EndToEnd "HOL-Library.Sublist"
begin

text \<open>
  \<open>Server::run\<close> as a whole, \<open>run_server\<close> and \<open>main\<close> of server/src/main.cpp up to what the process prints and
  its exit code, and when the server runs into undefined behaviour: only when a command replaces a value by
  a shorter one.
\<close>

section \<open>The loop\<close>

text \<open>
  What the environment does in one turn of the loop: the results of \<open>poll\<close> and of \<open>accept\<close>, and what can
  be received and sent from then on.
\<close>

record turn =
  tn_polls :: "poll_event list"
  tn_accepts :: "accept_event list"
  tn_recv :: "int \<Rightarrow> recv_event list"
  tn_send :: "int \<Rightarrow> send_event list"

definition begin_turn :: "turn \<Rightarrow> world \<Rightarrow> world" where
  "begin_turn t w = w\<lparr>w_recv := tn_recv t, w_send := tn_send t\<rparr>"

text \<open>The loop for as many turns as there are; \<open>Continue\<close> is the state before the next one.\<close>

fun server_loop :: "turn list \<Rightarrow> server \<Rightarrow> world \<Rightarrow> iteration io_run" where
  "server_loop [] srv w = done_io (Continue srv w)"
| "server_loop (t # turns) srv w =
     bind_io (server_iteration (tn_polls t) (tn_accepts t) srv (begin_turn t w)) (\<lambda>it.
       case it of Continue srv1 w1 \<Rightarrow> server_loop turns srv1 w1 | _ \<Rightarrow> done_io it)"

definition server_run :: "turn list \<Rightarrow> server \<Rightarrow> world \<Rightarrow> iteration io_run" where
  "server_run turns srv w =
     (if \<not> is_valid (m_listen_socket srv) then done_io (Exit_Failure (''Not bound to socket'', None) w)
      else server_loop turns srv w)"

text \<open>The world when nothing has happened on a connection yet.\<close>

definition initial_world :: "os \<Rightarrow> log_entry list \<Rightarrow> executor \<Rightarrow> world" where
  "initial_world os printed ex =
     \<lparr>w_os = os, w_recv = (\<lambda>_. []), w_send = (\<lambda>_. []), w_sent = (\<lambda>_. []), w_log = printed,
      w_executor = ex, h_commands = [], h_replies = (\<lambda>_. []),
      h_requests = (\<lambda>_. []), h_received = (\<lambda>_. [])\<rparr>"

abbreviation server_new :: server where
  "server_new \<equiv> \<lparr>m_listen_socket = socket_new, m_clients = []\<rparr>"

definition run_server :: "start_calls \<Rightarrow> string \<Rightarrow> int \<Rightarrow> executor \<Rightarrow> turn list \<Rightarrow> iteration io_run" where
  "run_server calls host port ex turns =
     (case server_start calls host port server_new no_descriptors of
        Inl msg \<Rightarrow> done_io (Exit_Failure msg (initial_world no_descriptors [] ex))
      | Inr (srv, os, line) \<Rightarrow> server_run turns srv (initial_world os [line] ex))"

text \<open>What \<open>poll\<close> and \<open>accept\<close> promise in one turn, and in all turns of a run.\<close>

definition turn_ok :: "turn \<Rightarrow> server \<Rightarrow> world \<Rightarrow> bool" where
  "turn_ok t srv w \<longleftrightarrow>
     (\<forall>revents. poll_loop (tn_polls t) = Some (Inr revents) \<longrightarrow> poll_contract (poll_interest srv) revents
       \<and> (\<forall>clients w1. serve_clients (length (m_clients srv)) revents (m_clients srv) (begin_turn t w)
              = Inr (Some (clients, w1)) \<longrightarrow> accepts_fresh (tn_accepts t) (os_open (w_os w1))))"

fun turns_ok :: "turn list \<Rightarrow> server \<Rightarrow> world \<Rightarrow> bool" where
  "turns_ok [] srv w \<longleftrightarrow> True"
| "turns_ok (t # turns) srv w \<longleftrightarrow> turn_ok t srv w
     \<and> (\<forall>srv1 w1. server_iteration (tn_polls t) (tn_accepts t) srv (begin_turn t w)
            = Inr (Some (Continue srv1 w1)) \<longrightarrow> turns_ok turns srv1 w1)"

lemma reach_turn:
  assumes "server_reach srv w" and "turn_ok t srv w"
    and "server_iteration (tn_polls t) (tn_accepts t) srv (begin_turn t w) = Inr (Some (Continue srv' w'))"
  shows "server_reach srv' w'"
proof (rule reach_iteration [OF _ _ assms(3)])
  show "server_reach srv (begin_turn t w)" unfolding begin_turn_def using assms(1) by (rule reach_kernel)
qed (use assms(2) in \<open>simp add: turn_ok_def\<close>)

text \<open>The loop never ends by itself, and every state before a turn is a reachable one.\<close>

lemma server_iteration_goes_on:
  assumes "server_reach srv w"
  shows "server_iteration polls accept_script srv w \<noteq> Inr (Some (Loop_Ended w'))"
proof -
  have "is_valid (m_listen_socket srv)" using server_reach_ok [OF assms] by (simp add: server_ok_def)
  then show ?thesis
    by (auto simp: server_iteration_def elim!: bind_ioE
        split: option.splits sum.splits prod.splits if_splits)
qed

lemma server_loop_reach:
  assumes "server_reach srv w" and "turns_ok turns srv w" and "server_loop turns srv w = Inr (Some it)"
  shows "case it of
      Continue srv' w' \<Rightarrow> server_reach srv' w'
    | Loop_Ended w' \<Rightarrow> False
    | Exit_Failure msg w' \<Rightarrow> True"
  using assms
proof (induction turns arbitrary: srv w)
  case Nil
  then show ?case by auto
next
  case (Cons t turns)
  from Cons.prems(3) obtain it1 where
    run: "server_iteration (tn_polls t) (tn_accepts t) srv (begin_turn t w) = Inr (Some it1)" and
    rest: "(case it1 of Continue srv1 w1 \<Rightarrow> server_loop turns srv1 w1 | _ \<Rightarrow> done_io it1) = Inr (Some it)"
    by (auto elim!: bind_ioE)
  have t: "turn_ok t srv w" using Cons.prems(2) by simp
  have "server_reach srv (begin_turn t w)" unfolding begin_turn_def using Cons.prems(1) by (rule reach_kernel)
  from server_iteration_goes_on [OF this] have "it1 \<noteq> Loop_Ended w'" for w' using run by auto
  then show ?case
  proof (cases it1)
    case (Continue srv1 w1)
    then show ?thesis
      using Cons.IH [of srv1 w1] reach_turn [OF Cons.prems(1) t] run rest Cons.prems(2) by simp
  qed (use rest in auto)
qed

text \<open>The run of the program from its start: after any turns it is in a reachable state.\<close>

lemma run_server_reach:
  assumes "\<forall>srv os line. server_start calls host port server_new no_descriptors = Inr (srv, os, line) \<longrightarrow>
      turns_ok turns srv (initial_world os [line] (register_builtins executor_new))"
    and "run_server calls host port (register_builtins executor_new) turns = Inr (Some it)"
  shows "case it of
      Continue srv w \<Rightarrow> server_reach srv w
    | Loop_Ended w \<Rightarrow> False
    | Exit_Failure msg w \<Rightarrow> True"
proof (cases "server_start calls host port server_new no_descriptors")
  case (Inl msg)
  then show ?thesis using assms(2) by (auto simp: run_server_def)
next
  case (Inr started)
  then obtain srv os line where s: "server_start calls host port server_new no_descriptors = Inr (srv, os, line)"
    by (cases started) auto
  have "server_reach srv (initial_world os [line] (register_builtins executor_new))"
    unfolding initial_world_def by (rule reach_started [OF s])
  from server_loop_reach [OF this] assms s server_start_ok(3) [OF s] show ?thesis
    by (simp add: run_server_def server_run_def)
qed

section \<open>The program\<close>

text \<open>\<open>main\<close> of the server, from its arguments, the lines of its standard input and the turns of its loop: it
  has ended with an exit code, or it is before another turn; with everything that it has printed.\<close>

datatype program_state = Ended nat "console list" | Running server world "console list"

definition server_program ::
  "string \<Rightarrow> (int \<Rightarrow> string) \<Rightarrow> start_calls \<Rightarrow> string list \<Rightarrow> string list \<Rightarrow> turn list
    \<Rightarrow> program_state io_run" where
  "server_program program strerror calls args input turns =
     (let (action, printed) = server_main args;
          logged = (\<lambda>w. printed @ map (log_output program strerror) (w_log w))
      in case action of
           Exit code \<Rightarrow> done_io (Ended code printed)
         | Start_Repl ex \<Rightarrow>
             bind_run (run_repl ex input) (\<lambda>(more, ex'). done_io (Ended 0 (printed @ more)))
         | Start_Server ex host port \<Rightarrow>
             bind_io (run_server calls host port ex turns) (\<lambda>it. done_io
               (case it of
                  Continue srv w \<Rightarrow> Running srv w (logged w)
                | Loop_Ended w \<Rightarrow> Ended 0 (logged w)
                | Exit_Failure msg w \<Rightarrow> Ended 1 (logged w @ [exit_line program strerror msg]))))"

lemma parse_server_options_printed:
  "parse_server_options args o1 = ((ok, o2, help), printed) \<Longrightarrow>
    if ok then printed = [] else \<exists>e. Err e \<in> set printed"
proof (induction args o1 rule: parse_server_options.induct)
  case (1 options)
  then show ?case by auto
next
  case (2 argument args options)
  then show ?case by (auto simp: invalid_argument_def split: if_splits prod.splits)
qed

lemma run_repl_printed:
  "run_repl ex lines = Inr (printed, ex') \<Longrightarrow> Err e \<notin> set printed"
proof (induction lines arbitrary: ex printed)
  case Nil
  then show ?case by (auto simp: prompt_def)
next
  case (Cons line lines)
  from Cons.prems obtain r ex1 where r: "run_command ex line = Inr (r, ex1)"
    by (auto simp: bind_run_eq_Inr)
  show ?case
  proof (cases "\<not> res_error r \<and> res_stop r")
    case True
    then show ?thesis using Cons.prems r by (auto simp: prompt_def reply_line_def)
  next
    case False
    then obtain more where "run_repl ex1 lines = Inr (more, ex')"
      "printed = prompt # (if res_output r \<noteq> [] then [reply_line (res_output r)] else []) @ more"
      using Cons.prems r by (auto simp: bind_run_eq_Inr)
    then show ?thesis using Cons.IH [of ex1 more] by (auto simp: prompt_def reply_line_def)
  qed
qed

text \<open>What is printed stays printed.\<close>

lemma handle_request_log:
  "handle_request client input w = Inr (Some (keep, client', w')) \<Longrightarrow> prefix (w_log w) (w_log w')"
  by (auto simp: handle_request_def bind_run_eq_Inr Let_def log_io_error_def
      split: if_splits prod.splits sum.splits)

lemma handle_readable_log:
  "handle_readable client w = Inr (Some (keep, client', w')) \<Longrightarrow> prefix (w_log w) (w_log w')"
  by (auto simp: handle_readable_def Let_def log_io_error_def dest!: handle_request_log
      split: option.splits sum.splits message_read_status.splits)

lemma handle_writable_log:
  "handle_writable client w = Inr (Some (keep, client', w')) \<Longrightarrow> prefix (w_log w) (w_log w')"
  by (auto simp: handle_writable_def Let_def log_io_error_def split: option.splits sum.splits)

lemma handle_client_events_log:
  assumes "handle_client_events client events w = Inr (Some (keep, client', w'))"
  shows "prefix (w_log w) (w_log w')"
proof (cases "has_event events (POLLERR OR POLLNVAL)")
  case False
  then obtain keep1 client1 w1 where
    1: "(if has_event events POLLIN then handle_readable client w else done_io (True, client, w))
        = Inr (Some (keep1, client1, w1))" and
    2: "(if \<not> keep1 then done_io (False, client1, w1)
        else
          bind_io (if has_event events POLLOUT then handle_writable client1 w1
                   else done_io (True, client1, w1)) (\<lambda>(keep, client2, w2).
          if \<not> keep then done_io (False, client2, w2)
          else done_io (\<not> has_event events POLLHUP, client2, w2))) = Inr (Some (keep, client', w'))"
    using assms by (auto simp: handle_client_events_def elim!: bind_ioE)
  have "prefix (w_log w) (w_log w1)" using 1 by (auto split: if_splits dest: handle_readable_log)
  moreover have "prefix (w_log w1) (w_log w')"
    using 2 by (auto split: if_splits dest: handle_writable_log elim!: bind_ioE)
  ultimately show ?thesis by (rule prefix_order.trans)
qed (use assms in \<open>auto simp: handle_client_events_def\<close>)

lemma serve_clients_log:
  "serve_clients index revents clients w = Inr (Some (clients', w')) \<Longrightarrow> prefix (w_log w) (w_log w')"
proof (induction index arbitrary: clients w)
  case 0
  then show ?case by simp
next
  case (Suc index)
  show ?case
  proof (cases "revents ! (index + 1) = 0")
    case True
    then show ?thesis using Suc by (auto split: if_splits)
  next
    case False
    with Suc.prems obtain keep client w1 where
      h: "handle_client_events (clients ! index) (revents ! (index + 1)) w = Inr (Some (keep, client, w1))" and
      rest: "(let clients1 = clients[index := client]
             in if keep then serve_clients index revents clients1 w1
                else let (clients2, w2) = erase_client index clients1 w1
                     in serve_clients index revents clients2 w2) = Inr (Some (clients', w'))"
      by (auto split: if_splits elim!: bind_ioE)
    obtain cs w2 where "erase_client index (clients[index := client]) w1 = (cs, w2)" "w_log w2 = w_log w1"
      by (auto simp: erase_client_def)
    then have "prefix (w_log w1) (w_log w')"
      using rest Suc.IH [of "clients[index := client]" w1] Suc.IH [of cs w2] by (auto simp: Let_def split: if_splits)
    with handle_client_events_log [OF h] show ?thesis by (rule prefix_order.trans)
  qed
qed

lemma accept_clients_log:
  "accept_clients script clients w = Some (clients', w', rest) \<Longrightarrow> prefix (w_log w) (w_log w')"
proof (induction script clients w rule: accept_clients.induct)
  case (1 clients w)
  then show ?case by simp
next
  case (2 errno es clients w)
  then show ?case by (auto split: if_splits)
next
  case (3 fd getfl setfl setsockopt es clients w)
  have o: "w_log (open_connection fd w) = w_log w" by (simp add: open_connection_def)
  show ?case
  proof (cases "is_valid (socket_of fd)")
    case valid: True
    show ?thesis
    proof (cases "set_nonblocking getfl setfl True")
      case (Inl e)
      then have "prefix (w_log w @ [Setup_Failed ''Failed to make client socket nonblocking'' e]) (w_log w')"
        using "3.IH"(1) "3.prems" valid o by (simp add: Let_def)
      then show ?thesis by (rule append_prefixD)
    next
      case nb: (Inr f)
      show ?thesis
      proof (cases "set_nodelay setsockopt True")
        case (Inl e)
        then have "prefix (w_log w @ [Setup_Failed ''Failed to configure client socket'' e]) (w_log w')"
          using "3.IH"(2) "3.prems" valid nb o by (simp add: Let_def)
        then show ?thesis by (rule append_prefixD)
      next
        case (Inr u)
        then show ?thesis using "3.IH"(3) "3.prems" valid nb o by (simp add: Let_def)
      qed
    qed
  qed (use "3.prems" in simp)
qed

fun iteration_world :: "iteration \<Rightarrow> world" where
  "iteration_world (Continue srv w) = w"
| "iteration_world (Loop_Ended w) = w"
| "iteration_world (Exit_Failure msg w) = w"

lemma server_iteration_log:
  "server_iteration polls accept_script srv w = Inr (Some it) \<Longrightarrow> prefix (w_log w) (w_log (iteration_world it))"
  by (fastforce simp: server_iteration_def bind_io_eq_Some split: if_splits option.splits sum.splits
      dest: serve_clients_log accept_clients_log intro: prefix_order.trans)

lemma server_loop_log:
  "server_loop turns srv w = Inr (Some it) \<Longrightarrow> prefix (w_log w) (w_log (iteration_world it))"
proof (induction turns arbitrary: srv w)
  case Nil
  then show ?case by auto
next
  case (Cons t turns)
  then obtain it1 where "server_iteration (tn_polls t) (tn_accepts t) srv (begin_turn t w) = Inr (Some it1)"
    and rest: "(case it1 of Continue srv1 w1 \<Rightarrow> server_loop turns srv1 w1 | _ \<Rightarrow> done_io it1) = Inr (Some it)"
    by (auto elim!: bind_ioE)
  then have "prefix (w_log w) (w_log (iteration_world it1))"
    using server_iteration_log by (fastforce simp: begin_turn_def)
  then show ?case using rest Cons.IH by (cases it1) (auto intro: prefix_order.trans)
qed

section \<open>The requests of an iteration\<close>

text \<open>The request that a connection takes in an iteration: with \<open>POLLIN\<close>, the message of the frame that the
  bytes in its reader and those that can be received complete, if they do.\<close>

definition request_of :: "client_connection \<Rightarrow> u16 \<Rightarrow> world \<Rightarrow> string list" where
  "request_of client events w =
     (if has_event events (POLLERR OR POLLNVAL) \<or> \<not> has_event events POLLIN then []
      else case parse_frame (progress (cc_reader client) @ fst (stream (w_recv w (cc_fd client)))) of
             Whole line bs \<Rightarrow> [line]
           | _ \<Rightarrow> [])"

text \<open>The requests of the connections from \<open>i\<close> up to \<open>n\<close>, in the order of the loop, which counts down.\<close>

definition requests_between :: "nat \<Rightarrow> nat \<Rightarrow> u16 list \<Rightarrow> client_connection list \<Rightarrow> world \<Rightarrow> string list" where
  "requests_between i n revents clients w =
     concat (map (\<lambda>j. request_of (clients ! j) (revents ! (j + 1)) w) (rev [i..<n]))"

lemma request_of_length: "length (request_of client events w) \<le> 1"
  by (simp add: request_of_def split: parsed.splits)

lemma requests_between_length: "length (requests_between i n revents clients w) \<le> n - i"
proof (induction n)
  case (Suc n)
  then show ?case
    using request_of_length [of "clients ! n" "revents ! (n + 1)" w]
    by (cases "i \<le> n") (auto simp: requests_between_def Suc_diff_le)
qed (simp add: requests_between_def)

lemma requests_between_Suc:
  "i \<le> n \<Longrightarrow> requests_between i (Suc n) revents clients w
    = request_of (clients ! n) (revents ! (n + 1)) w @ requests_between i n revents clients w"
  by (simp add: requests_between_def)

lemma request_of_cong:
  "w_recv w' (cc_fd client) = w_recv w (cc_fd client) \<Longrightarrow> request_of client events w' = request_of client events w"
  by (simp add: request_of_def)

lemma requests_between_cong:
  assumes "\<forall>j < n. clients' ! j = clients ! j \<and> w_recv w' (cc_fd (clients ! j)) = w_recv w (cc_fd (clients ! j))"
  shows "requests_between i n revents clients' w' = requests_between i n revents clients w"
proof -
  have "request_of (clients' ! j) events w' = request_of (clients ! j) events w" if "j < n" for j events
    using assms that request_of_cong [of w' "clients ! j" w] by simp
  then have "map (\<lambda>j. request_of (clients' ! j) (revents ! (j + 1)) w') (rev [i..<n])
      = map (\<lambda>j. request_of (clients ! j) (revents ! (j + 1)) w) (rev [i..<n])" by simp
  then show ?thesis by (simp only: requests_between_def)
qed

text \<open>A handler runs the request of its connection, and leaves the input of the others alone.\<close>

definition takes :: "client_connection \<Rightarrow> string list \<Rightarrow> world \<Rightarrow> world \<Rightarrow> bool" where
  "takes client lines w w' \<longleftrightarrow> map fst (h_commands w') = map fst (h_commands w) @ lines
     \<and> (\<forall>fd. fd \<noteq> cc_fd client \<longrightarrow> w_recv w' fd = w_recv w fd)"

lemma handle_request_takes:
  "handle_request client line w = Inr (Some (keep, client', w')) \<Longrightarrow> takes c [line] w w'"
  by (auto simp: takes_def handle_request_def bind_run_eq_Inr Let_def log_io_error_def
      split: if_splits prod.splits sum.splits)

lemma handle_readable_takes:
  assumes inv: "reader_inv (cc_reader client)"
    and "handle_readable client w = Inr (Some (keep, client', w'))"
    and events: "\<not> has_event events (POLLERR OR POLLNVAL)" "has_event events POLLIN"
  shows "takes client (request_of client events w) w w'"
proof -
  obtain bs s rest where st: "stream (w_recv w (cc_fd client)) = (bs, s, rest)" by (metis prod_cases3)
  note spec = read_from_stream [OF inv st]
  obtain res reader es where rd: "read_from (cc_reader client) (w_recv w (cc_fd client)) = Some (res, reader, es)"
    using assms(2) by (auto simp: handle_readable_def Let_def native_handle_def split: option.splits)
  show ?thesis
  proof (cases "\<exists>r. res = Inr r \<and> status r = Complete")
    case True
    then obtain r where r: "res = Inr r" "status r = Complete" by blast
    then have h: "handle_request (client\<lparr>cc_reader := reader\<rparr>) (message r) (received (cc_fd client) es w)
        = Inr (Some (keep, client', w'))"
      using assms(2) rd by (simp add: handle_readable_def Let_def native_handle_def)
    have "request_of client events w = [message r]"
      using spec rd r st events
      by (auto simp: request_of_def read_spec_def read_stopped_def read_complete_def
          split: parsed.splits stream_end.splits loop_end.splits if_splits)
    with handle_request_takes [OF h, of client] show ?thesis by (auto simp: takes_def)
  next
    case False
    then have "request_of client events w = []"
      using spec rd st
      by (auto simp: request_of_def read_spec_def read_complete_def split: parsed.splits)
    moreover have "takes client [] w w'"
      using assms(2) rd False
      by (auto simp: takes_def handle_readable_def Let_def native_handle_def log_io_error_def
          split: sum.splits message_read_status.splits)
    ultimately show ?thesis by simp
  qed
qed

lemma handle_writable_takes:
  "handle_writable client w = Inr (Some (keep, client', w')) \<Longrightarrow> takes c [] w w'"
  by (auto simp: takes_def handle_writable_def Let_def log_io_error_def split: option.splits sum.splits)

lemma handle_client_events_takes:
  assumes "reader_inv (cc_reader client)"
    and "handle_client_events client events w = Inr (Some (keep, client', w'))"
  shows "takes client (request_of client events w) w w'"
proof (cases "has_event events (POLLERR OR POLLNVAL)")
  case True
  then show ?thesis using assms(2) by (simp add: handle_client_events_def takes_def request_of_def)
next
  case False
  obtain keep1 client1 w1 where
    1: "(if has_event events POLLIN then handle_readable client w else done_io (True, client, w))
        = Inr (Some (keep1, client1, w1))" and
    2: "(if \<not> keep1 then done_io (False, client1, w1)
        else
          bind_io (if has_event events POLLOUT then handle_writable client1 w1
                   else done_io (True, client1, w1)) (\<lambda>(keep, client2, w2).
          if \<not> keep then done_io (False, client2, w2)
          else done_io (\<not> has_event events POLLHUP, client2, w2))) = Inr (Some (keep, client', w'))"
    using assms(2) False by (auto simp: handle_client_events_def elim!: bind_ioE)
  have first: "takes client (request_of client events w) w w1"
  proof (cases "has_event events POLLIN")
    case True
    then show ?thesis using handle_readable_takes [OF assms(1) _ False True] 1 by simp
  next
    case no_input: False
    then show ?thesis using 1 by (simp add: takes_def request_of_def)
  qed
  moreover have "takes client [] w1 w'"
    using 2 by (auto split: if_splits dest: handle_writable_takes [of _ _ _ _ _ client] elim!: bind_ioE simp: takes_def)
  ultimately show ?thesis by (simp add: takes_def)
qed

section \<open>Where a fault comes from\<close>

lemma bind_io_fault: "bind_io m f = Inl e \<longleftrightarrow> m = Inl e \<or> (\<exists>a. m = Inr (Some a) \<and> f a = Inl e)"
  by (cases m) (auto simp: bind_io_def split: option.splits)

lemma done_io_no_fault [simp]: "done_io a \<noteq> Inl e" "Inl e \<noteq> done_io a"
  by (simp_all add: done_io_def)

lemma handle_request_fault:
  "handle_request client input w = Inl f \<Longrightarrow> run_command (w_executor w) input = Inl f"
  by (auto simp: handle_request_def bind_run_eq_Inl Let_def split: if_splits prod.splits sum.splits)

lemma handle_writable_no_fault: "handle_writable client w \<noteq> Inl f"
  by (auto simp: handle_writable_def Let_def split: option.splits sum.splits)

text \<open>A handler faults only in the command of its own request.\<close>

lemma handle_client_events_fault:
  assumes inv: "reader_inv (cc_reader client)" and "handle_client_events client events w = Inl f"
  shows "\<exists>line. request_of client events w = [line] \<and> length line \<le> MAX_MESSAGE_SIZE
    \<and> run_command (w_executor w) line = Inl f"
proof -
  have events: "\<not> has_event events (POLLERR OR POLLNVAL)" "has_event events POLLIN"
    and "handle_readable client w = Inl f"
    using assms(2)
    by (auto simp: handle_client_events_def bind_io_fault handle_writable_no_fault split: if_splits)
  then obtain r reader es where
    rd: "read_from (cc_reader client) (w_recv w (cc_fd client)) = Some (Inr r, reader, es)"
    "status r = Complete" and
    h: "handle_request (client\<lparr>cc_reader := reader\<rparr>) (message r) (received (cc_fd client) es w) = Inl f"
    by (auto simp: handle_readable_def Let_def native_handle_def
        split: option.splits sum.splits message_read_status.splits)
  obtain bs s rest where st: "stream (w_recv w (cc_fd client)) = (bs, s, rest)" by (metis prod_cases3)
  from read_from_stream [OF inv st] rd st events have "request_of client events w = [message r]"
    by (auto simp: request_of_def read_spec_def read_stopped_def read_complete_def
        split: parsed.splits stream_end.splits loop_end.splits if_splits)
  moreover have "length (message r) \<le> MAX_MESSAGE_SIZE" by (rule read_message_length [OF inv rd])
  moreover have "run_command (w_executor w) (message r) = Inl f" using handle_request_fault [OF h] by simp
  ultimately show ?thesis by blast
qed

section \<open>A fault of the server is a value that gets shorter\<close>

lemma serve_clients_fault:
  assumes "clients_ok pre clients w" and "index \<le> length clients"
    and "\<forall>i < index. has_event (revents ! (i + 1)) POLLIN \<longrightarrow> \<not> w_pending (cc_writer (clients ! i))"
    and "index < length revents" and "serve_clients index revents clients w = Inl f"
  shows "\<exists>i w1 line. i < index \<and> world_ok w1
    \<and> map fst (h_commands w1) = map fst (h_commands w) @ requests_between (i + 1) index revents clients w
    \<and> request_of (clients ! i) (revents ! (i + 1)) w = [line] \<and> length line \<le> MAX_MESSAGE_SIZE
    \<and> run_command (w_executor w1) line = Inl f"
  using assms
proof (induction index arbitrary: clients w)
  case 0
  then show ?case by simp
next
  case (Suc index)
  let ?c = "clients ! index" and ?e = "revents ! (index + 1)"
  have i: "index < length clients" and guard: "\<not> (length revents \<le> index + 1 \<or> length clients \<le> index)"
    using Suc.prems(2,4) by simp_all
  have inv: "conn_ok w ?c" "world_ok w" using Suc.prems(1) i by (auto simp: clients_ok_def)
  have rinv: "reader_inv (cc_reader ?c)" using inv(1) by (simp add: conn_ok_def)
  have fault_later: ?case
    if "clients_ok pre clients1 w1" "index \<le> length clients1" "serve_clients index revents clients1 w1 = Inl f"
      "\<forall>j < index. clients1 ! j = clients ! j" "takes ?c (request_of ?c ?e w) w w1" for clients1 w1
  proof -
    have same: "\<forall>j < index. clients1 ! j = clients ! j
        \<and> w_recv w1 (cc_fd (clients ! j)) = w_recv w (cc_fd (clients ! j))"
      using that(4,5) clients_ok_fds [OF Suc.prems(1) _ i] i by (auto simp: takes_def)
    from Suc.IH [OF that(1,2) _ _ that(3)] Suc.prems(3,4) that(4) obtain j w2 line where
      j: "j < index" "world_ok w2" "request_of (clients1 ! j) (revents ! (j + 1)) w1 = [line]"
      "length line \<le> MAX_MESSAGE_SIZE" "run_command (w_executor w2) line = Inl f"
      "map fst (h_commands w2) = map fst (h_commands w1) @ requests_between (j + 1) index revents clients1 w1"
      by auto
    have "request_of (clients ! j) (revents ! (j + 1)) w = [line]"
      using j(1,3) same request_of_cong [of w1 "clients ! j" w] by simp
    moreover have "map fst (h_commands w2)
        = map fst (h_commands w) @ requests_between (j + 1) (Suc index) revents clients w"
      using j(1,6) that(5) requests_between_cong [OF same, of "j + 1" revents]
      by (simp add: takes_def requests_between_Suc)
    ultimately show ?thesis using j(1,2,4,5) by (meson less_SucI)
  qed
  show ?case
  proof (cases "?e = 0")
    case True
    then have "serve_clients index revents clients w = Inl f" using Suc.prems(5) guard by simp
    moreover have "takes ?c (request_of ?c ?e w) w w"
      using True by (simp add: takes_def request_of_def has_event_def)
    ultimately show ?thesis using fault_later [OF Suc.prems(1)] i by simp
  next
    case False
    from Suc.prems(5) guard False consider
      (now) "handle_client_events ?c ?e w = Inl f"
    | (rest) keep client w1 where "handle_client_events ?c ?e w = Inr (Some (keep, client, w1))"
        "(let clients1 = clients[index := client]
             in if keep then serve_clients index revents clients1 w1
                else let (clients2, w2) = erase_client index clients1 w1
                     in serve_clients index revents clients2 w2) = Inl f"
      by (auto simp: bind_io_fault)
    then show ?thesis
    proof cases
      case now
      from handle_client_events_fault [OF rinv now] inv(2) show ?thesis
        by (intro exI [of _ index] exI [of _ w]) (auto simp: requests_between_def)
    next
      case rest
      have "has_event ?e POLLIN \<Longrightarrow> \<not> w_pending (cc_writer ?c)" using Suc.prems(3) by simp
      from handle_client_events_ok [OF inv this rest(1)] have step: "step_ok ?c w (keep, client, w1)" by simp
      note c = clients_ok_step [OF Suc.prems(1) i step]
      note t = handle_client_events_takes [OF rinv rest(1)]
      show ?thesis
      proof (cases keep)
        case True
        show ?thesis by (rule fault_later [OF c(1) [OF True] _ _ _ t]) (use rest(2) True i in auto)
      next
        case drop: False
        obtain cs w2 where e: "erase_client index (clients[index := client]) w1 = (cs, w2)" by fastforce
        then have cs: "cs = take index clients @ drop (Suc index) clients" and w2: "w_recv w2 = w_recv w1"
          "h_commands w2 = h_commands w1" by (auto simp: erase_client_def)
        have "takes ?c (request_of ?c ?e w) w w2" using t w2 by (simp add: takes_def)
        then show ?thesis
          using fault_later [of cs w2] c(2) [OF drop] e rest(2) drop i cs by (simp add: nth_erased)
      qed
    qed
  qed
qed

text \<open>The specification of a command is undefined exactly when it is a \<open>set\<close> of a shorter value.\<close>

lemma spec_command_undefined:
  "spec_command \<sigma> line = None \<longleftrightarrow>
    (\<exists>key val old. tokens line = [''set'', key, val] \<and> \<sigma> key = Some old \<and> length val < length old)"
proof
  assume none: "spec_command \<sigma> line = None"
  then obtain operation ts n where t: "tokens line = operation # ts" "arity operation = Some n" "length ts = n"
    "spec_builtin \<sigma> operation ts = None"
    by (auto simp: spec_command_def split: list.splits option.splits if_splits)
  then have "operation = ''set''" "shrinks \<sigma> (ts ! 0) (ts ! 1)" by (auto split: if_splits)
  moreover from this(1) t(2,3) obtain key val where "ts = [key, val]"
    by (auto simp: arity_def length_Suc_conv numeral_2_eq_2)
  ultimately show "\<exists>key val old. tokens line = [''set'', key, val] \<and> \<sigma> key = Some old \<and> length val < length old"
    using t(1) by (auto simp: shrinks_def split: option.splits)
qed (auto simp: spec_command_def arity_def shrinks_def)

lemma server_iteration_fault:
  assumes reach: "server_reach srv w"
    and contract: "\<forall>revents. poll_loop polls = Some (Inr revents) \<longrightarrow> poll_contract (poll_interest srv) revents"
    and small: "2 * (length (h_commands w) + length (m_clients srv)) < 4294967296"
    and fault: "server_iteration polls accept_script srv w = Inl f"
  shows "f = Out_Of_Bounds \<and> (\<exists>revents i line rs \<sigma> key val old.
      poll_loop polls = Some (Inr revents) \<and> i < length (m_clients srv)
      \<and> request_of (m_clients srv ! i) (revents ! (i + 1)) w = [line]
      \<and> spec_commands (ex_abs (w_executor w))
          (requests_between (i + 1) (length (m_clients srv)) revents (m_clients srv) w) = Some (rs, \<sigma>)
      \<and> tokens line = [''set'', key, val] \<and> \<sigma> key = Some old \<and> length val < length old)"
proof -
  let ?n = "length (m_clients srv)"
  have ok: "clients_ok [m_listen_socket srv] (m_clients srv) w"
    using server_reach_ok [OF reach] by (simp add: server_ok_def)
  then have wok: "world_ok w" by (simp add: clients_ok_def)
  from fault obtain revents where p: "poll_loop polls = Some (Inr revents)" and
    sv: "serve_clients ?n revents (m_clients srv) w = Inl f"
    by (auto simp: server_iteration_def bind_io_fault split: if_splits option.splits sum.splits)
  have c: "poll_contract (poll_interest srv) revents" using contract p by blast
  then have "length revents = Suc ?n"
    by (auto simp: poll_contract_def poll_interest_def dest: list_all2_lengthD)
  then have "?n < length revents" by simp
  from serve_clients_fault [OF ok _ _ this sv] poll_contract_asked [OF c] obtain i w1 line where
    i: "i < ?n" "request_of (m_clients srv ! i) (revents ! (i + 1)) w = [line]" and w1: "world_ok w1"
    "map fst (h_commands w1) = map fst (h_commands w) @ requests_between (i + 1) ?n revents (m_clients srv) w"
    and len: "length line \<le> MAX_MESSAGE_SIZE" and run: "run_command (w_executor w1) line = Inl f" by auto
  have "length (h_commands w1) = length (map fst (h_commands w1))" by simp
  also have "\<dots> \<le> length (h_commands w) + (?n - (i + 1))"
    unfolding w1(2) using requests_between_length [of "i + 1" ?n revents "m_clients srv" w] by simp
  finally have few: "2 * (length (h_commands w1) + 1) < 4294967296" using small i(1) by arith
  then have few1: "2 * length (h_commands w1) < 4294967296" and few0: "2 * length (h_commands w) < 4294967296"
    using small by simp_all
  note now = world_ok_executor [OF w1(1) few1] and before = world_ok_executor(1) [OF wok few0]
  from now(1) before have "\<exists>rs. spec_commands (ex_abs (w_executor w))
      (requests_between (i + 1) ?n revents (m_clients srv) w) = Some (rs, ex_abs (w_executor w1))"
    unfolding w1(2) by (auto simp: spec_commands_append)
  moreover have "run_ok (w_executor w1) (spec_command (ex_abs (w_executor w1)) line) (run_command (w_executor w1) line)"
    using now(2,3) few len by (intro run_command_ok) (simp_all add: str_limit_def MAX_MESSAGE_SIZE_def)
  then have "f = Out_Of_Bounds" "spec_command (ex_abs (w_executor w1)) line = None"
    using run by (auto simp: run_ok_def split: option.splits)
  ultimately show ?thesis using p i spec_command_undefined by blast
qed

text \<open>The other way round: one such request on any idle connection.\<close>

lemma shrinking_request_fault:
  assumes reach: "server_reach srv w" and idle: "idle i srv"
    and "2 * (length (h_commands w) + 1) < 4294967296"
    and rx: "stream rx = (frame line, s, rest)" and len: "length line \<le> MAX_MESSAGE_SIZE"
    and spec: "spec_command (ex_abs (w_executor w)) line = None"
  shows "server_iteration [Polled (only_client (length (m_clients srv)) i POLLIN)] [] srv
      (with_scripts (cc_fd (m_clients srv ! i)) rx tx w) = Inl Out_Of_Bounds"
proof -
  let ?n = "length (m_clients srv)" and ?c = "m_clients srv ! i"
  let ?w = "with_scripts (cc_fd ?c) rx tx w"
  have i: "i < ?n" and start: "progress (cc_reader ?c) = []" using idle by (simp_all add: idle_def)
  have "2 * length (h_commands w) < 4294967296" using assms(3) by simp
  note ex = reach_executor [OF reach this]
  have "run_ok (w_executor w) (spec_command (ex_abs (w_executor w)) line) (run_command (w_executor w) line)"
    using ex assms(3) len by (intro run_command_ok) (simp_all add: str_limit_def MAX_MESSAGE_SIZE_def)
  then have run: "run_command (w_executor w) line = Inl Out_Of_Bounds" using spec by (simp add: run_ok_def)
  have conn: "conn_ok ?w ?c" using reach_conn_ok [OF server_reach_scripts [OF reach] i] .
  have st: "stream (w_recv ?w (cc_fd ?c)) = (frame line, s, rest)" using rx by (simp add: with_scripts_def)
  have "parse_frame (progress (cc_reader ?c) @ frame line) = Whole line []"
    using parse_frame_frame [OF len, of "[]"] start by simp
  from handle_whole_frame [OF conn st this] obtain es where
    "handle_client_events ?c POLLIN ?w
      = bind_io (handle_request (?c\<lparr>cc_reader := reader_new\<rparr>) line
                   (received (cc_fd ?c) es ?w)) done_io" by blast
  then have h: "handle_client_events ?c POLLIN ?w = Inl Out_Of_Bounds"
    using run by (simp add: handle_request_def with_scripts_def bind_io_def)
  have serve: "serve_clients k (only_client ?n i POLLIN) (m_clients srv) ?w = Inl Out_Of_Bounds"
    if "i < k" "k \<le> ?n" for k
    using that
  proof (induction k)
    case (Suc k)
    show ?case
    proof (cases "k = i")
      case True
      have "POLLIN \<noteq> 0" by (simp add: POLLIN_def)
      then show ?thesis using True h i by (simp add: bind_io_def)
    qed (use Suc in simp)
  qed simp
  have "is_valid (m_listen_socket srv)" using server_reach_ok [OF reach] by (simp add: server_ok_def)
  then show ?thesis using serve [OF i] by (simp add: server_iteration_def bind_io_def)
qed

section \<open>Property\<close>

text \<open>C7: the server is free of undefined behaviour but for one cause.  When an iteration of a reachable server
  faults, whatever the kernel reports and whatever bytes the clients have sent, then this happens in the request
  of one of its connections: the requests that the iteration takes before it, from the connections with a
  higher index, lead the store to a state in which this request sets a key to a value that is shorter than
  the stored one.\<close>

theorem server_undefined_behaviour:
  assumes "server_reach srv w"
    and "\<forall>revents. poll_loop polls = Some (Inr revents) \<longrightarrow> poll_contract (poll_interest srv) revents"
    and "2 * (length (h_commands w) + length (m_clients srv)) < 4294967296"
    and "server_iteration polls accept_script srv w = Inl f"
  shows "f = Out_Of_Bounds \<and> (\<exists>revents i line rs \<sigma> key val old.
      poll_loop polls = Some (Inr revents) \<and> i < length (m_clients srv)
      \<and> request_of (m_clients srv ! i) (revents ! (i + 1)) w = [line]
      \<and> spec_commands (ex_abs (w_executor w))
          (requests_between (i + 1) (length (m_clients srv)) revents (m_clients srv) w) = Some (rs, \<sigma>)
      \<and> tokens line = [''set'', key, val] \<and> \<sigma> key = Some old \<and> length val < length old)"
  using assms by (rule server_iteration_fault)

theorem server_undefined_behaviour_witness:
  "\<exists>srv w polls revents rs \<sigma> old. server_reach srv w \<and> server_iteration polls [] srv w = Inl Out_Of_Bounds
    \<and> poll_loop polls = Some (Inr revents) \<and> length (m_clients srv) = 1
    \<and> request_of (m_clients srv ! 0) (revents ! 1) w = [''set a 1'']
    \<and> spec_commands (ex_abs (w_executor w)) [] = Some (rs, \<sigma>) \<and> \<sigma> ''a'' = Some old \<and> length ''1'' < length old"
proof -
  let ?r = "default_result\<lparr>res_output := ''OK''\<rparr>"
  obtain srv1 w1 where
    one: "server_reach srv1 w1" "idle 0 srv1" "ex_abs (w_executor w1) = [''a'' \<mapsto> ''11'']"
    "h_commands w1 = [(''set a 11'', ?r)]" "length (m_clients srv1) = 1"
    by (rule served_example)
  have rx: "stream [Received (frame line)] = (frame line, Exhausted, [])" for line by simp
  let ?w2 = "with_scripts (cc_fd (m_clients srv1 ! 0)) [Received (frame ''set a 1'')] [] w1"
  let ?revents = "only_client (length (m_clients srv1)) 0 POLLIN"
  have "spec_command (ex_abs (w_executor w1)) ''set a 1'' = None"
    unfolding one(3) by (simp add: spec_command_def is_whitespace_def arity_def shrinks_def)
  from shrinking_request_fault [OF one(1,2) _ rx _ this] one(4)
  have fault: "server_iteration [Polled ?revents] [] srv1 ?w2 = Inl Out_Of_Bounds"
    by (simp add: MAX_MESSAGE_SIZE_def)
  have reach: "server_reach srv1 ?w2" using one(1) by (rule server_reach_scripts)
  have "0 < length (m_clients srv1)" "POLLIN = poll_interest srv1 ! Suc 0"
    using one(2) by (simp_all add: idle_def poll_interest_client)
  from poll_contract_only [OF this]
  have contract: "\<forall>revents. poll_loop [Polled ?revents] = Some (Inr revents) \<longrightarrow> poll_contract (poll_interest srv1) revents"
    by simp
  have "length (h_commands ?w2) = 1" using one(4) by (simp add: with_scripts_def)
  then have "2 * (length (h_commands ?w2) + length (m_clients srv1)) < 4294967296" using one(5) by simp
  from server_undefined_behaviour [OF reach contract this fault] one(5) obtain line rs \<sigma> key val old where
    u: "request_of (m_clients srv1 ! 0) (?revents ! 1) ?w2 = [line]"
    "spec_commands (ex_abs (w_executor ?w2)) [] = Some (rs, \<sigma>)"
    "tokens line = [''set'', key, val]" "\<sigma> key = Some old" "length val < length old"
    by (auto simp: requests_between_def)
  have "parse_frame (progress (cc_reader (m_clients srv1 ! 0)) @ frame ''set a 1'') = Whole ''set a 1'' []"
    using parse_frame_frame [of "''set a 1''" "[]"] one(2) by (simp add: idle_def MAX_MESSAGE_SIZE_def)
  then have "line = ''set a 1''" using u(1) rx by (auto simp: request_of_def with_scripts_def split: if_splits)
  then have "key = ''a''" "val = ''1''" using u(3) by (simp_all add: is_whitespace_def)
  with reach fault u one(5) \<open>line = ''set a 1''\<close> show ?thesis
    by (intro exI [of _ srv1] exI [of _ ?w2] exI [of _ "[Polled ?revents]"] exI [of _ ?revents]
        exI [of _ rs] exI [of _ \<sigma>] exI [of _ old]) simp
qed

text \<open>C35: the whole server program, whatever its arguments, its input, the system and its clients do.  When it has
  ended, its exit code is 1 exactly when it has printed an error, so that only \<open>--help\<close> and the REPL end
  with exit code 0.  When it goes on, it is a server in a reachable state, which has first printed that it is
  listening, on a port from 1 to 65535, and afterwards its warnings and errors.\<close>

theorem server_program_correct:
  assumes "server_program program strerror calls args input turns = Inr (Some outcome)"
    and "\<forall>host port srv os line. server_start calls host port server_new no_descriptors = Inr (srv, os, line) \<longrightarrow>
      turns_ok turns srv (initial_world os [line] (register_builtins executor_new))"
  shows "case outcome of
      Ended code printed \<Rightarrow> code = (if \<exists>e. Err e \<in> set printed then 1 else 0)
        \<and> (code = 0 \<longrightarrow> printed = [server_usage] \<or> hd printed = Out (''Repl mode enabled'' @ [LF]))
    | Running srv w printed \<Rightarrow> server_reach srv w
        \<and> (\<exists>address port rest. 1 \<le> port \<and> port \<le> 65535
            \<and> printed = map (log_output program strerror) (Listening address port # rest))"
proof -
  obtain ok o1 h before where p: "parse_server_options args default_server_options = ((ok, o1, h), before)"
    by (metis surj_pair)
  note before = parse_server_options_printed [OF p]
  show ?thesis
  proof (cases "ok \<and> \<not> h \<and> \<not> so_repl o1")
    case False
    then consider "\<not> ok" "outcome = Ended 1 (before @ [server_usage])"
      | "ok" "outcome = Ended 0 (before @ [server_usage])"
      | more ex' where "ok" "run_repl (register_builtins executor_new) input = Inr (more, ex')"
          "outcome = Ended 0 (before @ Out (''Repl mode enabled'' @ [LF]) # more)"
      using assms(1) p by (auto simp: server_program_def server_main_def bind_run_eq_Inr split: if_splits)
    then show ?thesis
      using before run_repl_printed [of "register_builtins executor_new" input]
      by cases (auto simp: server_usage_def)
  next
    case True
    let ?ex = "register_builtins executor_new" and ?logged = "\<lambda>w. map (log_output program strerror) (w_log w)"
    from True assms(1) p before obtain it where
      run: "run_server calls (so_host o1) (so_port o1) ?ex turns = Inr (Some it)" and
      out: "outcome = (case it of
                  Continue srv w \<Rightarrow> Running srv w (?logged w)
                | Loop_Ended w \<Rightarrow> Ended 0 (?logged w)
                | Exit_Failure msg w \<Rightarrow> Ended 1 (?logged w @ [exit_line program strerror msg]))"
      by (auto simp: server_program_def server_main_def elim!: bind_ioE cong: iteration.case_cong)
    have "case it of Continue srv w \<Rightarrow> server_reach srv w | Loop_Ended w \<Rightarrow> False | Exit_Failure msg w \<Rightarrow> True"
      using assms(2) run by (intro run_server_reach) blast+
    then show ?thesis
    proof (cases it)
      case (Exit_Failure msg w)
      have "\<exists>e. exit_line program strerror msg = Err e" by (cases "(program, strerror, msg)" rule: exit_line.cases) simp_all
      then show ?thesis using out Exit_Failure by auto
    next
      case (Continue srv w)
      obtain srv0 os line where s: "server_start calls (so_host o1) (so_port o1) server_new no_descriptors = Inr (srv0, os, line)"
        and loop: "server_loop turns srv0 (initial_world os [line] ?ex) = Inr (Some it)"
        using run Continue by (auto simp: run_server_def server_run_def split: sum.splits if_splits)
      obtain address where "line = Listening address (so_port o1)" using server_start_ok(6) [OF s] by blast
      moreover have "prefix [line] (w_log w)"
        using server_loop_log [OF loop] Continue by (simp add: initial_world_def)
      then obtain rest where "w_log w = line # rest" by (auto simp: prefix_def)
      moreover have "1 \<le> so_port o1 \<and> so_port o1 \<le> 65535"
        using parse_server_options_port [of args default_server_options o1 h before] p True
        by (simp add: default_server_options_def)
      ultimately show ?thesis
        using out Continue \<open>case it of Continue srv w \<Rightarrow> server_reach srv w | _ \<Rightarrow> _\<close> by auto
    qed simp
  qed
qed

text \<open>A server that gets its address, and one whose address is in use.\<close>

theorem server_program_correct_witness:
  "\<exists>calls calls' srv w. server_program ''attokv_server'' (\<lambda>_. ''Address already in use'') calls [] [] []
      = Inr (Some (Running srv w [log_output ''attokv_server'' (\<lambda>_. ''Address already in use'') (Listening (inet_ntoa 0) 6337)]))
    \<and> server_reach srv w
    \<and> server_program ''attokv_server'' (\<lambda>_. ''Address already in use'') calls' [] [] []
      = Inr (Some (Ended 1 [Err (''attokv_server: bind: Address already in use'' @ [LF])]))"
proof -
  let ?calls = "\<lambda>bound. \<lparr>call_socket = 3, call_socket_errno = 0, call_last_errno = 0, call_inet_aton = (\<lambda>_. Some 0),
       call_bind = (\<lambda>_. bound), call_listen = (\<lambda>_. None), call_getfl = Inr 0, call_setfl = (\<lambda>_. None)\<rparr>"
  let ?program = "\<lambda>bound. server_program ''attokv_server'' (\<lambda>_. ''Address already in use'') (?calls bound) [] [] []"
  let ?srv = "\<lparr>m_listen_socket = socket_of 3, m_clients = []\<rparr>"
  let ?line = "Listening (inet_ntoa 0) 6337"
  have "server_start (?calls None) ''127.0.0.1'' 6337 server_new no_descriptors
      = Inr (?srv, \<lparr>os_open = {3}, os_bad_closes = 0\<rparr>, ?line)"
    by (simp add: server_start_def make_sockaddr_def set_nonblocking_def socket_move_assign_def
        socket_release_def socket_reset_def socket_of_def socket_new_def is_valid_def socket_destroy_def)
  then have "\<exists>w. ?program None
      = Inr (Some (Running ?srv w [log_output ''attokv_server'' (\<lambda>_. ''Address already in use'') ?line]))"
    by (simp add: server_program_def server_main_def default_server_options_def run_server_def server_run_def
        is_valid_def socket_of_def initial_world_def)
  then obtain w where run: "?program None
      = Inr (Some (Running ?srv w [log_output ''attokv_server'' (\<lambda>_. ''Address already in use'') ?line]))" by blast
  from server_program_correct [OF run] have "server_reach ?srv w" by simp
  moreover have "server_start (?calls (Some 98)) ''127.0.0.1'' 6337 srv os = Inl (''bind'', Some 98)" for srv os
    by (simp add: server_start_def is_valid_def socket_of_def Let_def make_sockaddr_def)
  then have "?program (Some 98)
      = Inr (Some (Ended 1 [Err (''attokv_server: bind: Address already in use'' @ [LF])]))"
    by (simp add: server_program_def server_main_def default_server_options_def run_server_def initial_world_def)
  ultimately show ?thesis using run by blast
qed

end
