(* ===== verification/ServerStage.thy ===== *)
theory ServerStage
  imports ServerHistory ServerRun "HOL-Library.Multiset"
begin

text \<open>
  A stretch of a run of the server, in which some connections send their requests: between two states in
  which these connections are at rest, any number of turns of the loop with any events.  What the
  connections are sent are the answers of the abstract map to the requests in one order, which interleaves
  the connections.
\<close>

section \<open>Interleavings\<close>

text \<open>\<open>order\<close> merges the lists \<open>parts\<close>: the elements from list \<open>i\<close> are those of \<open>parts ! i\<close>, in their
  order.\<close>

definition interleaves :: "'a list list \<Rightarrow> (nat \<times> 'a) list \<Rightarrow> bool" where
  "interleaves parts order \<longleftrightarrow> fst ` set order \<subseteq> {..<length parts}
     \<and> (\<forall>i < length parts. map snd (filter (\<lambda>(j, x). j = i) order) = parts ! i)"

lemma mset_concat_update:
  "i < length xss \<Longrightarrow> mset (concat (xss[i := ys])) + mset (xss ! i) = mset (concat xss) + mset ys"
proof (induction xss arbitrary: i)
  case (Cons xs xss)
  show ?case
  proof (cases i)
    case (Suc j)
    then show ?thesis using Cons.IH [of j] Cons.prems by (simp add: add.assoc)
  qed (simp add: ac_simps)
qed simp

text \<open>The first element of an order is that of one of the parts.\<close>

lemma interleaves_Cons:
  assumes "interleaves parts ((j, x) # order)"
  obtains rest where "j < length parts" and "parts ! j = x # rest" and "interleaves (parts[j := rest]) order"
proof -
  have j: "j < length parts" using assms by (simp add: interleaves_def)
  define rest where "rest = map snd (filter (\<lambda>(i, y). i = j) order)"
  have part: "parts ! j = x # rest" using assms j by (auto simp: interleaves_def rest_def)
  have "map snd (filter (\<lambda>(i, y). i = k) order) = parts[j := rest] ! k" if "k < length parts" for k
    using assms that j by (cases "k = j") (auto simp: interleaves_def rest_def)
  then have "interleaves (parts[j := rest]) order" using assms by (auto simp: interleaves_def)
  with that j part show thesis by blast
qed

lemma interleaves_Nil: "interleaves parts [] \<Longrightarrow> p \<in> set parts \<Longrightarrow> p = []"
  by (auto simp: interleaves_def in_set_conv_nth)

lemma interleaves_mset: "interleaves parts order \<Longrightarrow> mset (map snd order) = mset (concat parts)"
proof (induction order arbitrary: parts)
  case Nil
  then show ?case using interleaves_Nil by fastforce
next
  case (Cons jx order)
  obtain j x where jx: "jx = (j, x)" by (cases jx)
  from Cons.prems jx obtain rest where
    r: "j < length parts" "parts ! j = x # rest" "interleaves (parts[j := rest]) order"
    by (auto elim: interleaves_Cons)
  from Cons.IH [OF r(3)] have "mset (map snd order) = mset (concat (parts[j := rest]))" .
  then show ?case using mset_concat_update [OF r(1), of rest] r(2) jx by simp
qed

lemma interleaves_of_client:
  "interleaves parts order \<Longrightarrow> i < length parts \<Longrightarrow> of_client i (map fst order) (map snd order) = parts ! i"
  by (simp add: interleaves_def of_client_def zip_map_fst_snd)

text \<open>An order of the images is the image of an order.\<close>

lemma interleaves_map:
  "interleaves (map (map f) parts) order
    \<Longrightarrow> \<exists>order'. interleaves parts order' \<and> order = map (\<lambda>(i, x). (i, f x)) order'"
proof (induction order arbitrary: parts)
  case Nil
  then have "interleaves parts []" by (auto simp: interleaves_def)
  then show ?case by (intro exI [of _ "[]"]) simp
next
  case (Cons jy order)
  obtain j y where jy: "jy = (j, y)" by (cases jy)
  from Cons.prems jy obtain rest where r: "j < length parts" "map f (parts ! j) = y # rest"
    "interleaves ((map (map f) parts)[j := rest]) order"
    by (auto elim: interleaves_Cons)
  then obtain x xs where x: "parts ! j = x # xs" "y = f x" "rest = map f xs" by auto
  have "(map (map f) parts)[j := rest] = map (map f) (parts[j := xs])" using x(3) by (simp add: map_update)
  with r(3) Cons.IH obtain order' where
    o: "interleaves (parts[j := xs]) order'" "order = map (\<lambda>(i, x). (i, f x)) order'" by metis
  have "map snd (filter (\<lambda>(i, y). i = k) ((j, x) # order')) = parts ! k" if "k < length parts" for k
    using o(1) that r(1) x(1) by (cases "k = j") (auto simp: interleaves_def)
  then have "interleaves parts ((j, x) # order')" using o(1) r(1) by (simp add: interleaves_def)
  with o(2) x(2) jy show ?case by (intro exI [of _ "(j, x) # order'"]) simp
qed

text \<open>With only one part that is not empty there is only one order.\<close>

lemma interleaves_single:
  assumes "interleaves (replicate k [] @ [xs]) order"
  shows "order = map (Pair k) xs"
  using assms
proof (induction order arbitrary: xs)
  case Nil
  then have "xs = []" using interleaves_Nil [of "replicate k [] @ [xs]" xs] by simp
  then show ?case by simp
next
  case (Cons jx order)
  obtain j x where jx: "jx = (j, x)" by (cases jx)
  from Cons.prems jx obtain rest where r: "j < Suc k" "(replicate k [] @ [xs]) ! j = x # rest"
    "interleaves ((replicate k [] @ [xs])[j := rest]) order"
    by (auto elim: interleaves_Cons)
  have "j = k" using r(1,2) by (auto simp: nth_append split: if_splits)
  then have "xs = x # rest" "(replicate k [] @ [xs])[j := rest] = replicate k [] @ [rest]"
    using r(2) by (simp_all add: nth_append list_update_append)
  then show ?case using Cons.IH r(3) jx \<open>j = k\<close> by simp
qed

section \<open>Commands and frames\<close>

lemma spec_commands_length: "spec_commands \<sigma> xs = Some (rs, \<sigma>') \<Longrightarrow> length rs = length xs"
  by (induction xs arbitrary: \<sigma> rs) (auto split: option.splits)

lemma frames_inject:
  assumes "concat (map frame xs) = concat (map frame ys)"
    and "\<forall>x \<in> set xs. length x \<le> MAX_MESSAGE_SIZE" and "\<forall>y \<in> set ys. length y \<le> MAX_MESSAGE_SIZE"
  shows "xs = ys"
  using assms
proof (induction xs arbitrary: ys)
  case Nil
  then show ?case by (cases ys) auto
next
  case (Cons x xs)
  then obtain y ys' where y: "ys = y # ys'" by (cases ys) auto
  then show ?case
    using frame_inject [of x "concat (map frame xs)" y "concat (map frame ys')"] Cons.prems Cons.IH [of ys'] by simp
qed

section \<open>From one state on\<close>

text \<open>
  What holds from the world \<open>w0\<close> on: commands are only added, and the requests of a descriptor are those that
  it had and new ones, or, when it was opened again, only new ones.
\<close>

definition since :: "world \<Rightarrow> socket list \<Rightarrow> client_connection list \<Rightarrow> world \<Rightarrow> bool" where
  "since w0 pre clients w \<longleftrightarrow> histories_ok pre clients w \<and> (\<exists>cs. h_commands w = h_commands w0 @ cs)
     \<and> (\<forall>fd. \<exists>new. (\<forall>i \<in> set new. length (h_commands w0) \<le> i)
          \<and> (h_requests w fd = h_requests w0 fd @ new \<or> h_requests w fd = new))"

lemma since_refl: "histories_ok pre clients w \<Longrightarrow> since w pre clients w"
  by (auto simp: since_def intro!: exI [of _ "[]"])

lemma since_same:
  assumes "since w0 pre clients w" and "histories_ok pre clients' w'"
    and "h_commands w' = h_commands w" and "\<And>fd. h_requests w' fd = h_requests w fd \<or> h_requests w' fd = []"
  shows "since w0 pre clients' w'"
proof -
  have "\<exists>new. (\<forall>i \<in> set new. length (h_commands w0) \<le> i)
      \<and> (h_requests w' fd = h_requests w0 fd @ new \<or> h_requests w' fd = new)" for fd
  proof (cases "h_requests w' fd = []")
    case True
    then show ?thesis by (intro exI [of _ "[]"]) simp
  next
    case False
    then show ?thesis using assms(1,4) unfolding since_def by metis
  qed
  then show ?thesis using assms(1-3) by (simp add: since_def)
qed

lemma since_step:
  assumes "since w0 pre clients w" and "histories_ok pre clients' w'" and step: "history_step fd w w'"
  shows "since w0 pre clients' w'"
proof -
  obtain cs where cs: "h_commands w = h_commands w0 @ cs" using assms(1) by (auto simp: since_def)
  obtain new where new: "h_requests w' fd = h_requests w fd @ new" "\<forall>i \<in> set new. length (h_commands w) \<le> i"
    using step by (auto simp: history_step_def)
  then have late: "\<forall>i \<in> set new. length (h_commands w0) \<le> i" using cs by auto
  have "\<exists>new. (\<forall>i \<in> set new. length (h_commands w0) \<le> i)
      \<and> (h_requests w' f = h_requests w0 f @ new \<or> h_requests w' f = new)" for f
  proof (cases "f = fd")
    case True
    obtain old where "\<forall>i \<in> set old. length (h_commands w0) \<le> i"
      "h_requests w f = h_requests w0 f @ old \<or> h_requests w f = old" using assms(1) by (auto simp: since_def)
    then show ?thesis using new late True by (intro exI [of _ "old @ new"]) auto
  next
    case False
    then show ?thesis using assms(1) step by (auto simp: since_def history_step_def)
  qed
  moreover have "\<exists>cs. h_commands w' = h_commands w0 @ cs" using step cs by (auto simp: history_step_def)
  ultimately show ?thesis using assms(2) by (simp add: since_def)
qed

interpretation stages: connection_invariant "since w0 pre"
proof unfold_locales
  fix clients w i events keep client w1
  assume since: "since w0 pre clients w" and i: "i < length clients"
    and asked: "has_event events POLLIN \<Longrightarrow> \<not> w_pending (cc_writer (clients ! i))"
    and h: "handle_client_events (clients ! i) events w = Inr (Some (keep, client, w1))"
  have ok: "histories_ok pre clients w" using since by (simp add: since_def)
  then have "reader_inv (cc_reader (clients ! i))" "requests_ok w"
    "history_ok w (cc_fd (clients ! i)) (progress (cc_reader (clients ! i)))"
    using i by (simp_all add: histories_ok_def clients_ok_def conn_ok_def)
  from handle_client_events_history [OF this h] have step: "history_step (cc_fd (clients ! i)) w w1" by blast
  have next_ok: "if keep then histories_ok pre (clients[i := client]) w1
      else case erase_client i (clients[i := client]) w1 of (cs, w2) \<Rightarrow> histories_ok pre cs w2"
    by (rule histories.handled [OF ok i asked h])
  show "if keep then since w0 pre (clients[i := client]) w1
      else case erase_client i (clients[i := client]) w1 of (cs, w2) \<Rightarrow> since w0 pre cs w2"
  proof (cases keep)
    case True
    then show ?thesis using since_step [OF since _ step] next_ok by simp
  next
    case False
    obtain cs w2 where e: "erase_client i (clients[i := client]) w1 = (cs, w2)" by fastforce
    then have "history_step (cc_fd (clients ! i)) w w2"
      using step by (auto simp: erase_client_def history_step_def)
    then show ?thesis using since_step [OF since] next_ok False e by simp
  qed
next
  fix clients w fd
  assume since: "since w0 pre clients w" and fd: "fd \<noteq> -1" "fd \<notin> os_open (w_os w)"
  have ok: "histories_ok pre clients w" using since by (simp add: since_def)
  show "since w0 pre (clients @ [new_connection fd]) (open_connection fd w)"
    by (rule since_same [OF since histories.opened [OF ok fd]]) (simp_all add: open_connection_def)
  show "since w0 pre clients
      ((open_connection fd w)\<lparr>w_os := socket_destroy (socket_of fd) (w_os (open_connection fd w))\<rparr>)"
    by (rule since_same [OF since histories.dropped [OF ok fd]]) (simp_all add: open_connection_def)
next
  fix clients w entry
  assume since: "since w0 pre clients w" and entry: "\<forall>op e. entry \<noteq> Io_Error op e"
  have ok: "histories_ok pre clients w" using since by (simp add: since_def)
  show "since w0 pre clients (log_line entry w)"
    by (rule since_same [OF since histories.warned [OF ok entry]]) simp_all
qed

text \<open>A run of the loop, under what the kernel promises.\<close>

definition runs_to :: "server \<Rightarrow> world \<Rightarrow> server \<Rightarrow> world \<Rightarrow> bool" where
  "runs_to srv w srv' w' \<longleftrightarrow>
     (\<exists>turns. turns_ok turns srv w \<and> server_loop turns srv w = Inr (Some (Continue srv' w')))"

lemma begin_turn_histories: "histories_ok pre clients (begin_turn t w) = histories_ok pre clients w"
  by (simp add: begin_turn_def histories_ok_def clients_ok_def conn_ok_def world_ok_def requests_ok_def history_ok_def)

lemma server_loop_since:
  assumes "server_reach srv w" and "since w0 [m_listen_socket srv] (m_clients srv) w"
    and "turns_ok turns srv w" and "server_loop turns srv w = Inr (Some (Continue srv' w'))"
  shows "since w0 [m_listen_socket srv'] (m_clients srv') w' \<and> m_listen_socket srv' = m_listen_socket srv"
  using assms
proof (induction turns arbitrary: srv w)
  case Nil
  then show ?case by simp
next
  case (Cons t turns)
  from Cons.prems(4) obtain srv1 w1 where
    run: "server_iteration (tn_polls t) (tn_accepts t) srv (begin_turn t w) = Inr (Some (Continue srv1 w1))" and
    rest: "server_loop turns srv1 w1 = Inr (Some (Continue srv' w'))"
    by (auto elim!: bind_ioE split: iteration.splits)
  have t: "turn_ok t srv w" using Cons.prems(3) by simp
  have "since w0 [m_listen_socket srv] (m_clients srv) (begin_turn t w)"
    by (rule since_same [OF Cons.prems(2)])
      (use Cons.prems(2) in \<open>simp_all add: begin_turn_histories since_def, simp_all add: begin_turn_def\<close>)
  moreover have "is_valid (m_listen_socket srv)" using server_reach_ok [OF Cons.prems(1)] by (simp add: server_ok_def)
  ultimately have "since w0 [m_listen_socket srv] (m_clients srv1) w1" "m_listen_socket srv1 = m_listen_socket srv"
    using stages.server_iteration_keeps [OF _ _ _ run] t by (auto simp: turn_ok_def)
  then show ?case
    using Cons.IH [OF reach_turn [OF Cons.prems(1) t run] _ _ rest] Cons.prems(3) run by (metis turns_ok.simps(2))
qed

lemma runs_to_reach:
  assumes "server_reach srv w" and "runs_to srv w srv' w'"
  shows "server_reach srv' w'"
  using server_loop_reach [OF assms(1)] assms(2) by (fastforce simp: runs_to_def)

lemma runs_to_since:
  assumes "server_reach srv w" and "runs_to srv w srv' w'"
  shows "since w [m_listen_socket srv'] (m_clients srv') w'"
  using server_loop_since [OF assms(1) since_refl [OF server_reach_histories [OF assms(1)]]] assms(2)
  by (auto simp: runs_to_def)

lemma server_loop_append:
  "server_loop (ts @ us) srv w = bind_io (server_loop ts srv w) (\<lambda>it.
     case it of Continue srv1 w1 \<Rightarrow> server_loop us srv1 w1 | _ \<Rightarrow> done_io it)"
proof (induction ts arbitrary: srv w)
  case Nil
  then show ?case by (simp add: bind_io_def done_io_def)
next
  case (Cons t ts)
  consider f where "server_iteration (tn_polls t) (tn_accepts t) srv (begin_turn t w) = Inl f"
    | "server_iteration (tn_polls t) (tn_accepts t) srv (begin_turn t w) = Inr None"
    | it where "server_iteration (tn_polls t) (tn_accepts t) srv (begin_turn t w) = Inr (Some it)"
    by (metis option.exhaust sum.exhaust)
  then show ?case
  proof cases
    case 3
    then show ?thesis using Cons.IH by (cases it) (simp_all add: bind_io_def done_io_def)
  qed (simp_all add: bind_io_def)
qed

lemma turns_ok_append:
  "turns_ok (ts @ us) srv w \<longleftrightarrow> turns_ok ts srv w
     \<and> (\<forall>srv1 w1. server_loop ts srv w = Inr (Some (Continue srv1 w1)) \<longrightarrow> turns_ok us srv1 w1)"
proof (induction ts arbitrary: srv w)
  case Nil
  then show ?case by (simp add: done_io_def)
next
  case (Cons t ts)
  then show ?case
    by (cases "server_iteration (tn_polls t) (tn_accepts t) srv (begin_turn t w)")
      (auto simp: bind_io_def done_io_def split: option.splits iteration.splits)
qed

lemma runs_to_trans: "runs_to srv w srv1 w1 \<Longrightarrow> runs_to srv1 w1 srv2 w2 \<Longrightarrow> runs_to srv w srv2 w2"
proof -
  assume "runs_to srv w srv1 w1" and "runs_to srv1 w1 srv2 w2"
  then obtain ts us where "turns_ok ts srv w" "server_loop ts srv w = Inr (Some (Continue srv1 w1))"
    "turns_ok us srv1 w1" "server_loop us srv1 w1 = Inr (Some (Continue srv2 w2))" by (auto simp: runs_to_def)
  then show "runs_to srv w srv2 w2"
    unfolding runs_to_def
    by (intro exI [of _ "ts @ us"]) (simp add: turns_ok_append server_loop_append bind_io_def)
qed

section \<open>A stage\<close>

text \<open>The connection \<open>fd\<close> is open, between two requests and without an unsent reply.\<close>

definition at_rest :: "server \<Rightarrow> int \<Rightarrow> bool" where
  "at_rest srv fd \<longleftrightarrow> (\<exists>client \<in> set (m_clients srv). cc_fd client = fd
     \<and> \<not> has_pending_message (cc_writer client) \<and> progress (cc_reader client) = [])"

text \<open>
  Between two states in which the connections \<open>fds\<close> are at rest, connection \<open>fds ! i\<close> has received the frames
  of the lines \<open>parts ! i\<close>, and the server has executed no other commands.
\<close>

definition exchanged :: "server \<Rightarrow> world \<Rightarrow> server \<Rightarrow> world \<Rightarrow> int list \<Rightarrow> string list list \<Rightarrow> bool" where
  "exchanged srv w srv' w' fds parts \<longleftrightarrow> distinct fds \<and> length parts = length fds
     \<and> (\<forall>fd \<in> set fds. at_rest srv fd \<and> at_rest srv' fd)
     \<and> (\<forall>i < length fds. h_received w' (fds ! i) = h_received w (fds ! i) @ concat (map frame (parts ! i)))
     \<and> (\<forall>lines \<in> set parts. \<forall>line \<in> set lines. length line \<le> MAX_MESSAGE_SIZE)
     \<and> length (h_commands w') = length (h_commands w) + length (concat parts)"

lemma at_rest_history:
  assumes "server_reach srv w" and "at_rest srv fd"
  shows "history_ok w fd []" and "w_sent w fd = concat (map frame (h_replies w fd))"
proof -
  obtain client where c: "client \<in> set (m_clients srv)" "cc_fd client = fd"
    "\<not> has_pending_message (cc_writer client)" "progress (cc_reader client) = []"
    using assms(2) by (auto simp: at_rest_def)
  have h: "histories_ok [m_listen_socket srv] (m_clients srv) w" by (rule server_reach_histories [OF assms(1)])
  then have "conn_ok w client" using c(1) by (simp add: histories_ok_def clients_ok_def)
  then show "w_sent w fd = concat (map frame (h_replies w fd))"
    using c(2,3) by (auto simp: conn_ok_def remaining_def has_pending_message_def)
  show "history_ok w fd []" using h c by (auto simp: histories_ok_def)
qed

text \<open>The new requests of a connection: at least the lines that it has received, and when they are no more,
  exactly these lines, with their replies sent.\<close>

lemma new_requests:
  assumes reach: "server_reach srv w" "server_reach srv' w'" and since: "since w pre clients w'"
    and rest: "at_rest srv fd" "at_rest srv' fd"
    and got: "h_received w' fd = h_received w fd @ concat (map frame lines)"
    and len: "\<forall>line \<in> set lines. length line \<le> MAX_MESSAGE_SIZE"
  defines "new \<equiv> filter (\<lambda>i. length (h_commands w) \<le> i) (h_requests w' fd)"
  shows "length lines \<le> length new"
    and "length new = length lines \<Longrightarrow> map (request_at w') new = lines
      \<and> w_sent w' fd = w_sent w fd @ concat (map (\<lambda>i. frame (res_output (result_at w' i))) new)"
proof -
  let ?n = "length (h_commands w)" and ?old = "h_requests w fd"
  obtain cs where cs: "h_commands w' = h_commands w @ cs" using since by (auto simp: since_def)
  have ok: "requests_ok w" "requests_ok w'" "world_ok w'"
    using server_reach_histories [OF reach(1)] server_reach_histories [OF reach(2)]
    by (simp_all add: histories_ok_def clients_ok_def)
  have old: "\<forall>i \<in> set ?old. i < ?n" using ok(1) by (simp add: requests_ok_def)
  then have same: "map (\<lambda>i. f (h_commands w' ! i)) ?old = map (\<lambda>i. f (h_commands w ! i)) ?old"
    for f :: "string \<times> command_result \<Rightarrow> 'a" using cs by (simp add: nth_append)
  note h = at_rest_history [OF reach(1) rest(1)] at_rest_history [OF reach(2) rest(2)]
  have short: "\<forall>line \<in> set (map (request_at w') (h_requests w' fd)). length line \<le> MAX_MESSAGE_SIZE"
  proof -
    have "\<forall>i \<in> set (h_requests w' fd). i < length (h_commands w')" using ok(2) by (simp add: requests_ok_def)
    then show ?thesis using ok(3) by (auto simp: world_ok_def)
  qed
  have oldshort: "\<forall>line \<in> set (map (request_at w) ?old). length line \<le> MAX_MESSAGE_SIZE"
    using old server_reach_histories [OF reach(1)] by (auto simp: histories_ok_def clients_ok_def world_ok_def)
  have "concat (map frame (map (request_at w') (h_requests w' fd)))
      = concat (map frame (map (request_at w) ?old @ lines))"
    using got h(1,3) by (simp add: history_ok_def o_def)
  from frames_inject [OF this short] have eq: "map (request_at w') (h_requests w' fd) = map (request_at w) ?old @ lines"
    using len oldshort by auto
  obtain more where more: "\<forall>i \<in> set more. ?n \<le> i" "h_requests w' fd = ?old @ more \<or> h_requests w' fd = more"
    using since by (auto simp: since_def)
  have appended: "new = more \<and> map (request_at w') more = lines
      \<and> w_sent w' fd = w_sent w fd @ concat (map (\<lambda>i. frame (res_output (result_at w' i))) more)"
    if all: "h_requests w' fd = ?old @ more"
  proof -
    have "filter (\<lambda>i. ?n \<le> i) ?old = []" using old by (auto simp: filter_empty_conv)
    moreover have "filter (\<lambda>i. ?n \<le> i) more = more" using more(1) by (simp add: filter_id_conv)
    ultimately have "new = more" by (simp add: new_def all)
    moreover have "map (request_at w') more = lines" using eq same [of fst] by (simp add: all)
    moreover have "w_sent w' fd = w_sent w fd @ concat (map (\<lambda>i. frame (res_output (result_at w' i))) more)"
      using h same [of "\<lambda>c. frame (res_output (snd c))"] by (simp add: history_ok_def all o_def)
    ultimately show ?thesis by blast
  qed
  have again: "length new = length ?old + length lines" if "h_requests w' fd = more"
  proof -
    have "new = h_requests w' fd" using more(1) that by (simp add: new_def filter_id_conv)
    moreover have "length (h_requests w' fd) = length ?old + length lines"
      using arg_cong [OF eq, of length] by simp
    ultimately show ?thesis by simp
  qed
  show "length lines \<le> length new" using more(2) appended again by auto
  show "map (request_at w') new = lines
      \<and> w_sent w' fd = w_sent w fd @ concat (map (\<lambda>i. frame (res_output (result_at w' i))) new)"
    if "length new = length lines"
  proof -
    have "h_requests w' fd = ?old @ more" using more(2) again that by auto
    then show ?thesis using appended by simp
  qed
qed

lemma of_client_map_map: "of_client j (map g xs) (map f xs) = map f (filter (\<lambda>x. g x = j) xs)"
  by (induction xs) simp_all

text \<open>Disjoint increasing lists that fill an interval are the parts of an order of it.\<close>

lemma disjoint_lengths:
  fixes m :: nat and P :: "nat \<Rightarrow> nat list"
  assumes "\<And>j. j < m \<Longrightarrow> sorted_wrt (<) (P j)"
    and "\<And>i j. i < m \<Longrightarrow> j < m \<Longrightarrow> i \<noteq> j \<Longrightarrow> set (P i) \<inter> set (P j) = {}"
  shows "(\<Sum>j < m. length (P j)) = card (\<Union>j < m. set (P j))"
proof -
  have "distinct (P j)" if "j < m" for j
    using assms(1) [OF that] by (simp add: strict_sorted_iff)
  then have "(\<Sum>j < m. length (P j)) = (\<Sum>j < m. card (set (P j)))" by (simp add: distinct_card)
  also have "\<dots> = card (\<Union>j < m. set (P j))" using assms(2) by (subst card_UN_disjoint) auto
  finally show ?thesis .
qed

lemma owners:
  fixes m :: nat and P :: "nat \<Rightarrow> nat list"
  assumes "\<And>j. j < m \<Longrightarrow> sorted_wrt (<) (P j) \<and> set (P j) \<subseteq> {a..<b}"
    and "\<And>i j. i < m \<Longrightarrow> j < m \<Longrightarrow> i \<noteq> j \<Longrightarrow> set (P i) \<inter> set (P j) = {}"
    and "b - a \<le> (\<Sum>j < m. length (P j))"
  shows "\<exists>owner. (\<forall>i \<in> {a..<b}. owner i < m) \<and> (\<forall>j < m. filter (\<lambda>i. owner i = j) [a..<b] = P j)"
proof -
  have "(\<Sum>j < m. length (P j)) = card (\<Union>j < m. set (P j))"
    using assms(1,2) by (intro disjoint_lengths) auto
  then have "card {a..<b} \<le> card (\<Union>j < m. set (P j))" using assms(3) by simp
  moreover have "(\<Union>j < m. set (P j)) \<subseteq> {a..<b}" using assms(1) by blast
  ultimately have all: "(\<Union>j < m. set (P j)) = {a..<b}" by (intro card_seteq) auto
  then have "\<forall>i \<in> {a..<b}. \<exists>j < m. i \<in> set (P j)" by blast
  then obtain owner where o: "\<forall>i \<in> {a..<b}. owner i < m \<and> i \<in> set (P (owner i))" by metis
  have "filter (\<lambda>i. owner i = j) [a..<b] = P j" if j: "j < m" for j
  proof (rule strict_sorted_equal)
    show "sorted_wrt (<) (filter (\<lambda>i. owner i = j) [a..<b])" by (simp add: sorted_wrt_filter)
    show "sorted_wrt (<) (P j)" using assms(1) [OF j] by simp
    have own: "owner i = j \<longleftrightarrow> i \<in> set (P j)" if "i \<in> {a..<b}" for i
      using o that assms(2) [OF _ j, of "owner i"] by blast
    show "set (filter (\<lambda>i. owner i = j) [a..<b]) = set (P j)" using assms(1) [OF j] own by fastforce
  qed
  with o show ?thesis by blast
qed

lemma stage_order:
  assumes reach: "server_reach srv w" and run: "runs_to srv w srv' w'"
    and ex: "exchanged srv w srv' w' fds parts" and small: "2 * length (h_commands w') < 4294967296"
  shows "\<exists>order rs. interleaves parts order
    \<and> spec_commands (ex_abs (w_executor w)) (map snd order) = Some (rs, ex_abs (w_executor w'))
    \<and> (\<forall>j < length fds. w_sent w' (fds ! j) = w_sent w (fds ! j) @ sent_to j (map fst order) rs)"
proof -
  have reach': "server_reach srv' w'" by (rule runs_to_reach [OF reach run])
  note since = runs_to_since [OF reach run]
  let ?a = "length (h_commands w)" and ?b = "length (h_commands w')" and ?m = "length fds"
  obtain cs where cs: "h_commands w' = h_commands w @ cs" using since by (auto simp: since_def)
  have ok: "requests_ok w'" "world_ok w" "world_ok w'"
    using server_reach_histories [OF reach] server_reach_histories [OF reach']
    by (simp_all add: histories_ok_def clients_ok_def)
  have e: "distinct fds" "length parts = ?m" "?b = ?a + length (concat parts)"
    using ex by (simp_all add: exchanged_def)
  define P where "P j = filter (\<lambda>i. ?a \<le> i) (h_requests w' (fds ! j))" for j
  have least: "length (parts ! j) \<le> length (P j)" and
    exact: "length (P j) = length (parts ! j) \<Longrightarrow> map (request_at w') (P j) = parts ! j
      \<and> w_sent w' (fds ! j) = w_sent w (fds ! j) @ concat (map (\<lambda>i. frame (res_output (result_at w' i))) (P j))"
    if "j < ?m" for j
  proof -
    have "at_rest srv (fds ! j)" "at_rest srv' (fds ! j)"
      "h_received w' (fds ! j) = h_received w (fds ! j) @ concat (map frame (parts ! j))"
      "\<forall>line \<in> set (parts ! j). length line \<le> MAX_MESSAGE_SIZE"
      using ex that nth_mem [of j parts] by (auto simp: exchanged_def)
    note new = new_requests [OF reach reach' since this, folded P_def]
    show "length (parts ! j) \<le> length (P j)" by (rule new)
    show "length (P j) = length (parts ! j) \<Longrightarrow> map (request_at w') (P j) = parts ! j
      \<and> w_sent w' (fds ! j) = w_sent w (fds ! j) @ concat (map (\<lambda>i. frame (res_output (result_at w' i))) (P j))"
      by (rule new)
  qed
  have sorted: "sorted_wrt (<) (P j) \<and> set (P j) \<subseteq> {?a..<?b}" if "j < ?m" for j
    using ok(1) by (auto simp: requests_ok_def P_def sorted_wrt_filter)
  have disjoint: "set (P i) \<inter> set (P j) = {}" if "i < ?m" "j < ?m" "i \<noteq> j" for i j
  proof -
    have "fds ! i \<noteq> fds ! j" using e(1) that by (simp add: nth_eq_iff_index_eq)
    then have "set (h_requests w' (fds ! i)) \<inter> set (h_requests w' (fds ! j)) = {}"
      using ok(1) by (simp add: requests_ok_def)
    then show ?thesis by (auto simp: P_def)
  qed
  have total: "(\<Sum>j < ?m. length (parts ! j)) = ?b - ?a"
    using e(2,3) by (simp add: length_concat sum_list_sum_nth atLeast0LessThan)
  then have "?b - ?a \<le> (\<Sum>j < ?m. length (P j))" using least by (metis lessThan_iff sum_mono)
  from owners [OF sorted disjoint this] obtain owner where
    o: "\<forall>i \<in> {?a..<?b}. owner i < ?m" "\<And>j. j < ?m \<Longrightarrow> filter (\<lambda>i. owner i = j) [?a..<?b] = P j" by blast
  have "length (P j) = length (parts ! j)" if j: "j < ?m" for j
  proof -
    have "(\<Sum>j < ?m. length (P j)) = card (\<Union>j < ?m. set (P j))"
      using sorted disjoint by (intro disjoint_lengths) auto
    also have "\<dots> \<le> card {?a..<?b}" using sorted by (intro card_mono) blast+
    finally have "(\<Sum>j < ?m. length (P j)) \<le> (\<Sum>j < ?m. length (parts ! j))" using total by simp
    then have "(\<Sum>j < ?m. length (parts ! j)) = (\<Sum>j < ?m. length (P j))"
      using least by (metis (no_types, lifting) le_antisym lessThan_iff sum_mono)
    from sum_mono_inv [OF this] least j show ?thesis by simp
  qed
  note exact = exact [OF _ this]
  define order where "order = map (\<lambda>i. (owner i, request_at w' i)) [?a..<?b]"
  have tail: "map (\<lambda>i. h_commands w' ! i) [?a..<?b] = cs"
    by (rule nth_equalityI) (simp_all add: cs nth_append)
  have "interleaves parts order"
  proof -
    have "map snd (filter (\<lambda>(j, x). j = i) order) = parts ! i" if "i < ?m" for i
      using exact [OF that that] o(2) [OF that]
      by (simp add: order_def filter_map o_def case_prod_unfold)
    then show ?thesis using o(1) e(2) by (auto simp: interleaves_def order_def)
  qed
  moreover have "spec_commands (ex_abs (w_executor w)) (map snd order) = Some (map snd cs, ex_abs (w_executor w'))"
  proof -
    have "map snd order = map fst cs" unfolding tail [symmetric] by (simp add: order_def)
    moreover have "2 * length (h_commands w) < 4294967296" using small cs by simp
    note world_ok_executor(1) [OF ok(2) this] world_ok_executor(1) [OF ok(3) small]
    ultimately show ?thesis using cs by (auto simp: spec_commands_append split: option.splits)
  qed
  moreover have "w_sent w' (fds ! j) = w_sent w (fds ! j) @ sent_to j (map fst order) (map snd cs)" if "j < ?m" for j
  proof -
    have "map snd cs = map (result_at w') [?a..<?b]" unfolding tail [symmetric] by simp
    then have "of_client j (map fst order) (map snd cs) = map (result_at w') (P j)"
      using o(2) [OF that] by (simp add: order_def o_def of_client_map_map)
    then show ?thesis using exact [OF that that] by (simp add: sent_to_def o_def)
  qed
  ultimately show ?thesis by blast
qed

section \<open>A stage of one request\<close>

lemma idle_at_rest: "idle i srv \<Longrightarrow> at_rest srv (cc_fd (m_clients srv ! i))"
  by (auto simp: idle_def at_rest_def)

lemma server_loop_two:
  assumes "server_iteration p1 [] srv (begin_turn t w) = Inr (Some (Continue srv1 w1))"
    and "server_iteration p2 [] srv1 w1 = Inr (Some (Continue srv2 w2))"
    and "tn_polls t = p1" and "tn_accepts t = []"
  shows "server_loop [t, \<lparr>tn_polls = p2, tn_accepts = [], tn_recv = w_recv w1, tn_send = w_send w1\<rparr>] srv w
    = Inr (Some (Continue srv2 w2))"
  using assms by (simp add: begin_turn_def bind_io_def done_io_def)

lemma serve_request_runs:
  assumes "idle i srv" and "serve_request i rx tx srv w = Inr (Some (Continue srv' w'))"
    and first: "server_iteration [Polled (only_client (length (m_clients srv)) i POLLIN)] [] srv
        (with_scripts (cc_fd (m_clients srv ! i)) rx tx w) = Inr (Some (Continue srv1 w1))"
    and "length (m_clients srv1) = length (m_clients srv)" and "has_pending_message (cc_writer (m_clients srv1 ! i))"
  shows "runs_to srv w srv' w'"
proof -
  let ?n = "length (m_clients srv)"
  let ?w0 = "with_scripts (cc_fd (m_clients srv ! i)) rx tx w"
  let ?t = "\<lparr>tn_polls = [Polled (only_client ?n i POLLIN)], tn_accepts = [], tn_recv = w_recv ?w0, tn_send = w_send ?w0\<rparr>"
  let ?u = "\<lparr>tn_polls = [Polled (only_client ?n i POLLOUT)], tn_accepts = [], tn_recv = w_recv w1, tn_send = w_send w1\<rparr>"
  have t: "begin_turn ?t w = ?w0" by (simp add: begin_turn_def with_scripts_def)
  have u: "begin_turn ?u w1 = w1" by (simp add: begin_turn_def)
  have "server_iteration [Polled (only_client ?n i POLLOUT)] [] srv1 w1 = Inr (Some (Continue srv' w'))"
    using assms(2) first by (simp add: serve_request_def Let_def bind_io_def)
  from server_loop_two [OF _ this, of "tn_polls ?t" srv ?t w] first t
  have loop: "server_loop [?t, ?u] srv w = Inr (Some (Continue srv' w'))" by simp
  have "poll_contract (poll_interest srv) (only_client ?n i POLLIN)"
    using assms(1) by (intro poll_contract_only) (simp_all add: idle_def poll_interest_client)
  moreover have "poll_contract (poll_interest srv1) (only_client ?n i POLLOUT)"
    using assms(1,4,5) poll_contract_only [of i srv1 POLLOUT] by (simp add: poll_interest_client idle_def)
  ultimately have "turns_ok [?t, ?u] srv w" using first t u by (simp add: turn_ok_def)
  with loop show ?thesis unfolding runs_to_def by blast
qed

lemma serve_request_exchanged:
  assumes reach: "server_reach srv w" and idle: "all_idle (set is) srv" and dist: "distinct is" and j: "j < length is"
    and rx: "stream rx = (frame msg, s, rest)" and len: "length msg \<le> MAX_MESSAGE_SIZE"
    and run: "run_command (w_executor w) msg = Inr (r, ex)" and go: "\<not> res_stop r"
    and fits: "length (res_output r) \<le> MAX_MESSAGE_SIZE" and tx: "4 + length (res_output r) \<le> accepts tx"
  defines "fds \<equiv> map (\<lambda>i. cc_fd (m_clients srv ! i)) is"
  shows "\<exists>srv' w'. runs_to srv w srv' w' \<and> server_reach srv' w' \<and> all_idle (set is) srv'
    \<and> map (\<lambda>i. cc_fd (m_clients srv' ! i)) is = fds
    \<and> exchanged srv w srv' w' fds ((replicate (length is) [])[j := [msg]])
    \<and> h_commands w' = h_commands w @ [(msg, r)] \<and> w_executor w' = ex"
proof -
  let ?i = "is ! j" and ?fd = "fds ! j"
  have i: "idle ?i srv" "?fd = cc_fd (m_clients srv ! ?i)" using idle j by (simp_all add: fds_def)
  from serve_request_ok [OF reach i(1) rx len run go fits tx] obtain srv' w' srv1 w1 where
    o: "serve_request ?i rx tx srv w = Inr (Some (Continue srv' w'))" "server_reach srv' w'" "idle ?i srv'"
    "cc_fd (m_clients srv' ! ?i) = ?fd" "w_executor w' = ex" "h_commands w' = h_commands w @ [(msg, r)]"
    "length (m_clients srv') = length (m_clients srv)" "\<forall>j. j \<noteq> ?i \<longrightarrow> m_clients srv' ! j = m_clients srv ! j"
    "h_requests w' = (h_requests w)(?fd := h_requests w ?fd @ [length (h_commands w)])"
    "server_iteration [Polled (only_client (length (m_clients srv)) ?i POLLIN)] [] srv
        (with_scripts ?fd rx tx w) = Inr (Some (Continue srv1 w1))" "length (m_clients srv1) = length (m_clients srv)"
    "has_pending_message (cc_writer (m_clients srv1 ! ?i))"
    unfolding i(2) by blast
  have idle': "all_idle (set is) srv'"
    using idle o(3,7,8) by (auto simp: idle_def) metis+
  have fds': "map (\<lambda>i. cc_fd (m_clients srv' ! i)) is = fds"
    using o(4,8) i(2) by (auto simp: fds_def) metis
  have distinct: "distinct fds"
    using dist distinct_fds [OF reach] idle by (auto simp: fds_def distinct_map inj_on_def idle_def)
  have rests: "at_rest srv fd" "at_rest srv' fd" if "fd \<in> set fds" for fd
  proof -
    show "at_rest srv fd" using that idle by (auto simp: fds_def intro: idle_at_rest)
    have "fd \<in> set (map (\<lambda>i. cc_fd (m_clients srv' ! i)) is)" using that fds' by simp
    then show "at_rest srv' fd" using idle' by (auto intro: idle_at_rest)
  qed
  have "h_received w' (fds ! k) = h_received w (fds ! k) @ concat (map frame ((replicate (length is) [])[j := [msg]] ! k))"
    if k: "k < length fds" for k
  proof -
    have "requests_ok w" using server_reach_histories [OF reach] by (simp add: histories_ok_def)
    then have "\<forall>i \<in> set (h_requests w (fds ! k)). i < length (h_commands w)" by (simp add: requests_ok_def)
    then have old: "map (\<lambda>i. frame (request_at w' i)) (h_requests w (fds ! k))
        = map (\<lambda>i. frame (request_at w i)) (h_requests w (fds ! k))" using o(6) by (simp add: nth_append)
    have "length fds = length is" by (simp add: fds_def)
    then have "fds ! k = ?fd \<longleftrightarrow> k = j" using distinct k j by (simp only: nth_eq_iff_index_eq)
    then have new: "h_requests w' (fds ! k) = h_requests w (fds ! k) @ (if k = j then [length (h_commands w)] else [])"
      using o(9) by simp
    have at: "h_received w (fds ! k) = concat (map (\<lambda>i. frame (request_at w i)) (h_requests w (fds ! k)))"
      "h_received w' (fds ! k) = concat (map (\<lambda>i. frame (request_at w' i)) (h_requests w' (fds ! k)))"
      using at_rest_history(1) [OF reach rests(1)] at_rest_history(1) [OF o(2) rests(2)] k
      by (simp_all add: history_ok_def)
    have "request_at w' (length (h_commands w)) = msg" using o(6) by simp
    moreover have "(replicate (length is) [])[j := [msg]] ! k = (if k = j then [msg] else [])"
      using k j by (simp add: fds_def)
    ultimately show ?thesis unfolding at new map_append concat_append old by simp
  qed
  moreover have "length (concat ((replicate (length is) [])[j := [msg]])) = 1"
    using mset_concat_update [of j "replicate (length is) []" "[msg]"] j
    by (simp add: concat_replicate_trivial flip: size_mset)
  moreover have "\<forall>lines \<in> set ((replicate (length is) [])[j := [msg]]). \<forall>line \<in> set lines. length line \<le> MAX_MESSAGE_SIZE"
    using set_update_subset_insert [of "replicate (length is) []" j "[msg]"] len by auto
  ultimately have "exchanged srv w srv' w' fds ((replicate (length is) [])[j := [msg]])"
    using distinct rests o(6) by (simp add: exchanged_def fds_def)
  moreover have "runs_to srv w srv' w'"
    by (rule serve_request_runs [OF i(1) o(1) _ o(11,12)]) (use o(10) i(2) in simp_all)
  ultimately show ?thesis using o(2,5,6) idle' fds' by blast
qed

section \<open>Property\<close>

text \<open>C3: the server is linearizable over every stretch of its run.  Let some connections be at rest at the
  beginning and at the end of a run, of any number of turns of the loop with any events and any pieces of
  input and output in between, and let the server have executed no requests but those that they sent.  Then
  there is one order of these requests, which keeps the order of every connection, such that the server has
  sent each connection exactly the frames of the replies that the abstract map gives to its own requests
  in this order, and the store is the abstract map after them.\<close>

theorem server_stage_linearizable:
  assumes "server_reach srv w" and "runs_to srv w srv' w'" and "exchanged srv w srv' w' fds parts"
    and "2 * length (h_commands w') < 4294967296"
  shows "\<exists>order rs. interleaves parts order
    \<and> spec_commands (ex_abs (w_executor w)) (map snd order) = Some (rs, ex_abs (w_executor w'))
    \<and> (\<forall>j < length fds. w_sent w' (fds ! j) = w_sent w (fds ! j) @ sent_to j (map fst order) rs)"
  using assms by (rule stage_order)

theorem server_stage_linearizable_witness:
  "\<exists>srv w srv' w' fd. runs_to srv w srv' w' \<and> exchanged srv w srv' w' [fd] [[''set a 1'']]
    \<and> w_sent w' fd = frame ''OK'' \<and> ex_abs (w_executor w') = [''a'' \<mapsto> ''1'']"
proof -
  obtain srv w where e: "server_reach srv w" "idle 0 srv" "h_commands w = []"
    "ex_abs (w_executor w) = Map.empty" "w_sent w (cc_fd (m_clients srv ! 0)) = []"
    "length (m_clients srv) = 1"
    by (rule idle_example)
  let ?r = "default_result\<lparr>res_output := ''OK''\<rparr>" and ?fd = "cc_fd (m_clients srv ! 0)"
  have "2 * length (h_commands w) < 4294967296" using e(3) by simp
  note ex = reach_executor [OF e(1) this]
  have "run_ok (w_executor w) (spec_command (ex_abs (w_executor w)) ''set a 1'') (run_command (w_executor w) ''set a 1'')"
    using ex e(3) by (intro run_command_ok) (simp_all add: str_limit_def)
  then obtain ex1 where run: "run_command (w_executor w) ''set a 1'' = Inr (?r, ex1)"
    unfolding e(4) by (auto simp: run_ok_def spec_command_def is_whitespace_def arity_def shrinks_def)
  have "accepts (replicate 100 (Accepted 1)) = 100" using accepts_replicate [of 100] by simp
  then have go: "\<not> res_stop ?r" "length (res_output ?r) \<le> MAX_MESSAGE_SIZE"
    "4 + length (res_output ?r) \<le> accepts (replicate 100 (Accepted 1))"
    by (simp_all add: default_result_def MAX_MESSAGE_SIZE_def)
  have "stream [Received (frame ''set a 1'')] = (frame ''set a 1'', Exhausted, [])" by simp
  from serve_request_exchanged [OF e(1) _ _ _ this _ run go, of "[0]" 0] e(2) obtain srv' w' where
    s: "runs_to srv w srv' w'" "exchanged srv w srv' w' [?fd] [[''set a 1'']]"
    "h_commands w' = h_commands w @ [(''set a 1'', ?r)]"
    by (auto simp: MAX_MESSAGE_SIZE_def)
  have "2 * length (h_commands w') < 4294967296" using s(3) e(3) by simp
  from server_stage_linearizable [OF e(1) s(1,2) this] obtain order rs where
    o: "interleaves [[''set a 1'']] order"
    "spec_commands Map.empty (map snd order) = Some (rs, ex_abs (w_executor w'))"
    "w_sent w' ?fd = sent_to 0 (map fst order) rs"
    using e(4,5) by auto
  have "order = [(0, ''set a 1'')]" using interleaves_single [of 0 "[''set a 1'']" order] o(1) by simp
  then have "rs = [?r]" "ex_abs (w_executor w') = [''a'' \<mapsto> ''1'']" "w_sent w' ?fd = frame ''OK''"
    using o(2,3) by (auto simp: spec_command_def is_whitespace_def arity_def shrinks_def)
  with s(1,2) show ?thesis by blast
qed

end
