(* ===== verification/RedisProtocol.thy ===== *)
theory RedisProtocol
  imports Client Console
begin

text \<open>
  The Redis protocol of the benchmark (benchmark/src/redis_backend.cpp up to the class
  \<open>RedisBackend\<close>, benchmark/include/attokv_benchmark/redis_protocol.h): blocking reads and writes on a
  socket, replies, and the encoding of requests.

  An error is its text; \<open>strerror\<close> stands for the texts of the error numbers.  When \<open>send\<close> takes
  no byte, \<open>errno\<close> is not set by the call; 0 stands for its value.
\<close>

section \<open>Blocking input and output\<close>

definition k_max_reply_size :: nat where
  "k_max_reply_size = 16777215"

definition redis_system_error :: "(int \<Rightarrow> string) \<Rightarrow> int \<Rightarrow> string \<Rightarrow> string" where
  "redis_system_error strerror errno context = context @ '': '' @ strerror errno"

definition redis_write_all ::
  "(int \<Rightarrow> string) \<Rightarrow> string \<Rightarrow> send_event list \<Rightarrow> string
    \<Rightarrow> ((string + unit) \<times> send_event list \<times> string) option" where
  "redis_write_all strerror input es out =
     (case send_loop input 0 es out of
        None \<Rightarrow> None
      | Some (ending, sent, es', out') \<Rightarrow>
          Some (case ending of
              Filled \<Rightarrow> (Inr (), es', out')
            | No_Bytes \<Rightarrow> (Inl (redis_system_error strerror 0 ''Failed to write Redis request''), es', out')
            | Io_Failed errno \<Rightarrow>
                (Inl (redis_system_error strerror errno ''Failed to write Redis request''), es', out')))"

text \<open>\<open>n\<close> bytes into a zeroed buffer, which the callers only use when all have been read.\<close>

definition redis_read_exact ::
  "(int \<Rightarrow> string) \<Rightarrow> nat \<Rightarrow> recv_event list \<Rightarrow> ((string + string) \<times> recv_event list) option" where
  "redis_read_exact strerror n es =
     (case recv_loop (replicate n nul) 0 es of
        None \<Rightarrow> None
      | Some (ending, buf, got, es') \<Rightarrow>
          Some (case ending of
              Filled \<Rightarrow> (Inr buf, es')
            | No_Bytes \<Rightarrow> (Inl ''Redis closed the connection'', es')
            | Io_Failed errno \<Rightarrow>
                (Inl (redis_system_error strerror errno ''Failed to read Redis response''), es')))"

section \<open>Replies\<close>

definition CR :: char where "CR = CHR 0x0D"

abbreviation crlf :: string where "crlf \<equiv> [CR, LF]"

text \<open>The loop of \<open>read_line\<close> with the line so far.\<close>

function read_line ::
  "(int \<Rightarrow> string) \<Rightarrow> string \<Rightarrow> recv_event list \<Rightarrow> ((string + string) \<times> recv_event list) option" where
  "read_line strerror line es =
     (if length line \<le> k_max_reply_size then
        case redis_read_exact strerror 1 es of
          None \<Rightarrow> None
        | Some (Inl e, es1) \<Rightarrow> Some (Inl e, es1)
        | Some (Inr byte, es1) \<Rightarrow>
            if hd byte = CR then
              (case redis_read_exact strerror 1 es1 of
                 None \<Rightarrow> None
               | Some (Inl e, es2) \<Rightarrow> Some (Inl e, es2)
               | Some (Inr newline, es2) \<Rightarrow>
                   Some (if hd newline \<noteq> LF then Inl ''Malformed Redis line ending'' else Inr line, es2))
            else read_line strerror (line @ [hd byte]) es1
      else Some (Inl ''Redis response line is too large'', es))"
  by pat_completeness auto
termination
  by (relation "measure (\<lambda>(_, line, _). Suc k_max_reply_size - length line)") auto

declare read_line.simps [simp del]

definition parse_integer :: "string \<Rightarrow> string + int" where
  "parse_integer input =
     (let (ec, ptr, number) = from_chars (- (2 ^ 63)) (2 ^ 63 - 1) input 0
      in if ec \<noteq> No_Error \<or> ptr \<noteq> length input then Inl (''Invalid Redis integer: '' @ input)
         else Inr number)"

datatype reply_type = String_Reply | Bulk_Reply | Nil_Reply | Integer_Reply

record redis_reply =
  rp_type :: reply_type
  rp_text :: string
  rp_integer :: int

definition read_bulk ::
  "(int \<Rightarrow> string) \<Rightarrow> nat \<Rightarrow> recv_event list \<Rightarrow> ((string + redis_reply) \<times> recv_event list) option" where
  "read_bulk strerror n es =
     (case redis_read_exact strerror n es of
        None \<Rightarrow> None
      | Some (Inl e, es1) \<Rightarrow> Some (Inl e, es1)
      | Some (Inr payload, es1) \<Rightarrow>
          (case redis_read_exact strerror 2 es1 of
             None \<Rightarrow> None
           | Some (Inl e, es2) \<Rightarrow> Some (Inl e, es2)
           | Some (Inr ending, es2) \<Rightarrow>
               Some (if ending ! 0 \<noteq> CR \<or> ending ! 1 \<noteq> LF then Inl ''Malformed Redis bulk string ending''
                     else Inr \<lparr>rp_type = Bulk_Reply, rp_text = payload, rp_integer = 0\<rparr>, es2)))"

text \<open>What follows the first line, by its first byte.\<close>

definition finish_reply ::
  "(int \<Rightarrow> string) \<Rightarrow> char \<Rightarrow> string \<Rightarrow> recv_event list
    \<Rightarrow> ((string + redis_reply) \<times> recv_event list) option" where
  "finish_reply strerror prefix line es =
     (if prefix = CHR ''-'' then Some (Inl (''Redis error: '' @ line), es)
      else if prefix = CHR ''+'' then
        Some (Inr \<lparr>rp_type = String_Reply, rp_text = line, rp_integer = 0\<rparr>, es)
      else if prefix = CHR '':'' then
        Some (case parse_integer line of
            Inl e \<Rightarrow> Inl e
          | Inr number \<Rightarrow> Inr \<lparr>rp_type = Integer_Reply, rp_text = [], rp_integer = number\<rparr>, es)
      else if prefix \<noteq> CHR ''$'' then Some (Inl (''Unsupported Redis reply type: '' @ [prefix]), es)
      else (case parse_integer line of
          Inl e \<Rightarrow> Some (Inl e, es)
        | Inr n \<Rightarrow>
            if n = -1 then Some (Inr \<lparr>rp_type = Nil_Reply, rp_text = [], rp_integer = 0\<rparr>, es)
            else if n < 0 \<or> int k_max_reply_size < n then Some (Inl ''Invalid Redis bulk string size'', es)
            else read_bulk strerror (nat n) es))"

definition read_reply ::
  "(int \<Rightarrow> string) \<Rightarrow> recv_event list \<Rightarrow> ((string + redis_reply) \<times> recv_event list) option" where
  "read_reply strerror es =
     (case redis_read_exact strerror 1 es of
        None \<Rightarrow> None
      | Some (Inl e, es1) \<Rightarrow> Some (Inl e, es1)
      | Some (Inr prefix, es1) \<Rightarrow>
          (case read_line strerror [] es1 of
             None \<Rightarrow> None
           | Some (Inl e, es2) \<Rightarrow> Some (Inl e, es2)
           | Some (Inr line, es2) \<Rightarrow> finish_reply strerror (hd prefix) line es2))"

section \<open>Requests\<close>

definition encode_request :: "string list \<Rightarrow> string" where
  "encode_request arguments =
     foldl (\<lambda>out argument. out @ CHR ''$'' # digits (length argument) @ crlf @ argument @ crlf)
       (CHR ''*'' # digits (length arguments) @ crlf) arguments"

section \<open>Lemmas\<close>

lemma CR_LF [simp]: "CR \<noteq> LF" "\<not> is_digit CR" "CR \<noteq> CHR ''-''"
  by (simp_all add: CR_def LF_def is_digit_def)

lemma recv_zeros:
  assumes "stream es = (bs @ bs', s, rest)"
  shows "\<exists>es'. recv_loop (replicate (length bs) nul) 0 es = Some (Filled, bs, length bs, es')
    \<and> stream es' = (bs', s, rest)"
  using recv_loop_stream [OF _ assms, of 0 "replicate (length bs) nul"] by simp

lemma redis_read_exact_stream:
  assumes "stream es = (bs @ bs', s, rest)" and "length bs = n"
  shows "\<exists>es'. redis_read_exact strerror n es = Some (Inr bs, es') \<and> stream es' = (bs', s, rest)"
  using recv_zeros [OF assms(1)] assms(2) by (auto simp: redis_read_exact_def)

lemma redis_read_byte:
  assumes "stream es = (b # bs', s, rest)"
  shows "\<exists>es'. redis_read_exact strerror 1 es = Some (Inr [b], es') \<and> stream es' = (bs', s, rest)"
  using redis_read_exact_stream [of es "[b]" bs' s rest 1] assms by simp

lemma read_line_stream:
  assumes "stream es = (str @ CR # LF # bs', s, rest)" and "CR \<notin> set str"
    and "length line + length str \<le> k_max_reply_size"
  shows "\<exists>es'. read_line strerror line es = Some (Inr (line @ str), es') \<and> stream es' = (bs', s, rest)"
  using assms
proof (induction str arbitrary: line es)
  case Nil
  from redis_read_byte [of es CR "LF # bs'" s rest strerror] Nil.prems(1) obtain es1 where
    "redis_read_exact strerror 1 es = Some (Inr [CR], es1)" "stream es1 = (LF # bs', s, rest)" by auto
  moreover from redis_read_byte [OF this(2), of strerror] obtain es2 where
    "redis_read_exact strerror 1 es1 = Some (Inr [LF], es2)" "stream es2 = (bs', s, rest)" by blast
  ultimately show ?case using Nil.prems(3) by (simp add: read_line.simps [of strerror line es])
next
  case (Cons c str)
  from redis_read_byte [of es c "str @ CR # LF # bs'" s rest strerror] Cons.prems(1) obtain es1 where
    r: "redis_read_exact strerror 1 es = Some (Inr [c], es1)"
    "stream es1 = (str @ CR # LF # bs', s, rest)" by auto
  from Cons.IH [OF r(2), of "line @ [c]"] Cons.prems(2,3) r(1) show ?case
    by (auto simp: read_line.simps [of strerror line es])
qed

lemma parse_integer_whole:
  "parse_integer s = (let (ok, n) = parse_whole (- (2 ^ 63)) (2 ^ 63 - 1) s 0
     in if ok then Inr n else Inl (''Invalid Redis integer: '' @ s))"
  by (auto simp: parse_integer_def parse_whole_def Let_def split: prod.splits)

lemma parse_integer_text:
  assumes "- (2 ^ 63) \<le> n" and "n < 2 ^ 63"
  shows "parse_integer (int_text n) = Inr n"
proof (cases "n < 0")
  case True
  have "parse_whole (- (2 ^ 63)) (2 ^ 63 - 1) (CHR ''-'' # digits (nat (- n))) 0 = (True, n)"
    using parse_whole_negative [of "- (2 ^ 63)" "2 ^ 63 - 1" "digits (nat (- n))" 0] True assms
      digits_nonempty digits_are_digits by (simp add: prod_eq_iff)
  then show ?thesis using True by (simp add: parse_integer_whole int_text_def)
next
  case False
  then show ?thesis using parse_whole_digits [of "- (2 ^ 63)" "nat n" "2 ^ 63 - 1" 0] assms
    by (simp add: parse_integer_whole int_text_def)
qed

lemma int_text_no_CR: "CR \<notin> set (int_text n)"
  using digits_are_digits [of CR] by (auto simp: int_text_def)

lemma length_digits: "n < 10 ^ Suc k \<Longrightarrow> length (digits n) \<le> Suc k"
proof (induction k arbitrary: n)
  case 0
  then show ?case by (simp add: digits.simps [of n])
next
  case (Suc k)
  show ?case
  proof (cases "n < 10")
    case True
    then show ?thesis by (simp add: digits.simps [of n])
  next
    case False
    have "n div 10 < 10 ^ Suc k" using Suc.prems by (simp add: less_mult_imp_div_less)
    then show ?thesis using Suc.IH False by (simp add: digits.simps [of n])
  qed
qed

lemma length_int_text:
  assumes "- (2 ^ 63) \<le> n" and "n < 2 ^ 63"
  shows "length (int_text n) \<le> k_max_reply_size"
proof -
  have "nat (- n) < 10 ^ Suc 19" "nat n < 10 ^ Suc 19" using assms by simp_all
  from this [THEN length_digits] show ?thesis by (simp add: int_text_def k_max_reply_size_def)
qed

section \<open>What the protocol says\<close>

text \<open>The replies of the protocol, as bytes, and what \<open>read_reply\<close> should make of them.\<close>

datatype redis_value = Status string | Failure string | Number int | Bulk string | Nil_Value

fun resp :: "redis_value \<Rightarrow> string" where
  "resp (Status str) = CHR ''+'' # str @ crlf"
| "resp (Failure str) = CHR ''-'' # str @ crlf"
| "resp (Number n) = CHR '':'' # int_text n @ crlf"
| "resp (Bulk str) = CHR ''$'' # int_text (int (length str)) @ crlf @ str @ crlf"
| "resp Nil_Value = CHR ''$'' # int_text (-1) @ crlf"

fun value_ok :: "redis_value \<Rightarrow> bool" where
  "value_ok (Status str) \<longleftrightarrow> CR \<notin> set str \<and> length str \<le> k_max_reply_size"
| "value_ok (Failure str) \<longleftrightarrow> CR \<notin> set str \<and> length str \<le> k_max_reply_size"
| "value_ok (Number n) \<longleftrightarrow> - (2 ^ 63) \<le> n \<and> n < 2 ^ 63"
| "value_ok (Bulk str) \<longleftrightarrow> length str \<le> k_max_reply_size"
| "value_ok Nil_Value \<longleftrightarrow> True"

fun value_result :: "redis_value \<Rightarrow> string + redis_reply" where
  "value_result (Status str) = Inr \<lparr>rp_type = String_Reply, rp_text = str, rp_integer = 0\<rparr>"
| "value_result (Failure str) = Inl (''Redis error: '' @ str)"
| "value_result (Number n) = Inr \<lparr>rp_type = Integer_Reply, rp_text = [], rp_integer = n\<rparr>"
| "value_result (Bulk str) = Inr \<lparr>rp_type = Bulk_Reply, rp_text = str, rp_integer = 0\<rparr>"
| "value_result Nil_Value = Inr \<lparr>rp_type = Nil_Reply, rp_text = [], rp_integer = 0\<rparr>"

lemma read_bulk_stream:
  assumes "stream es = (str @ crlf @ bs', s, rest)"
  shows "\<exists>es'. read_bulk strerror (length str) es
      = Some (Inr \<lparr>rp_type = Bulk_Reply, rp_text = str, rp_integer = 0\<rparr>, es') \<and> stream es' = (bs', s, rest)"
proof -
  from redis_read_exact_stream [OF assms refl, of strerror] obtain es1 where
    1: "redis_read_exact strerror (length str) es = Some (Inr str, es1)" "stream es1 = (crlf @ bs', s, rest)"
    by blast
  from redis_read_exact_stream [OF 1(2), of 2 strerror] obtain es2 where
    "redis_read_exact strerror 2 es1 = Some (Inr crlf, es2)" "stream es2 = (bs', s, rest)" by auto
  with 1 show ?thesis by (simp add: read_bulk_def)
qed

text \<open>The first byte and the line, whatever the reply is.\<close>

lemma read_reply_line:
  assumes "stream es = (c # line @ crlf @ bs', s, rest)" and "CR \<notin> set line"
    and "length line \<le> k_max_reply_size"
  shows "\<exists>es'. read_reply strerror es = finish_reply strerror c line es' \<and> stream es' = (bs', s, rest)"
proof -
  from redis_read_byte [OF assms(1), of strerror] obtain es1 where
    1: "redis_read_exact strerror 1 es = Some (Inr [c], es1)"
    "stream es1 = (line @ CR # LF # bs', s, rest)" by auto
  from read_line_stream [OF 1(2) assms(2), of "[]" strerror] assms(3) obtain es2 where
    "read_line strerror [] es1 = Some (Inr line, es2)" "stream es2 = (bs', s, rest)" by auto
  moreover from this(1) 1(1) have "read_reply strerror es = finish_reply strerror c line es2"
    by (simp add: read_reply_def)
  ultimately show ?thesis by blast
qed

lemma read_reply_number:
  assumes "stream es = (c # int_text n @ crlf @ bs', s, rest)" and "- (2 ^ 63) \<le> n" and "n < 2 ^ 63"
  shows "\<exists>es'. read_reply strerror es = finish_reply strerror c (int_text n) es' \<and> stream es' = (bs', s, rest)"
  by (rule read_reply_line [OF assms(1) int_text_no_CR length_int_text [OF assms(2,3)]])

lemma read_reply_stream:
  assumes "stream es = (resp v @ bs', s, rest)" and "value_ok v"
  shows "\<exists>es'. read_reply strerror es = Some (value_result v, es') \<and> stream es' = (bs', s, rest)"
proof (cases v)
  case (Status str)
  then show ?thesis using assms read_reply_line [of es "CHR ''+''" str bs' s rest strerror]
    by (auto simp: finish_reply_def)
next
  case (Failure str)
  then show ?thesis using assms read_reply_line [of es "CHR ''-''" str bs' s rest strerror]
    by (auto simp: finish_reply_def)
next
  case (Number n)
  then show ?thesis
    using assms read_reply_number [of es "CHR '':''" n bs' s rest strerror] parse_integer_text [of n]
    by (auto simp: finish_reply_def)
next
  case (Bulk str)
  then have st: "stream es = (CHR ''$'' # int_text (int (length str)) @ crlf @ (str @ crlf @ bs'), s, rest)"
    and len: "length str \<le> k_max_reply_size" using assms by simp_all
  have n: "- (2 ^ 63) \<le> int (length str)" "int (length str) < 2 ^ 63"
    using len by (simp_all add: k_max_reply_size_def)
  from read_reply_number [OF st n, of strerror] obtain es1 where
    r: "read_reply strerror es = finish_reply strerror (CHR ''$'') (int_text (int (length str))) es1"
    "stream es1 = (str @ crlf @ bs', s, rest)" by blast
  from read_bulk_stream [OF r(2), of strerror] r(1) parse_integer_text [OF n] len Bulk show ?thesis
    by (auto simp: finish_reply_def)
next
  case Nil_Value
  then show ?thesis
    using assms read_reply_number [of es "CHR ''$''" "-1" bs' s rest strerror] parse_integer_text [of "-1"]
    by (auto simp: finish_reply_def)
qed

text \<open>A peer that closes the connection within a reply.\<close>

lemma redis_read_exact_closed:
  assumes "stream es = (bs, Stops No_Bytes, rest)" and "length bs < n"
  shows "redis_read_exact strerror n es = Some (Inl ''Redis closed the connection'', rest)"
  using recv_loop_stream [OF _ assms(1), of 0 "replicate n nul"] assms(2) by (simp add: redis_read_exact_def)

lemma read_line_closed:
  assumes "stream es = (bs, Stops No_Bytes, rest)" and "bs @ qs = str @ crlf" and "qs \<noteq> []"
    and "CR \<notin> set str" and "length line + length str \<le> k_max_reply_size"
  shows "\<exists>es'. read_line strerror line es = Some (Inl ''Redis closed the connection'', es')"
  using assms
proof (induction str arbitrary: line es bs)
  case Nil
  then consider "bs = []" | "bs = [CR]" by (auto simp: append_eq_Cons_conv)
  then show ?case
  proof cases
    case 1
    then show ?thesis using redis_read_exact_closed [of es "[]" rest 1 strerror] Nil.prems
      by (simp add: read_line.simps [of strerror line es])
  next
    case 2
    with redis_read_byte [of es CR "[]" "Stops No_Bytes" rest strerror] Nil.prems(1) obtain es1 where
      "redis_read_exact strerror 1 es = Some (Inr [CR], es1)" "stream es1 = ([], Stops No_Bytes, rest)" by auto
    with redis_read_exact_closed [of es1 "[]" rest 1 strerror] Nil.prems(5) show ?thesis
      by (simp add: read_line.simps [of strerror line es])
  qed
next
  case (Cons c str)
  show ?case
  proof (cases bs)
    case Nil
    then show ?thesis using redis_read_exact_closed [of es "[]" rest 1 strerror] Cons.prems
      by (simp add: read_line.simps [of strerror line es])
  next
    case (Cons b bs1)
    then have b: "bs = c # bs1" "bs1 @ qs = str @ crlf" using Cons.prems(2) by simp_all
    with redis_read_byte [of es c bs1 "Stops No_Bytes" rest strerror] Cons.prems(1) obtain es1 where
      r: "redis_read_exact strerror 1 es = Some (Inr [c], es1)" "stream es1 = (bs1, Stops No_Bytes, rest)" by auto
    from Cons.IH [OF r(2) b(2), of "line @ [c]"] Cons.prems(3-5) r(1) show ?thesis
      by (auto simp: read_line.simps [of strerror line es])
  qed
qed

lemma read_bulk_closed:
  assumes "stream es = (bs, Stops No_Bytes, rest)" and "bs @ qs = str @ crlf" and "qs \<noteq> []"
  shows "\<exists>es'. read_bulk strerror (length str) es = Some (Inl ''Redis closed the connection'', es')"
proof (cases "length bs < length str")
  case True
  then show ?thesis using redis_read_exact_closed [OF assms(1)] by (simp add: read_bulk_def)
next
  case False
  define bs1 where "bs1 = drop (length str) bs"
  have "take (length str) (bs @ qs) = str" using assms(2) by simp
  then have "take (length str) bs = str" using False by simp
  then have bs: "bs = str @ bs1" unfolding bs1_def by (metis append_take_drop_id)
  then have "bs1 @ qs = crlf" using assms(2) by simp
  then have len: "length bs1 < 2" using assms(3) by (cases bs1; cases qs) (auto simp: append_eq_Cons_conv)
  from redis_read_exact_stream [of es str bs1 "Stops No_Bytes" rest "length str" strerror] assms(1) bs
  obtain es1 where r: "redis_read_exact strerror (length str) es = Some (Inr str, es1)"
    "stream es1 = (bs1, Stops No_Bytes, rest)" by auto
  from redis_read_exact_closed [OF r(2) len] r(1) show ?thesis by (simp add: read_bulk_def)
qed

text \<open>The first line of a reply and what follows it.\<close>

fun resp_prefix :: "redis_value \<Rightarrow> char" where
  "resp_prefix (Status _) = CHR ''+''"
| "resp_prefix (Failure _) = CHR ''-''"
| "resp_prefix (Number _) = CHR '':''"
| "resp_prefix _ = CHR ''$''"

fun resp_line :: "redis_value \<Rightarrow> string" where
  "resp_line (Status str) = str"
| "resp_line (Failure str) = str"
| "resp_line (Number n) = int_text n"
| "resp_line (Bulk str) = int_text (int (length str))"
| "resp_line Nil_Value = int_text (-1)"

fun resp_rest :: "redis_value \<Rightarrow> string" where
  "resp_rest (Bulk str) = str @ crlf"
| "resp_rest _ = []"

lemma resp_parts: "resp v = resp_prefix v # resp_line v @ crlf @ resp_rest v"
  by (cases v) simp_all

lemma resp_line_ok: "value_ok v \<Longrightarrow> CR \<notin> set (resp_line v) \<and> length (resp_line v) \<le> k_max_reply_size"
proof (cases v)
  case (Bulk str)
  assume "value_ok v"
  then have "int (length str) < 2 ^ 63" using Bulk by (simp add: k_max_reply_size_def)
  with length_int_text [of "int (length str)"] int_text_no_CR Bulk show ?thesis by simp
qed (use int_text_no_CR length_int_text [of "-1"] length_int_text in simp_all)

lemma read_reply_closed:
  assumes "stream es = (bs, Stops No_Bytes, rest)" and "bs @ qs = resp v" and "qs \<noteq> []" and "value_ok v"
  shows "\<exists>es'. read_reply strerror es = Some (Inl ''Redis closed the connection'', es')"
proof (cases bs)
  case Nil
  then show ?thesis using redis_read_exact_closed [of es "[]" rest 1 strerror] assms(1)
    by (simp add: read_reply_def)
next
  case (Cons b bs1)
  note line = resp_line_ok [OF assms(4)]
  have b: "bs = resp_prefix v # bs1" "bs1 @ qs = resp_line v @ crlf @ resp_rest v"
    using Cons assms(2) by (simp_all add: resp_parts)
  show ?thesis
  proof (cases "length bs1 < length (resp_line v @ crlf)")
    case True
    from redis_read_byte [of es "resp_prefix v" bs1 "Stops No_Bytes" rest strerror] assms(1) b(1) obtain es1 where
      r: "redis_read_exact strerror 1 es = Some (Inr [resp_prefix v], es1)"
      "stream es1 = (bs1, Stops No_Bytes, rest)" by auto
    define ms where "ms = drop (length bs1) (resp_line v @ crlf)"
    have "bs1 = take (length bs1) ((resp_line v @ crlf) @ resp_rest v)"
      using b(2) by (metis append_eq_conv_conj append_assoc)
    also have "\<dots> = take (length bs1) (resp_line v @ crlf)" using True by (intro take_append_add) simp
    finally have "bs1 @ ms = resp_line v @ crlf" unfolding ms_def by (metis append_take_drop_id)
    moreover have "ms \<noteq> []" using True by (simp only: ms_def drop_eq_Nil not_le)
    ultimately obtain es2 where "read_line strerror [] es1 = Some (Inl ''Redis closed the connection'', es2)"
      using read_line_closed [OF r(2), of ms "resp_line v" "[]" strerror] line by auto
    with r(1) show ?thesis by (simp add: read_reply_def)
  next
    case False
    define ms where "ms = drop (length (resp_line v @ crlf)) bs1"
    have "take (length (resp_line v @ crlf)) (bs1 @ qs) = resp_line v @ crlf" using b(2) by simp
    then have "take (length (resp_line v @ crlf)) bs1 = resp_line v @ crlf" using False by simp
    then have ms: "bs1 = (resp_line v @ crlf) @ ms" unfolding ms_def by (metis append_take_drop_id)
    then have ms': "ms @ qs = resp_rest v" using b(2) by simp
    then obtain str where v: "v = Bulk str" using assms(3) by (cases v) simp_all
    from read_reply_line [of es "resp_prefix v" "resp_line v" ms "Stops No_Bytes" rest strerror] assms(1) b(1) ms line
    obtain es1 where r: "read_reply strerror es = finish_reply strerror (resp_prefix v) (resp_line v) es1"
      "stream es1 = (ms, Stops No_Bytes, rest)" by auto
    have "parse_integer (int_text (int (length str))) = Inr (int (length str))"
      using assms(4) v by (intro parse_integer_text) (simp_all add: k_max_reply_size_def)
    then have "read_reply strerror es = read_bulk strerror (length str) es1"
      using r(1) v assms(4) by (simp add: finish_reply_def)
    with read_bulk_closed [OF r(2), of qs str strerror] ms' v assms(3) show ?thesis by simp
  qed
qed

text \<open>A reader of requests: the array of bulk strings that the protocol prescribes.\<close>

fun take_line :: "string \<Rightarrow> (string \<times> string) option" where
  "take_line (a # b # bs) =
     (if a = CR \<and> b = LF then Some ([], bs) else map_option (\<lambda>(l, r). (a # l, r)) (take_line (b # bs)))"
| "take_line _ = None"

definition take_number :: "char \<Rightarrow> string \<Rightarrow> (nat \<times> string) option" where
  "take_number prefix bs =
     (case bs of
        c # bs1 \<Rightarrow>
          if c \<noteq> prefix then None
          else (case take_line bs1 of
              Some (line, bs2) \<Rightarrow> (case parse_integer line of Inr n \<Rightarrow> Some (nat n, bs2) | _ \<Rightarrow> None)
            | None \<Rightarrow> None)
      | [] \<Rightarrow> None)"

fun decode_arguments :: "nat \<Rightarrow> string \<Rightarrow> (string list \<times> string) option" where
  "decode_arguments 0 bs = Some ([], bs)"
| "decode_arguments (Suc n) bs =
     (case take_number (CHR ''$'') bs of
        None \<Rightarrow> None
      | Some (len, bs1) \<Rightarrow>
          if take 2 (drop len bs1) \<noteq> crlf then None
          else map_option (\<lambda>(as, r). (take len bs1 # as, r)) (decode_arguments n (drop (len + 2) bs1)))"

definition decode_request :: "string \<Rightarrow> (string list \<times> string) option" where
  "decode_request bs =
     (case take_number (CHR ''*'') bs of None \<Rightarrow> None | Some (n, bs1) \<Rightarrow> decode_arguments n bs1)"

definition encode_argument :: "string \<Rightarrow> string" where
  "encode_argument argument = CHR ''$'' # digits (length argument) @ crlf @ argument @ crlf"

lemma encode_request_eq:
  "encode_request arguments
    = CHR ''*'' # digits (length arguments) @ crlf @ concat (map encode_argument arguments)"
proof -
  have "foldl (\<lambda>out argument. out @ CHR ''$'' # digits (length argument) @ crlf @ argument @ crlf) out as
      = out @ concat (map encode_argument as)" for out as
    by (induction as arbitrary: out) (simp_all add: encode_argument_def)
  then show ?thesis by (simp add: encode_request_def)
qed

lemma take_line_digits: "\<forall>c \<in> set l. is_digit c \<Longrightarrow> take_line (l @ crlf @ bs) = Some (l, bs)"
proof (induction l)
  case Nil
  then show ?case by simp
next
  case (Cons c l)
  then have "c \<noteq> CR" by auto
  then show ?case using Cons by (cases l) simp_all
qed

lemma take_number_digits:
  assumes "n < 2 ^ 63"
  shows "take_number c (c # digits n @ crlf @ bs) = Some (n, bs)"
proof -
  have "parse_integer (digits n) = Inr (int n)"
    using parse_integer_text [of "int n"] assms by (simp add: int_text_def)
  moreover have "take_line (digits n @ crlf @ bs) = Some (digits n, bs)"
    using digits_are_digits by (intro take_line_digits) blast
  ultimately show ?thesis by (simp add: take_number_def)
qed

lemma decode_arguments_encode:
  assumes "\<forall>a \<in> set as. length a < 2 ^ 63"
  shows "decode_arguments (length as) (concat (map encode_argument as) @ bs) = Some (as, bs)"
  using assms
proof (induction as)
  case Nil
  then show ?case by simp
next
  case (Cons a as)
  have "take_number (CHR ''$'') (concat (map encode_argument (a # as)) @ bs)
      = Some (length a, a @ crlf @ concat (map encode_argument as) @ bs)"
    using take_number_digits [of "length a" "CHR ''$''" "a @ crlf @ concat (map encode_argument as) @ bs"]
      Cons.prems by (simp add: encode_argument_def)
  then show ?case using Cons by simp
qed

lemma decode_encode:
  assumes "length as < 2 ^ 63" and "\<forall>a \<in> set as. length a < 2 ^ 63"
  shows "decode_request (encode_request as @ bs) = Some (as, bs)"
  using take_number_digits [OF assms(1), of "CHR ''*''" "concat (map encode_argument as) @ bs"]
    decode_arguments_encode [OF assms(2), of bs]
  by (simp add: decode_request_def encode_request_eq)

section \<open>Properties\<close>

text \<open>C29: every reply of the Redis protocol within the limits is read as what it says, however its
  bytes are cut up and interrupted, and the bytes behind it are left for the next reply; a reply that
  is cut short by the end of the connection is never taken for a reply.\<close>

theorem redis_reply_roundtrip:
  assumes "value_ok v"
  shows "(stream es = (resp v @ bs', s, rest) \<longrightarrow>
      (\<exists>es'. read_reply strerror es = Some (value_result v, es') \<and> stream es' = (bs', s, rest)))
    \<and> (stream es = (bs, Stops No_Bytes, rest) \<and> bs @ qs = resp v \<and> qs \<noteq> [] \<longrightarrow>
      (\<exists>es'. read_reply strerror es = Some (Inl ''Redis closed the connection'', es')))"
  using read_reply_stream [OF _ assms] read_reply_closed [OF _ _ _ assms] by blast

theorem redis_reply_roundtrip_witness:
  "(\<exists>es'. read_reply (\<lambda>_. []) [Received ''$2'', Recv_Failed EINTR, Received (crlf @ ''h''), Received (''i'' @ crlf)]
      = Some (Inr \<lparr>rp_type = Bulk_Reply, rp_text = ''hi'', rp_integer = 0\<rparr>, es'))
   \<and> (\<exists>es'. read_reply (\<lambda>_. []) [Received (''$2'' @ crlf @ ''h''), Received []]
      = Some (Inl ''Redis closed the connection'', es'))"
proof -
  have ok: "value_ok (Bulk ''hi'')" by (simp add: k_max_reply_size_def)
  have d: "digits 2 = ''2''" by code_simp
  have st: "stream [Received ''$2'', Recv_Failed EINTR, Received (crlf @ ''h''), Received (''i'' @ crlf)]
      = (resp (Bulk ''hi'') @ [], Exhausted, [])" by (simp add: int_text_def d)
  have cut: "stream [Received (''$2'' @ crlf @ ''h''), Received []] = (''$2'' @ crlf @ ''h'', Stops No_Bytes, [])"
    "(''$2'' @ crlf @ ''h'') @ (''i'' @ crlf) = resp (Bulk ''hi'')" by (simp_all add: int_text_def d)
  show ?thesis
    using redis_reply_roundtrip [OF ok, THEN conjunct1, THEN mp, OF st]
      redis_reply_roundtrip [OF ok, THEN conjunct2, THEN mp, OF conjI [OF cut(1) conjI [OF cut(2)]]]
    unfolding value_result.simps by blast
qed

text \<open>A request is encoded so that a reader of the protocol gets back exactly its arguments,
  whatever bytes they hold, and the bytes that follow the request.\<close>

theorem redis_request_roundtrip:
  assumes "length as < 2 ^ 63" and "\<forall>a \<in> set as. length a < 2 ^ 63"
  shows "decode_request (encode_request as @ bs) = Some (as, bs)"
  using assms by (rule decode_encode)

theorem redis_request_roundtrip_witness:
  "decode_request (encode_request [''SET'', ''a b'' @ crlf, []] @ ''+'') = Some ([''SET'', ''a b'' @ crlf, []], ''+'')"
  using redis_request_roundtrip [of "[''SET'', ''a b'' @ crlf, []]" "''+''"] by simp

end
