(* ===== verification/Backends.thy ===== *)
theory Backends
  imports RedisProtocol Executor
begin

text \<open>
  The two backends of the benchmark (benchmark/src/attokv_backend.cpp, the class \<open>RedisBackend\<close> in
  benchmark/src/redis_backend.cpp, benchmark/include/attokv_benchmark/backend.h).  The abstract class
  \<open>Backend\<close> is a record of its operations over the state of a connection; the last one is the destructor,
  and the descriptors that it leaves.
\<close>

section \<open>Operations that can fail\<close>

text \<open>\<open>std::expected<'a, std::string>\<close> with the changed state; \<open>None\<close> when a call does not return.\<close>

type_synonym ('s, 'a) io = "'s \<Rightarrow> ((string + 'a) \<times> 's) option"

definition io_map :: "(string + 'a \<Rightarrow> string + 'b) \<Rightarrow> ('s, 'a) io \<Rightarrow> ('s, 'b) io" where
  "io_map f m s = map_option (\<lambda>(r, s'). (f r, s')) (m s)"

definition io_bind :: "('s, 'a) io \<Rightarrow> ('a \<Rightarrow> ('s, 'b) io) \<Rightarrow> ('s, 'b) io" where
  "io_bind m f s =
     (case m s of
        None \<Rightarrow> None
      | Some (Inl e, s') \<Rightarrow> Some (Inl e, s')
      | Some (Inr a, s') \<Rightarrow> f a s')"

record 's backend =
  be_connect :: "connect_calls \<Rightarrow> string \<Rightarrow> int \<Rightarrow> ('s, unit) io"
  be_ping :: "('s, unit) io"
  be_flush :: "('s, unit) io"
  be_set :: "string \<Rightarrow> string \<Rightarrow> ('s, unit) io"
  be_get :: "string \<Rightarrow> ('s, string option) io"
  be_remove :: "string \<Rightarrow> ('s, bool) io"
  be_destroy :: "'s \<Rightarrow> os"

text \<open>A connection: the object that holds the socket, the bytes of both directions, and those of the
  descriptors of the process that the object has opened.\<close>

record 'c session =
  se_object :: 'c
  se_link :: link
  se_os :: os

text \<open>\<open>connect\<close> of the object of a session; the kernel's answers are the first argument.\<close>

definition session_connect ::
  "(connect_calls \<Rightarrow> string \<Rightarrow> int \<Rightarrow> 'c \<Rightarrow> os \<Rightarrow> (string + unit) \<times> 'c \<times> os)
    \<Rightarrow> connect_calls \<Rightarrow> string \<Rightarrow> int \<Rightarrow> ('c session, unit) io" where
  "session_connect conn calls host port s =
     (let (res, obj, os) = conn calls host port (se_object s) (se_os s)
      in Some (res, s\<lparr>se_object := obj, se_os := os\<rparr>))"

definition session_destroy :: "('c \<Rightarrow> os \<Rightarrow> os) \<Rightarrow> 'c session \<Rightarrow> os" where
  "session_destroy destroy s = destroy (se_object s) (se_os s)"

section \<open>AttoKV\<close>

definition atto_connect :: "connect_calls \<Rightarrow> string \<Rightarrow> int \<Rightarrow> (client session, unit) io" where
  "atto_connect = session_connect client_connect"

definition describe_error :: "(int \<Rightarrow> string) \<Rightarrow> io_error \<Rightarrow> string" where
  "describe_error strerror e =
     (if err_cause e \<noteq> 0 then err_context e @ '': '' @ strerror (err_cause e) else err_context e)"

definition atto_call :: "(int \<Rightarrow> string) \<Rightarrow> string \<Rightarrow> (client session, string) io" where
  "atto_call strerror input s =
     (case client_command (se_object s) input (se_link s) (se_os s) of
        None \<Rightarrow> None
      | Some (res, cl, ln, os) \<Rightarrow>
          Some (case res of
                  Inl e \<Rightarrow> Inl (describe_error strerror e)
                | Inr None \<Rightarrow> Inl ''Server closed the connection''
                | Inr (Some reply) \<Rightarrow> Inr reply,
                \<lparr>se_object = cl, se_link = ln, se_os = os\<rparr>))"

definition atto_expect_ok :: "string + string \<Rightarrow> string + unit" where
  "atto_expect_ok result =
     (case result of
        Inl e \<Rightarrow> Inl e
      | Inr reply \<Rightarrow> if reply \<noteq> ''OK'' then Inl (''Unexpected response: '' @ reply) else Inr ())"

definition atto_ping :: "(int \<Rightarrow> string) \<Rightarrow> (client session, unit) io" where
  "atto_ping strerror =
     io_map (\<lambda>result. case result of
               Inl e \<Rightarrow> Inl e
             | Inr reply \<Rightarrow>
                 if reply \<noteq> ''pong'' then Inl (''Unexpected PING response: '' @ reply) else Inr ())
       (atto_call strerror ''ping'')"

definition atto_flush :: "(int \<Rightarrow> string) \<Rightarrow> (client session, unit) io" where
  "atto_flush strerror = io_map atto_expect_ok (atto_call strerror ''flush'')"

definition atto_set :: "(int \<Rightarrow> string) \<Rightarrow> string \<Rightarrow> string \<Rightarrow> (client session, unit) io" where
  "atto_set strerror key val =
     io_map atto_expect_ok (atto_call strerror (''set '' @ key @ '' '' @ val))"

definition atto_get :: "(int \<Rightarrow> string) \<Rightarrow> string \<Rightarrow> (client session, string option) io" where
  "atto_get strerror key =
     io_map (\<lambda>result. case result of
               Inl e \<Rightarrow> Inl e
             | Inr reply \<Rightarrow> if reply = ''NULL'' then Inr None else Inr (Some reply))
       (atto_call strerror (''get '' @ key))"

definition atto_remove :: "(int \<Rightarrow> string) \<Rightarrow> string \<Rightarrow> (client session, bool) io" where
  "atto_remove strerror key =
     io_map (\<lambda>result. case result of
               Inl e \<Rightarrow> Inl e
             | Inr reply \<Rightarrow>
                 if reply = ''OK'' then Inr True
                 else if reply = ''NULL'' then Inr False
                 else Inl (''Unexpected DEL response: '' @ reply))
       (atto_call strerror (''del '' @ key))"

definition atto_backend :: "(int \<Rightarrow> string) \<Rightarrow> client session backend" where
  "atto_backend strerror =
     \<lparr>be_connect = atto_connect, be_ping = atto_ping strerror, be_flush = atto_flush strerror, be_set = atto_set strerror,
      be_get = atto_get strerror, be_remove = atto_remove strerror, be_destroy = session_destroy client_destroy\<rparr>"

section \<open>Redis\<close>

text \<open>\<open>connect\<close>, with the local socket destroyed on every return.\<close>

definition redis_connect ::
  "connect_calls \<Rightarrow> string \<Rightarrow> int \<Rightarrow> socket \<Rightarrow> os \<Rightarrow> (string + unit) \<times> socket \<times> os" where
  "redis_connect calls host port m_socket os =
     (let socket = socket_of (cn_socket calls)
      in if \<not> is_valid socket then
           (Inl (redis_system_error (cn_strerror calls) (cn_socket_errno calls) ''Failed to create Redis socket''),
            m_socket, os)
         else
           let os1 = os\<lparr>os_open := insert (cn_socket calls) (os_open os)\<rparr>;
               failed = (\<lambda>msg. (Inl msg, m_socket, socket_destroy socket os1))
           in case make_sockaddr (cn_inet_aton calls) host port of
                Inl e \<Rightarrow> failed e
              | Inr address \<Rightarrow>
                  (case cn_connect calls address of
                     Some errno \<Rightarrow>
                       failed (redis_system_error (cn_strerror calls) errno ''Failed to connect to Redis'')
                   | None \<Rightarrow>
                       (case set_nodelay (cn_setsockopt calls) True of
                          Inl errno \<Rightarrow> failed (cn_strerror calls errno)
                        | Inr _ \<Rightarrow>
                            let (mine, rest, os2) = socket_move_assign m_socket socket os1
                            in (Inr (), mine, socket_destroy rest os2))))"

definition redis_command :: "(int \<Rightarrow> string) \<Rightarrow> string list \<Rightarrow> (socket session, redis_reply) io" where
  "redis_command strerror arguments s =
     (case redis_write_all strerror (encode_request arguments) (ln_send (se_link s)) (ln_sent (se_link s)) of
        None \<Rightarrow> None
      | Some (written, tx, sent) \<Rightarrow>
          let s1 = s\<lparr>se_link := (se_link s)\<lparr>ln_send := tx, ln_sent := sent\<rparr>\<rparr>
          in case written of
               Inl e \<Rightarrow> Some (Inl e, s1)
             | Inr _ \<Rightarrow>
                 (case read_reply strerror (ln_recv (se_link s1)) of
                    None \<Rightarrow> None
                  | Some (reply, rx) \<Rightarrow> Some (reply, s1\<lparr>se_link := (se_link s1)\<lparr>ln_recv := rx\<rparr>\<rparr>)))"

definition redis_expect_ok :: "string + redis_reply \<Rightarrow> string + unit" where
  "redis_expect_ok reply =
     (case reply of
        Inl e \<Rightarrow> Inl e
      | Inr r \<Rightarrow> if rp_type r \<noteq> String_Reply \<or> rp_text r \<noteq> ''OK'' then Inl ''Unexpected Redis status response''
                else Inr ())"

definition redis_ping :: "(int \<Rightarrow> string) \<Rightarrow> (socket session, unit) io" where
  "redis_ping strerror =
     io_map (\<lambda>reply. case reply of
               Inl e \<Rightarrow> Inl e
             | Inr r \<Rightarrow> if rp_type r \<noteq> String_Reply \<or> rp_text r \<noteq> ''PONG'' then Inl ''Unexpected Redis PING response''
                       else Inr ())
       (redis_command strerror [''PING''])"

definition redis_flush :: "(int \<Rightarrow> string) \<Rightarrow> (socket session, unit) io" where
  "redis_flush strerror = io_map redis_expect_ok (redis_command strerror [''FLUSHDB''])"

definition redis_set :: "(int \<Rightarrow> string) \<Rightarrow> string \<Rightarrow> string \<Rightarrow> (socket session, unit) io" where
  "redis_set strerror key val = io_map redis_expect_ok (redis_command strerror [''SET'', key, val])"

definition redis_get :: "(int \<Rightarrow> string) \<Rightarrow> string \<Rightarrow> (socket session, string option) io" where
  "redis_get strerror key =
     io_map (\<lambda>reply. case reply of
               Inl e \<Rightarrow> Inl e
             | Inr r \<Rightarrow> if rp_type r = Nil_Reply then Inr None
                       else if rp_type r \<noteq> Bulk_Reply then Inl ''Unexpected Redis GET response''
                       else Inr (Some (rp_text r)))
       (redis_command strerror [''GET'', key])"

definition redis_remove :: "(int \<Rightarrow> string) \<Rightarrow> string \<Rightarrow> (socket session, bool) io" where
  "redis_remove strerror key =
     io_map (\<lambda>reply. case reply of
               Inl e \<Rightarrow> Inl e
             | Inr r \<Rightarrow> if rp_type r \<noteq> Integer_Reply \<or> (rp_integer r \<noteq> 0 \<and> rp_integer r \<noteq> 1)
                       then Inl ''Unexpected Redis DEL response'' else Inr (rp_integer r = 1))
       (redis_command strerror [''DEL'', key])"

definition redis_backend :: "(int \<Rightarrow> string) \<Rightarrow> socket session backend" where
  "redis_backend strerror =
     \<lparr>be_connect = session_connect redis_connect, be_ping = redis_ping strerror, be_flush = redis_flush strerror, be_set = redis_set strerror,
      be_get = redis_get strerror, be_remove = redis_remove strerror, be_destroy = session_destroy socket_destroy\<rparr>"

datatype backend_kind = Backend_Attokv | Backend_Redis

definition make_backend :: "(int \<Rightarrow> string) \<Rightarrow> backend_kind \<Rightarrow> client session backend + socket session backend" where
  "make_backend strerror kind =
     (if kind = Backend_Attokv then Inl (atto_backend strerror) else Inr (redis_backend strerror))"

section \<open>The contract\<close>

text \<open>The requests of a key-value store and their answers on an abstract map.\<close>

datatype request = Ping | Flush | Set_Key string string | Get_Key string | Remove_Key string

datatype response = Done | Found "string option" | Removed bool

fun answer :: "(string \<rightharpoonup> string) \<Rightarrow> request \<Rightarrow> response \<times> (string \<rightharpoonup> string)" where
  "answer \<sigma> Ping = (Done, \<sigma>)"
| "answer \<sigma> Flush = (Done, Map.empty)"
| "answer \<sigma> (Set_Key k v) = (Done, \<sigma>(k \<mapsto> v))"
| "answer \<sigma> (Get_Key k) = (Found (\<sigma> k), \<sigma>)"
| "answer \<sigma> (Remove_Key k) = (Removed (\<sigma> k \<noteq> None), \<sigma>(k := None))"

fun fits :: "request \<Rightarrow> response \<Rightarrow> bool" where
  "fits (Get_Key _) a \<longleftrightarrow> (\<exists>v. a = Found v)"
| "fits (Remove_Key _) a \<longleftrightarrow> (\<exists>b. a = Removed b)"
| "fits _ a \<longleftrightarrow> a = Done"

lemma fits_answer: "fits q (fst (answer \<sigma> q))"
  by (cases q) simp_all

text \<open>A request through the operations of a backend.\<close>

fun perform :: "'s backend \<Rightarrow> request \<Rightarrow> ('s, response) io" where
  "perform be Ping = io_map (map_sum id (\<lambda>_. Done)) (be_ping be)"
| "perform be Flush = io_map (map_sum id (\<lambda>_. Done)) (be_flush be)"
| "perform be (Set_Key k v) = io_map (map_sum id (\<lambda>_. Done)) (be_set be k v)"
| "perform be (Get_Key k) = io_map (map_sum id Found) (be_get be k)"
| "perform be (Remove_Key k) = io_map (map_sum id Removed) (be_remove be k)"

lemma io_map_sum [simp]:
  "io_map (map_sum id f) m s = Some (Inr b, s') \<longleftrightarrow> (\<exists>a. m s = Some (Inr a, s') \<and> b = f a)"
proof (cases "m s")
  case (Some r)
  then show ?thesis by (cases r; cases "fst r") (auto simp: io_map_def)
qed (simp add: io_map_def)

text \<open>
  What a backend promises: in a state in which the peer will answer the requests \<open>qs\<close> in order
  (\<open>answers\<close>), the next request returns its answer, leaves a state for the remaining ones, and has put
  exactly its bytes (\<open>wire\<close>) on the connection.
\<close>

locale backend_contract =
  fixes be :: "'s backend" and answers :: "(request \<times> response) list \<Rightarrow> 's \<Rightarrow> bool"
    and wire :: "request \<Rightarrow> string" and sent :: "'s \<Rightarrow> string"
  assumes perform_ok: "answers ((q, a) # qs) s \<Longrightarrow>
      \<exists>s'. perform be q s = Some (Inr a, s') \<and> answers qs s' \<and> sent s' = sent s @ wire q"
begin

lemma ping_ok: "answers ((Ping, a) # qs) s \<Longrightarrow>
    \<exists>s'. be_ping be s = Some (Inr (), s') \<and> answers qs s' \<and> sent s' = sent s @ wire Ping"
  using perform_ok [of Ping a qs s] by auto

lemma flush_ok: "answers ((Flush, a) # qs) s \<Longrightarrow>
    \<exists>s'. be_flush be s = Some (Inr (), s') \<and> answers qs s' \<and> sent s' = sent s @ wire Flush"
  using perform_ok [of Flush a qs s] by auto

lemma set_ok: "answers ((Set_Key k v, a) # qs) s \<Longrightarrow>
    \<exists>s'. be_set be k v s = Some (Inr (), s') \<and> answers qs s' \<and> sent s' = sent s @ wire (Set_Key k v)"
  using perform_ok [of "Set_Key k v" a qs s] by auto

lemma get_ok: "answers ((Get_Key k, Found v) # qs) s \<Longrightarrow>
    \<exists>s'. be_get be k s = Some (Inr v, s') \<and> answers qs s' \<and> sent s' = sent s @ wire (Get_Key k)"
  using perform_ok [of "Get_Key k" "Found v" qs s] by auto

lemma remove_ok: "answers ((Remove_Key k, Removed b) # qs) s \<Longrightarrow>
    \<exists>s'. be_remove be k s = Some (Inr b, s') \<and> answers qs s' \<and> sent s' = sent s @ wire (Remove_Key k)"
  using perform_ok [of "Remove_Key k" "Removed b" qs s] by auto

end

section \<open>AttoKV keeps the contract\<close>

fun atto_text :: "request \<Rightarrow> string" where
  "atto_text Ping = ''ping''"
| "atto_text Flush = ''flush''"
| "atto_text (Set_Key k v) = ''set '' @ k @ '' '' @ v"
| "atto_text (Get_Key k) = ''get '' @ k"
| "atto_text (Remove_Key k) = ''del '' @ k"

fun atto_reply :: "request \<Rightarrow> response \<Rightarrow> string" where
  "atto_reply Ping _ = ''pong''"
| "atto_reply _ Done = ''OK''"
| "atto_reply _ (Found v) = (case v of None \<Rightarrow> ''NULL'' | Some str \<Rightarrow> str)"
| "atto_reply _ (Removed b) = (if b then ''OK'' else ''NULL'')"

text \<open>A value \<open>NULL\<close> cannot be told from a missing one.\<close>

definition atto_ok :: "request \<Rightarrow> response \<Rightarrow> bool" where
  "atto_ok q a \<longleftrightarrow> fits q a \<and> a \<noteq> Found (Some ''NULL'')
     \<and> length (atto_text q) \<le> MAX_MESSAGE_SIZE \<and> length (atto_reply q a) \<le> MAX_MESSAGE_SIZE"

definition atto_answers :: "(request \<times> response) list \<Rightarrow> client session \<Rightarrow> bool" where
  "atto_answers qs s \<longleftrightarrow> (\<forall>(q, a) \<in> set qs. atto_ok q a)
     \<and> length (concat (map (\<lambda>(q, a). frame (atto_text q)) qs)) \<le> accepts (ln_send (se_link s))
     \<and> (\<exists>later e rest. stream (ln_recv (se_link s))
          = (concat (map (\<lambda>(q, a). frame (atto_reply q a)) qs) @ later, e, rest))"

lemma atto_call_ok:
  assumes "atto_answers ((q, a) # qs) s"
  shows "\<exists>s'. atto_call strerror (atto_text q) s = Some (Inr (atto_reply q a), s') \<and> atto_answers qs s'
    \<and> ln_sent (se_link s') = ln_sent (se_link s) @ frame (atto_text q)"
proof -
  have ok: "length (atto_text q) \<le> MAX_MESSAGE_SIZE" "length (atto_reply q a) \<le> MAX_MESSAGE_SIZE"
    using assms by (simp_all add: atto_answers_def atto_ok_def)
  have room: "4 + length (atto_text q) + length (concat (map (\<lambda>(q, a). frame (atto_text q)) qs))
      \<le> accepts (ln_send (se_link s))" using assms by (simp add: atto_answers_def)
  obtain later e rest where st: "stream (ln_recv (se_link s))
      = (frame (atto_reply q a) @ concat (map (\<lambda>(q, a). frame (atto_reply q a)) qs) @ later, e, rest)"
    using assms by (auto simp: atto_answers_def)
  from client_command_ok [OF ok(1) room ok(2) st, of "se_object s" "se_os s"] obtain ln' where
    c: "client_command (se_object s) (atto_text q) (se_link s) (se_os s)
        = Some (Inr (Some (atto_reply q a)), se_object s, ln', se_os s)"
    "ln_sent ln' = ln_sent (se_link s) @ frame (atto_text q)"
    "stream (ln_recv ln') = (concat (map (\<lambda>(q, a). frame (atto_reply q a)) qs) @ later, e, rest)"
    "length (concat (map (\<lambda>(q, a). frame (atto_text q)) qs)) \<le> accepts (ln_send ln')" by blast
  have "atto_answers qs (s\<lparr>se_link := ln'\<rparr>)" using assms c(3,4) by (auto simp: atto_answers_def)
  moreover have "atto_call strerror (atto_text q) s = Some (Inr (atto_reply q a), s\<lparr>se_link := ln'\<rparr>)"
    using c(1) by (simp add: atto_call_def)
  ultimately show ?thesis using c(2) by (intro exI [of _ "s\<lparr>se_link := ln'\<rparr>"]) simp
qed

lemma atto_perform:
  assumes "atto_call strerror (atto_text q) s = Some (Inr (atto_reply q a), s')" and "atto_ok q a"
  shows "perform (atto_backend strerror) q s = Some (Inr a, s')"
proof (cases q)
  case (Get_Key k)
  then obtain v where "a = Found v" using assms(2) by (auto simp: atto_ok_def)
  then show ?thesis using assms Get_Key
    by (cases v) (auto simp: atto_backend_def atto_get_def io_map_def atto_ok_def)
qed (use assms in \<open>auto simp: atto_backend_def atto_ping_def atto_flush_def atto_set_def atto_remove_def
    atto_expect_ok_def io_map_def atto_ok_def split: if_splits\<close>)

interpretation atto: backend_contract "atto_backend strerror" atto_answers
    "\<lambda>q. frame (atto_text q)" "\<lambda>s. ln_sent (se_link s)"
proof unfold_locales
  fix q a qs s
  assume asm: "atto_answers ((q, a) # qs) (s :: client session)"
  then have "atto_ok q a" by (simp add: atto_answers_def)
  with atto_call_ok [OF asm, of strerror] atto_perform [of strerror q s a]
  show "\<exists>s'. perform (atto_backend strerror) q s = Some (Inr a, s') \<and> atto_answers qs s'
      \<and> ln_sent (se_link s') = ln_sent (se_link s) @ frame (atto_text q)" by blast
qed

section \<open>Redis keeps the contract\<close>

fun redis_arguments :: "request \<Rightarrow> string list" where
  "redis_arguments Ping = [''PING'']"
| "redis_arguments Flush = [''FLUSHDB'']"
| "redis_arguments (Set_Key k v) = [''SET'', k, v]"
| "redis_arguments (Get_Key k) = [''GET'', k]"
| "redis_arguments (Remove_Key k) = [''DEL'', k]"

fun redis_answer :: "request \<Rightarrow> response \<Rightarrow> redis_value" where
  "redis_answer Ping _ = Status ''PONG''"
| "redis_answer _ Done = Status ''OK''"
| "redis_answer _ (Found v) = (case v of None \<Rightarrow> Nil_Value | Some str \<Rightarrow> Bulk str)"
| "redis_answer _ (Removed b) = Number (if b then 1 else 0)"

definition redis_ok :: "request \<Rightarrow> response \<Rightarrow> bool" where
  "redis_ok q a \<longleftrightarrow> fits q a \<and> value_ok (redis_answer q a)"

definition redis_answers :: "(request \<times> response) list \<Rightarrow> socket session \<Rightarrow> bool" where
  "redis_answers qs s \<longleftrightarrow> (\<forall>(q, a) \<in> set qs. redis_ok q a)
     \<and> length (concat (map (\<lambda>(q, a). encode_request (redis_arguments q)) qs)) \<le> accepts (ln_send (se_link s))
     \<and> (\<exists>later e rest. stream (ln_recv (se_link s))
          = (concat (map (\<lambda>(q, a). resp (redis_answer q a)) qs) @ later, e, rest))"

lemma redis_write_all_completes:
  assumes "length input + extra \<le> accepts es"
  shows "\<exists>es'. redis_write_all strerror input es out = Some (Inr (), es', out @ input) \<and> extra \<le> accepts es'"
proof -
  from send_loop_completes [of 0 input extra es out] assms obtain es' out' where
    l: "send_loop input 0 es out = Some (Filled, length input, es', out')" "extra \<le> accepts es'" by auto
  have "out' = out @ input" using send_loop_ok(3) [OF l(1)] by simp
  with l show ?thesis by (simp add: redis_write_all_def)
qed

lemma redis_command_ok:
  assumes "redis_answers ((q, a) # qs) s"
  shows "\<exists>s'. redis_command strerror (redis_arguments q) s = Some (value_result (redis_answer q a), s')
    \<and> redis_answers qs s' \<and> ln_sent (se_link s') = ln_sent (se_link s) @ encode_request (redis_arguments q)"
proof -
  let ?input = "encode_request (redis_arguments q)"
  have room: "length ?input + length (concat (map (\<lambda>(q, a). encode_request (redis_arguments q)) qs))
      \<le> accepts (ln_send (se_link s))" using assms by (simp add: redis_answers_def)
  obtain later e rest where st: "stream (ln_recv (se_link s))
      = (resp (redis_answer q a) @ concat (map (\<lambda>(q, a). resp (redis_answer q a)) qs) @ later, e, rest)"
    using assms by (auto simp: redis_answers_def)
  from redis_write_all_completes [OF room, of strerror "ln_sent (se_link s)"] obtain tx where
    w: "redis_write_all strerror ?input (ln_send (se_link s)) (ln_sent (se_link s))
        = Some (Inr (), tx, ln_sent (se_link s) @ ?input)"
    "length (concat (map (\<lambda>(q, a). encode_request (redis_arguments q)) qs)) \<le> accepts tx" by blast
  from read_reply_stream [OF st, of strerror] assms obtain rx where
    r: "read_reply strerror (ln_recv (se_link s)) = Some (value_result (redis_answer q a), rx)"
    "stream rx = (concat (map (\<lambda>(q, a). resp (redis_answer q a)) qs) @ later, e, rest)"
    by (auto simp: redis_answers_def redis_ok_def)
  define s' where "s' = s\<lparr>se_link := \<lparr>ln_recv = rx, ln_send = tx, ln_sent = ln_sent (se_link s) @ ?input\<rparr>\<rparr>"
  have "redis_command strerror (redis_arguments q) s = Some (value_result (redis_answer q a), s')"
    using w(1) r(1) by (simp add: redis_command_def s'_def)
  moreover have "redis_answers qs s'" using assms w(2) r(2) by (auto simp: redis_answers_def s'_def)
  ultimately show ?thesis by (simp add: s'_def)
qed

lemma redis_perform:
  assumes "redis_command strerror (redis_arguments q) s = Some (value_result (redis_answer q a), s')"
    and "redis_ok q a"
  shows "perform (redis_backend strerror) q s = Some (Inr a, s')"
proof (cases q)
  case (Get_Key k)
  then obtain v where "a = Found v" using assms(2) by (auto simp: redis_ok_def)
  then show ?thesis using assms Get_Key
    by (cases v) (auto simp: redis_backend_def redis_get_def io_map_def)
qed (use assms in \<open>auto simp: redis_backend_def redis_ping_def redis_flush_def redis_set_def redis_remove_def
    redis_expect_ok_def io_map_def redis_ok_def split: if_splits\<close>)

interpretation redis: backend_contract "redis_backend strerror" redis_answers
    "\<lambda>q. encode_request (redis_arguments q)" "\<lambda>s. ln_sent (se_link s)"
proof unfold_locales
  fix q a qs s
  assume asm: "redis_answers ((q, a) # qs) (s :: socket session)"
  then have "redis_ok q a" by (simp add: redis_answers_def)
  with redis_command_ok [OF asm, of strerror] redis_perform [of strerror q s a]
  show "\<exists>s'. perform (redis_backend strerror) q s = Some (Inr a, s') \<and> redis_answers qs s'
      \<and> ln_sent (se_link s') = ln_sent (se_link s) @ encode_request (redis_arguments q)" by blast
qed

section \<open>What the AttoKV server answers\<close>

definition token :: "string \<Rightarrow> bool" where
  "token t \<longleftrightarrow> t \<noteq> [] \<and> (\<forall>c \<in> set t. \<not> is_whitespace c)"

text \<open>Keys and values that survive the server's tokenizer.\<close>

fun clean :: "request \<Rightarrow> bool" where
  "clean (Set_Key k v) \<longleftrightarrow> token k \<and> token v"
| "clean (Get_Key k) \<longleftrightarrow> token k"
| "clean (Remove_Key k) \<longleftrightarrow> token k"
| "clean _ \<longleftrightarrow> True"

fun shrinking :: "(string \<rightharpoonup> string) \<Rightarrow> request \<Rightarrow> bool" where
  "shrinking \<sigma> (Set_Key k v) \<longleftrightarrow> shrinks \<sigma> k v"
| "shrinking \<sigma> _ \<longleftrightarrow> False"

lemma is_whitespace_blank: "is_whitespace CHR '' ''"
  by (simp add: is_whitespace_def)

lemma tokens_command [simp]:
  "tokens ''ping'' = [''ping'']" "tokens ''flush'' = [''flush'']"
  "tokens (CHR ''s'' # CHR ''e'' # CHR ''t'' # CHR '' '' # s) = ''set'' # tokens s"
  "tokens (CHR ''g'' # CHR ''e'' # CHR ''t'' # CHR '' '' # s) = ''get'' # tokens s"
  "tokens (CHR ''d'' # CHR ''e'' # CHR ''l'' # CHR '' '' # s) = ''del'' # tokens s"
  using tokens_single [of "''ping''"] tokens_single [of "''flush''"]
    tokens_word [of "''set''" "CHR '' ''" s] tokens_word [of "''get''" "CHR '' ''" s]
    tokens_word [of "''del''" "CHR '' ''" s]
  by (simp_all add: is_whitespace_def)

lemma tokens_atto_text:
  "clean q \<Longrightarrow> tokens (atto_text q) =
    (case q of Ping \<Rightarrow> [''ping''] | Flush \<Rightarrow> [''flush''] | Set_Key k v \<Rightarrow> [''set'', k, v]
     | Get_Key k \<Rightarrow> [''get'', k] | Remove_Key k \<Rightarrow> [''del'', k])"
  by (cases q) (auto simp: token_def tokens_single tokens_word is_whitespace_blank simp del: tokens.simps)

lemma spec_command_answer:
  assumes "clean q"
  shows "spec_command \<sigma> (atto_text q) =
    (if shrinking \<sigma> q then None
     else Some (default_result\<lparr>res_output := atto_reply q (fst (answer \<sigma> q))\<rparr>, snd (answer \<sigma> q)))"
  using tokens_atto_text [OF assms] by (cases q) (simp_all add: spec_command_def arity_def)

text \<open>Requests one after the other, and what a backend makes of them.\<close>

fun answer_all :: "(string \<rightharpoonup> string) \<Rightarrow> request list \<Rightarrow> (request \<times> response) list \<times> (string \<rightharpoonup> string)" where
  "answer_all \<sigma> [] = ([], \<sigma>)"
| "answer_all \<sigma> (q # qs) =
     (let (a, \<sigma>1) = answer \<sigma> q; (as, \<sigma>2) = answer_all \<sigma>1 qs in ((q, a) # as, \<sigma>2))"

fun no_shrinking :: "(string \<rightharpoonup> string) \<Rightarrow> request list \<Rightarrow> bool" where
  "no_shrinking \<sigma> [] \<longleftrightarrow> True"
| "no_shrinking \<sigma> (q # qs) \<longleftrightarrow> \<not> shrinking \<sigma> q \<and> no_shrinking (snd (answer \<sigma> q)) qs"

fun perform_all :: "'s backend \<Rightarrow> request list \<Rightarrow> ('s, response list) io" where
  "perform_all be [] = (\<lambda>s. Some (Inr [], s))"
| "perform_all be (q # qs) =
     io_bind (perform be q) (\<lambda>a. io_bind (perform_all be qs) (\<lambda>as s. Some (Inr (a # as), s)))"

lemma answer_all_fst: "map fst (fst (answer_all \<sigma> qs)) = qs"
  by (induction qs arbitrary: \<sigma>) (simp_all add: Let_def case_prod_unfold)

lemma spec_commands_answer_all:
  assumes "\<forall>q \<in> set qs. clean q" and "no_shrinking \<sigma> qs"
  shows "spec_commands \<sigma> (map atto_text qs) =
    Some (map (\<lambda>(q, a). default_result\<lparr>res_output := atto_reply q a\<rparr>) (fst (answer_all \<sigma> qs)),
          snd (answer_all \<sigma> qs))"
  using assms
proof (induction qs arbitrary: \<sigma>)
  case Nil
  then show ?case by simp
next
  case (Cons q qs)
  then show ?case using spec_command_answer [of q \<sigma>]
    by (cases "answer \<sigma> q"; cases "answer_all (snd (answer \<sigma> q)) qs") simp
qed

context backend_contract
begin

lemma perform_all_ok:
  "answers (as @ rest) s \<Longrightarrow>
    \<exists>s'. perform_all be (map fst as) s = Some (Inr (map snd as), s') \<and> answers rest s'
      \<and> sent s' = sent s @ concat (map (\<lambda>(q, a). wire q) as)"
proof (induction as arbitrary: s)
  case Nil
  then show ?case by simp
next
  case (Cons qa as)
  obtain q a where qa: "qa = (q, a)" by (cases qa)
  from perform_ok [of q a "as @ rest" s] Cons.prems qa obtain s1 where
    s1: "perform be q s = Some (Inr a, s1)" "answers (as @ rest) s1" "sent s1 = sent s @ wire q" by auto
  from Cons.IH [OF s1(2)] obtain s2 where
    "perform_all be (map fst as) s1 = Some (Inr (map snd as), s2)" "answers rest s2"
    "sent s2 = sent s1 @ concat (map (\<lambda>(q, a). wire q) as)" by blast
  then show ?case using s1 qa by (simp add: io_bind_def)
qed

end

lemma atto_perform_all:
  assumes "\<forall>q \<in> set qs. clean q" and "spec_commands \<sigma> (map atto_text qs) = Some (rs, \<sigma>')"
    and "no_shrinking \<sigma> qs" and "\<forall>(q, a) \<in> set (fst (answer_all \<sigma> qs)). atto_ok q a"
    and "length (concat (map (\<lambda>q. frame (atto_text q)) qs)) \<le> accepts (ln_send (se_link s))"
    and "stream (ln_recv (se_link s)) = (concat (map (\<lambda>r. frame (res_output r)) rs) @ later, e, rest)"
  shows "\<exists>s'. perform_all (atto_backend strerror) qs s = Some (Inr (map snd (fst (answer_all \<sigma> qs))), s')
    \<and> ln_sent (se_link s') = ln_sent (se_link s) @ concat (map (\<lambda>q. frame (atto_text q)) qs)"
proof -
  let ?as = "fst (answer_all \<sigma> qs)"
  have rs: "rs = map (\<lambda>(q, a). default_result\<lparr>res_output := atto_reply q a\<rparr>) ?as"
    using spec_commands_answer_all [OF assms(1,3)] assms(2) by simp
  have q: "map (\<lambda>(q, a). frame (atto_text q)) ?as = map (\<lambda>q. frame (atto_text q)) qs"
  proof -
    have "map (\<lambda>(q, a). frame (atto_text q)) ?as = map (\<lambda>q. frame (atto_text q)) (map fst ?as)"
      by (simp add: case_prod_unfold)
    then show ?thesis by (simp add: answer_all_fst)
  qed
  have "stream (ln_recv (se_link s)) = (concat (map (\<lambda>(q, a). frame (atto_reply q a)) ?as) @ later, e, rest)"
    using assms(6) unfolding rs by (simp add: o_def case_prod_unfold)
  then have "atto_answers (?as @ []) s" using assms(4,5) q by (auto simp: atto_answers_def)
  from atto.perform_all_ok [OF this, of strerror] q show ?thesis by (auto simp: answer_all_fst)
qed

section \<open>Connecting to Redis\<close>

text \<open>Up to the error texts, \<open>connect\<close> is that of the client.\<close>

lemma redis_connect_client:
  "map_prod (map_sum (\<lambda>_. ()) id) (map_prod (\<lambda>s. \<lparr>cl_socket = s\<rparr>) id) (redis_connect calls host port s os)
    = map_prod (map_sum (\<lambda>_. ()) id) id (client_connect calls host port \<lparr>cl_socket = s\<rparr> os)"
  by (simp add: redis_connect_def client_connect_def Let_def split: sum.split option.split prod.split)

lemma redis_connect_ok:
  assumes "redis_connect calls host port s os = (res, s', os')"
    and "cn_socket calls \<notin> os_open os" and "-1 \<notin> os_open os" and "cn_socket calls \<noteq> m_fd s"
    and "is_valid s \<longrightarrow> m_fd s \<in> os_open os"
  shows "case res of
      Inl _ \<Rightarrow> s' = s \<and> os' = os
    | Inr _ \<Rightarrow> m_fd s' = cn_socket calls \<and> is_valid s'
        \<and> os_open os' = insert (cn_socket calls) (os_open os - {m_fd s})
        \<and> os_bad_closes os' = os_bad_closes os"
proof -
  obtain res1 cl os1 where c: "client_connect calls host port \<lparr>cl_socket = s\<rparr> os = (res1, cl, os1)"
    by (metis prod_cases3)
  then have eq: "map_sum (\<lambda>_. ()) id res = map_sum (\<lambda>_. ()) id res1" "cl = \<lparr>cl_socket = s'\<rparr>" "os1 = os'"
    using redis_connect_client [of calls host port s os] assms(1) by auto
  from client_connect_ok [OF c assms(2,3)] assms(4,5) eq show ?thesis
    by (cases res; cases res1) simp_all
qed

section \<open>Properties\<close>

text \<open>C27: the AttoKV backend and the executor of the server together are the abstract key-value map.  Take
  any requests whose keys and values have no white space and are not empty, which do not replace a value by a
  shorter one, do not read a value \<open>NULL\<close>, and whose messages are within the limit.  On every well-formed
  store the executor runs all their commands and ends in the state of the abstract map; and when the frames
  of its results arrive at the backend, however they are cut up, the answers of the backend are those of the
  abstract map, and exactly the frames of the commands have been sent.\<close>

theorem atto_backend_correct:
  assumes "ex_inv ex" and "ex_budget ex + 2 * length qs \<le> str_limit"
    and "\<forall>q \<in> set qs. clean q" and "no_shrinking (ex_abs ex) qs"
    and "\<forall>(q, a) \<in> set (fst (answer_all (ex_abs ex) qs)). atto_ok q a"
    and "length (concat (map (\<lambda>q. frame (atto_text q)) qs)) \<le> accepts (ln_send (se_link s))"
  shows "\<exists>rs ex'. run_commands ex (map atto_text qs) = Inr (rs, ex') \<and> ex_inv ex'
    \<and> ex_abs ex' = snd (answer_all (ex_abs ex) qs)
    \<and> (\<forall>later e rest. stream (ln_recv (se_link s)) = (concat (map (\<lambda>r. frame (res_output r)) rs) @ later, e, rest) \<longrightarrow>
        (\<exists>s'. perform_all (atto_backend strerror) qs s = Some (Inr (map snd (fst (answer_all (ex_abs ex) qs))), s')
          \<and> ln_sent (se_link s') = ln_sent (se_link s) @ concat (map (\<lambda>q. frame (atto_text q)) qs)))"
proof -
  obtain rs where spec: "spec_commands (ex_abs ex) (map atto_text qs) = Some (rs, snd (answer_all (ex_abs ex) qs))"
    using spec_commands_answer_all [OF assms(3,4)] by auto
  have "\<forall>line \<in> set (map atto_text qs). length line < str_limit"
  proof
    fix line assume "line \<in> set (map atto_text qs)"
    then obtain q where "q \<in> set qs" "line = atto_text q" by auto
    moreover from this(1) obtain a where "(q, a) \<in> set (fst (answer_all (ex_abs ex) qs))"
      using answer_all_fst [of "ex_abs ex" qs] by (metis (no_types, lifting) imageE list.set_map prod.collapse)
    then have "atto_ok q a" using assms(5) by auto
    ultimately show "length line < str_limit" by (simp add: atto_ok_def MAX_MESSAGE_SIZE_def str_limit_def)
  qed
  with run_commands_ok [OF assms(1), of "map atto_text qs"] assms(2) spec obtain ex' where
    "run_commands ex (map atto_text qs) = Inr (rs, ex')" "ex_inv ex'" "ex_abs ex' = snd (answer_all (ex_abs ex) qs)"
    by auto
  with atto_perform_all [OF assms(3) spec assms(4,5,6), of _ _ _ strerror] show ?thesis by blast
qed

theorem atto_backend_correct_witness:
  "\<exists>rs ex' s'. run_commands (register_builtins executor_new) [''set k v'', ''get k'', ''del k'', ''get k''] = Inr (rs, ex')
    \<and> ex_abs ex' = Map.empty \<and> map res_output rs = [''OK'', ''v'', ''OK'', ''NULL'']
    \<and> perform_all (atto_backend (\<lambda>_. [])) [Set_Key ''k'' ''v'', Get_Key ''k'', Remove_Key ''k'', Get_Key ''k'']
        \<lparr>se_object = client_new,
         se_link = \<lparr>ln_recv = [Received (concat (map (\<lambda>r. frame (res_output r)) rs))],
                    ln_send = replicate 100 (Accepted 1), ln_sent = []\<rparr>,
         se_os = no_descriptors\<rparr>
      = Some (Inr [Done, Found (Some ''v''), Removed True, Found None], s')"
proof -
  let ?qs = "[Set_Key ''k'' ''v'', Get_Key ''k'', Remove_Key ''k'', Get_Key ''k'']"
  let ?ex = "register_builtins executor_new"
  let ?rs = "map (\<lambda>out. default_result\<lparr>res_output := out\<rparr>) [''OK'', ''v'', ''OK'', ''NULL'']"
  let ?s = "\<lparr>se_object = client_new,
     se_link = \<lparr>ln_recv = [Received (concat (map (\<lambda>r. frame (res_output r)) ?rs))],
                ln_send = replicate 100 (Accepted 1), ln_sent = []\<rparr>,
     se_os = no_descriptors\<rparr>"
  note start = ex_inv_start
  have clean: "\<forall>q \<in> set ?qs. clean q" by (simp add: token_def is_whitespace_def)
  have small: "no_shrinking (ex_abs ?ex) ?qs" unfolding start(2) by (simp add: shrinks_def)
  have spec: "spec_commands (ex_abs ?ex) (map atto_text ?qs) = Some (?rs, Map.empty)"
    by (subst spec_commands_answer_all [OF clean small]) (simp add: start(2))
  have ok: "\<forall>(q, a) \<in> set (fst (answer_all (ex_abs ?ex) ?qs)). atto_ok q a"
    unfolding start(2) by (simp add: atto_ok_def MAX_MESSAGE_SIZE_def ex_bool_eq)
  have room: "length (concat (map (\<lambda>q. frame (atto_text q)) ?qs)) \<le> accepts (ln_send (se_link ?s))"
    using accepts_replicate [of 100] by simp
  have budget: "ex_budget ?ex + 2 * length ?qs \<le> str_limit" unfolding start(3) by (simp add: str_limit_def)
  from atto_backend_correct [OF start(1) budget clean small ok room, of "\<lambda>_. []"] obtain rs ex' where
    run: "run_commands ?ex (map atto_text ?qs) = Inr (rs, ex')" "ex_abs ex' = snd (answer_all (ex_abs ?ex) ?qs)" and
    got: "\<And>later e rest. stream (ln_recv (se_link ?s)) = (concat (map (\<lambda>r. frame (res_output r)) rs) @ later, e, rest) \<Longrightarrow>
      \<exists>s'. perform_all (atto_backend (\<lambda>_. [])) ?qs ?s = Some (Inr (map snd (fst (answer_all (ex_abs ?ex) ?qs))), s')"
    by blast
  have "\<forall>line \<in> set (map atto_text ?qs). length line < str_limit" by (simp add: str_limit_def)
  with run_commands_ok [OF start(1) _ this] spec run(1) budget have rs: "rs = ?rs" by auto
  have "stream (ln_recv (se_link ?s)) = (concat (map (\<lambda>r. frame (res_output r)) rs) @ [], Exhausted, [])"
    unfolding rs by (simp add: frame_def)
  from got [OF this] obtain s' where
    "perform_all (atto_backend (\<lambda>_. [])) ?qs ?s = Some (Inr [Done, Found (Some ''v''), Removed True, Found None], s')"
    unfolding start(2) by (auto simp: Let_def)
  moreover have "run_commands ?ex [''set k v'', ''get k'', ''del k'', ''get k''] = Inr (rs, ex')" "ex_abs ex' = Map.empty"
    using run unfolding start(2) by simp_all
  moreover have "map res_output rs = [''OK'', ''v'', ''OK'', ''NULL'']" unfolding rs by simp
  ultimately show ?thesis unfolding rs by (intro exI [of _ ?rs] exI [of _ ex'] exI [of _ s'] conjI)
qed

text \<open>C28: the same contract holds of the Redis backend against a server that speaks the Redis
  protocol, without any condition on the bytes of keys and values.\<close>

theorem redis_backend_correct:
  assumes "\<forall>(q, a) \<in> set as. fits q a \<and> value_ok (redis_answer q a)"
    and "length (concat (map (\<lambda>(q, a). encode_request (redis_arguments q)) as)) \<le> accepts (ln_send (se_link s))"
    and "stream (ln_recv (se_link s)) = (concat (map (\<lambda>(q, a). resp (redis_answer q a)) as) @ later, e, rest)"
  shows "\<exists>s'. perform_all (redis_backend strerror) (map fst as) s = Some (Inr (map snd as), s')
    \<and> ln_sent (se_link s') = ln_sent (se_link s) @ concat (map (\<lambda>(q, a). encode_request (redis_arguments q)) as)"
proof -
  have "redis_answers (as @ []) s" using assms by (auto simp: redis_answers_def redis_ok_def)
  from redis.perform_all_ok [OF this, of strerror] show ?thesis by blast
qed

theorem redis_backend_correct_witness:
  "\<exists>s'. perform_all (redis_backend (\<lambda>_. [])) [Get_Key ''a b'', Remove_Key []]
      \<lparr>se_object = socket_new,
       se_link = \<lparr>ln_recv = [Received (resp (Bulk ''NULL'')), Recv_Failed EINTR, Received (resp (Number 0))],
                  ln_send = replicate 100 (Accepted 1), ln_sent = []\<rparr>,
       se_os = \<lparr>os_open = {}, os_bad_closes = 0\<rparr>\<rparr>
    = Some (Inr [Found (Some ''NULL''), Removed False], s')"
proof -
  let ?as = "[(Get_Key ''a b'', Found (Some ''NULL'')), (Remove_Key [], Removed False)]"
  let ?s = "\<lparr>se_object = socket_new,
       se_link = \<lparr>ln_recv = [Received (resp (Bulk ''NULL'')), Recv_Failed EINTR, Received (resp (Number 0))],
                  ln_send = replicate 100 (Accepted 1), ln_sent = []\<rparr>,
       se_os = \<lparr>os_open = {}, os_bad_closes = 0\<rparr>\<rparr>"
  have d: "digits 0 = ''0''" "digits 1 = ''1''" "digits (Suc (Suc 0)) = ''2''"
    "digits (Suc (Suc (Suc 0))) = ''3''" by code_simp+
  have "\<forall>(q, a) \<in> set ?as. fits q a \<and> value_ok (redis_answer q a)"
    by (simp add: k_max_reply_size_def ex_bool_eq)
  moreover have "length (concat (map (\<lambda>(q, a). encode_request (redis_arguments q)) ?as))
      \<le> accepts (ln_send (se_link ?s))"
    using accepts_replicate [of 100] d by (simp add: encode_request_def)
  moreover have "stream (ln_recv (se_link ?s))
      = (concat (map (\<lambda>(q, a). resp (redis_answer q a)) ?as) @ [], Exhausted, [])" by simp
  ultimately show ?thesis using redis_backend_correct [of ?as ?s "[]" Exhausted "[]" "\<lambda>_. []"] by auto
qed



end
