(* ===== verification/RandomEngine.thy ===== *)
theory RandomEngine
  imports AttoPrelude
begin

text \<open>
  \<open>std::mt19937_64\<close>, the random engine of the benchmark, as the C++ standard defines it: a window of
  312 words of 64 bits, from which every draw computes the next one.
\<close>

type_synonym engine = "u64 list"

text \<open>The window that a seed makes: each word comes from the one before and from its index.\<close>

fun seed_words :: "nat \<Rightarrow> nat \<Rightarrow> u64 \<Rightarrow> u64 list" where
  "seed_words 0 i previous = []"
| "seed_words (Suc n) i previous =
     (let x = 6364136223846793005 * (previous XOR drop_bit 62 previous) + word_of_nat i
      in x # seed_words n (Suc i) x)"

definition mt19937_64 :: "u64 \<Rightarrow> engine" where
  "mt19937_64 seed = seed # seed_words 311 1 seed"

text \<open>The next word of the window: the upper 33 bits of the oldest word and the lower 31 bits of the
  one after it, twisted into the word at distance 156.\<close>

definition mt_next :: "engine \<Rightarrow> u64" where
  "mt_next xs =
     (let y = (xs ! 0 AND NOT (mask 31)) OR (xs ! 1 AND mask 31)
      in xs ! 156 XOR drop_bit 1 y XOR 0xB5026F5AA96619E9 * (y AND 1))"

definition mt_temper :: "u64 \<Rightarrow> u64" where
  "mt_temper x =
     (let z1 = x XOR (drop_bit 29 x AND 0x5555555555555555);
          z2 = z1 XOR (push_bit 17 z1 AND 0x71D67FFFEDA60000);
          z3 = z2 XOR (push_bit 37 z2 AND 0xFFF7EEE000000000)
      in z3 XOR drop_bit 43 z3)"

text \<open>One call of the engine: the number and the engine after it.\<close>

definition mt_draw :: "engine \<Rightarrow> u64 \<times> engine" where
  "mt_draw xs = (let x = mt_next xs in (mt_temper x, tl xs @ [x]))"

text \<open>The window keeps its length, so that the words that \<open>mt_next\<close> reads are in it.\<close>

lemma length_seed_words [simp]: "length (seed_words n i x) = n"
  by (induction n arbitrary: i x) (simp_all add: Let_def)

lemma length_mt19937_64 [simp]: "length (mt19937_64 seed) = 312"
  by (simp add: mt19937_64_def)

lemma length_mt_draw [simp]: "xs \<noteq> [] \<Longrightarrow> length (snd (mt_draw xs)) = length xs"
  by (simp add: mt_draw_def Let_def)

end
