(* ===== verification/Doubles.thy ===== *)
theory Doubles
  imports CharConv Complex_Main "HOL-Library.Log_Nat"
begin

text \<open>
  What the report of the benchmark uses of the type \<open>double\<close>: conversion from an integer, division, and
  \<open>std::format\<close> with a fixed number of decimals.  A number is its significand and its binary exponent; a
  result is rounded to 53 bits, to the nearest and on a tie to the even significand.  The numbers of the
  report are between \<open>1e-9\<close> and \<open>1.9e28\<close>, so that neither overflow nor subnormal numbers occur.
\<close>

section \<open>Rounding\<close>

text \<open>The integer nearest to a fraction, on a tie the even one.\<close>

definition div_even :: "nat \<Rightarrow> nat \<Rightarrow> nat" where
  "div_even p q =
     (let d = p div q; r = p mod q
      in if 2 * r < q \<or> 2 * r = q \<and> even d then d else Suc d)"

text \<open>\<open>0 / 0\<close> is the only operation here that is not a number.\<close>

datatype double = Finite nat int | Infinite | Not_A_Number

text \<open>The significand of the fraction \<open>p / q\<close> for the exponent \<open>e\<close>, before and after rounding.\<close>

definition scale :: "int \<Rightarrow> nat \<times> nat \<Rightarrow> nat \<times> nat" where
  "scale e = (\<lambda>(p, q). (p * 2 ^ nat (- e), q * 2 ^ nat e))"

definition ratio_exponent :: "nat \<Rightarrow> nat \<Rightarrow> int" where
  "ratio_exponent p q =
     (let e = bitlen (int p) - bitlen (int q) - 53; (a, b) = scale e (p, q)
      in if 2 ^ 53 * b \<le> a then e + 1 else e)"

definition double_of_ratio :: "nat \<Rightarrow> nat \<Rightarrow> double" where
  "double_of_ratio p q =
     (if p = 0 then Finite 0 0
      else let e = ratio_exponent p q; (a, b) = scale e (p, q) in Finite (div_even a b) e)"

definition double_of_nat :: "nat \<Rightarrow> double" where
  "double_of_nat n = double_of_ratio n 1"

fun double_div :: "double \<Rightarrow> double \<Rightarrow> double" where
  "double_div (Finite m e) (Finite m' e') =
     (if m' = 0 then if m = 0 then Not_A_Number else Infinite
      else let (p, q) = scale (- e) (m, 1); (p', q') = scale (- e') (m', 1)
           in double_of_ratio (p * q') (q * p'))"
| "double_div Infinite (Finite m e) = Infinite"
| "double_div (Finite m e) Infinite = Finite 0 0"
| "double_div x y = Not_A_Number"

section \<open>Text\<close>

definition padded :: "nat \<Rightarrow> nat \<Rightarrow> string" where
  "padded k n = replicate (k - length (digits n)) CHR ''0'' @ digits n"

text \<open>The decimal number \<open>n / 10 ^ k\<close> with \<open>k\<close> digits after the point.\<close>

definition fixed_point :: "nat \<Rightarrow> nat \<Rightarrow> string" where
  "fixed_point k n = digits (n div 10 ^ k) @ ''.'' @ padded k (n mod 10 ^ k)"

text \<open>\<open>std::format("{:.kf}", x)\<close>.\<close>

fun format_fixed :: "nat \<Rightarrow> double \<Rightarrow> string" where
  "format_fixed k (Finite m e) =
     (let (p, q) = scale (- e) (m, 1) in fixed_point k (div_even (p * 10 ^ k) q))"
| "format_fixed k Infinite = ''inf''"
| "format_fixed k Not_A_Number = ''nan''"

section \<open>The error of rounding\<close>

lemma div_even_error:
  assumes "0 < q"
  shows "\<bar>real (div_even p q) - real p / real q\<bar> \<le> 1 / 2"
proof -
  define d r where "d = p div q" and "r = p mod q"
  have r: "r < q" using assms by (simp add: r_def)
  have "p = q * d + r" by (simp add: d_def r_def)
  then have "real p = real q * real d + real r" by (metis of_nat_add of_nat_mult)
  then have pq: "real p / real q = real d + real r / real q" using assms by (simp add: field_simps)
  show ?thesis
  proof (cases "2 * r < q \<or> 2 * r = q \<and> even d")
    case True
    then have "2 * r \<le> q" by auto
    then have "real r / real q \<le> 1 / 2" using assms by (simp add: field_simps flip: of_nat_mult)
    moreover have "div_even p q = d" using True by (simp add: div_even_def d_def r_def)
    ultimately show ?thesis using pq by simp
  next
    case False
    then have "q \<le> 2 * r" by auto
    then have "1 / 2 \<le> real r / real q" using assms by (simp add: field_simps flip: of_nat_mult)
    moreover have "real r / real q \<le> 1" using r assms by simp
    moreover have "div_even p q = Suc d" using False by (auto simp: div_even_def d_def r_def)
    ultimately show ?thesis using pq by simp
  qed
qed

lemma div_even_nearest:
  assumes "0 < q" and "\<bar>real p / real q - real n\<bar> < 1 / 2"
  shows "div_even p q = n"
proof -
  have "\<bar>real (div_even p q) - real n\<bar> < 1" using div_even_error [OF assms(1), of p] assms(2) by linarith
  then show ?thesis by linarith
qed

lemma div_even_one [simp]: "div_even n 1 = n"
  by (simp add: div_even_def)

lemma scale_quotient:
  assumes "scale e (p, q) = (a, b)"
  shows "real a / real b = real p / real q * 2 powi (- e)" and "0 < q \<Longrightarrow> 0 < b" and "0 < p \<Longrightarrow> 0 < a"
  using assms by (auto simp: scale_def power_int_def divide_simps)

fun double_value :: "double \<Rightarrow> real" where
  "double_value (Finite m e) = real m * 2 powi e"
| "double_value _ = 0"

abbreviation is_finite :: "double \<Rightarrow> bool" where
  "is_finite x \<equiv> \<exists>m e. x = Finite m e"

lemma bitlen_powi:
  assumes "0 < n"
  shows "2 powi (bitlen (int n) - 1) \<le> real n" and "real n < 2 powi (bitlen (int n))"
proof -
  have one: "1 \<le> bitlen (int n)" using assms bitlen_ge_iff_power [of 1 "int n"] by simp
  then have nat: "int (nat (bitlen (int n) - 1)) = bitlen (int n) - 1" "int (nat (bitlen (int n))) = bitlen (int n)"
    by simp_all
  have b: "2 ^ nat (bitlen (int n) - 1) \<le> int n" "int n < 2 ^ nat (bitlen (int n))"
    using bitlen_bounds [of "int n"] assms by simp_all
  have "real_of_int (2 ^ nat (bitlen (int n) - 1)) \<le> real_of_int (int n)"
    using b(1) by (simp only: of_int_le_iff)
  then have "2 ^ nat (bitlen (int n) - 1) \<le> real n" by (simp only: of_int_power of_int_numeral of_int_of_nat_eq)
  then show "2 powi (bitlen (int n) - 1) \<le> real n" using nat(1) by (metis power_int_of_nat)
  have "real_of_int (int n) < real_of_int (2 ^ nat (bitlen (int n)))"
    using b(2) by (simp only: of_int_less_iff)
  then have "real n < 2 ^ nat (bitlen (int n))" by (simp only: of_int_power of_int_numeral of_int_of_nat_eq)
  then show "real n < 2 powi (bitlen (int n))" using nat(2) by (metis power_int_of_nat)
qed

text \<open>The significand is at least \<open>2 ^ 52\<close>, so that the relative error is at most \<open>2 ^ -53\<close>.\<close>

lemma double_of_ratio_error:
  assumes "0 < q"
  shows "is_finite (double_of_ratio p q)"
    and "\<bar>double_value (double_of_ratio p q) - real p / real q\<bar> \<le> real p / real q / 2 ^ 53"
proof -
  have "is_finite (double_of_ratio p q)
    \<and> \<bar>double_value (double_of_ratio p q) - real p / real q\<bar> \<le> real p / real q / 2 ^ 53"
  proof (cases "p = 0")
    case True
    then show ?thesis by (simp add: double_of_ratio_def)
  next
    case False
    define x where "x = real p / real q"
    define e where "e = bitlen (int p) - bitlen (int q) - 53"
    obtain a b where ab: "scale e (p, q) = (a, b)" by fastforce
    define e' where "e' = ratio_exponent p q"
    note exp = e'_def
    have e'_def: "e' = (if 2 ^ 53 * b \<le> a then e + 1 else e)"
      using ab by (simp add: exp ratio_exponent_def e_def Let_def)
    obtain a' b' where ab': "scale e' (p, q) = (a', b')" by fastforce
    have run: "double_of_ratio p q = Finite (div_even a' b') e'"
      using False ab' by (simp add: double_of_ratio_def exp [symmetric] Let_def)
    note s = scale_quotient [OF ab, folded x_def] and s' = scale_quotient [OF ab', folded x_def]
    have b: "0 < b" "0 < b'" using s(2) s'(2) assms by simp_all
    have "2 powi (bitlen (int p) - 1) / 2 powi (bitlen (int q)) \<le> x"
      unfolding x_def using bitlen_powi(1) [of p] bitlen_powi(2) [OF assms] False assms
      by (intro frac_le) auto
    moreover have "bitlen (int p) - 1 - bitlen (int q) = e + 52" by (simp add: e_def)
    ultimately have "2 powi (e + 52) \<le> x" by (simp flip: power_int_diff)
    then have "2 powi (e + 52) * 2 powi (- e) \<le> x * 2 powi (- e)" by (rule mult_right_mono) simp
    then have lo: "2 ^ 52 \<le> x * 2 powi (- e)" by (simp flip: power_int_add)
    have "2 ^ 52 \<le> x * 2 powi (- e')"
    proof (cases "2 ^ 53 * b \<le> a")
      case True
      then have "2 ^ 53 * real b \<le> real a" by (simp flip: of_nat_le_iff [where 'a = real])
      then have "2 ^ 53 \<le> x * 2 powi (- e)" using b(1) unfolding s(1) [symmetric] by (simp add: field_simps)
      moreover have "x * 2 powi (- e') = x * 2 powi (- e) / 2"
      proof -
        have "(2 :: real) powi (- e + - 1) = 2 powi (- e) * 2 powi (- 1)" by (rule power_int_add) simp
        then show ?thesis using True by (simp add: e'_def)
      qed
      moreover have "(2 :: real) ^ 53 = 2 * 2 ^ 52" by simp
      ultimately show ?thesis by linarith
    qed (use lo in \<open>simp add: e'_def\<close>)
    then have big: "1 / 2 \<le> x * 2 powi (- e') / 2 ^ 53" by simp
    have unscale: "y * 2 powi (- e') * 2 powi e' = y" for y :: real
      by (simp add: mult.assoc flip: power_int_add)
    have "\<bar>real (div_even a' b') - x * 2 powi (- e')\<bar> \<le> 1 / 2"
      using div_even_error [OF b(2), of a'] unfolding s'(1) .
    then have "\<bar>real (div_even a' b') - x * 2 powi (- e')\<bar> \<le> x * 2 powi (- e') / 2 ^ 53" using big by linarith
    then have "\<bar>real (div_even a' b') - x * 2 powi (- e')\<bar> * 2 powi e' \<le> x * 2 powi (- e') / 2 ^ 53 * 2 powi e'"
      by (rule mult_right_mono) simp
    moreover have "\<bar>real (div_even a' b') - x * 2 powi (- e')\<bar> * 2 powi e'
        = \<bar>(real (div_even a' b') - x * 2 powi (- e')) * 2 powi e'\<bar>" by (simp add: abs_mult)
    moreover have "(real (div_even a' b') - x * 2 powi (- e')) * 2 powi e' = real (div_even a' b') * 2 powi e' - x"
      using unscale [of x] by (simp add: left_diff_distrib)
    moreover have "x * 2 powi (- e') / 2 ^ 53 * 2 powi e' = x / 2 ^ 53" using unscale [of "x / 2 ^ 53"] by simp
    ultimately have "\<bar>real (div_even a' b') * 2 powi e' - x\<bar> \<le> x / 2 ^ 53" by (simp only:)
    then show ?thesis using run by (simp add: x_def)
  qed
  then show "is_finite (double_of_ratio p q)"
    and "\<bar>double_value (double_of_ratio p q) - real p / real q\<bar> \<le> real p / real q / 2 ^ 53" by blast+
qed

text \<open>Integers of at most 53 bits are represented exactly.\<close>

lemma double_of_nat_exact:
  assumes "n < 2 ^ 53"
  shows "double_value (double_of_nat n) = real n"
proof (cases "n = 0")
  case True
  then show ?thesis by (simp add: double_of_nat_def double_of_ratio_def)
next
  case False
  have "bitlen (int n) \<le> 53" using assms less_power_nat_iff_bitlen [of n 53] by simp
  moreover have "bitlen 1 = 1" using bitlen_twopow_add_eq [of 0 0] by simp
  ultimately have e: "ratio_exponent n 1 \<le> 0"
    by (simp add: ratio_exponent_def Let_def case_prod_unfold)
  then have "double_of_nat n = Finite (n * 2 ^ nat (- ratio_exponent n 1)) (ratio_exponent n 1)"
    using False by (simp add: double_of_nat_def double_of_ratio_def Let_def scale_def div_even_one [unfolded One_nat_def])
  then show ?thesis using e by (auto simp: power_int_def simp flip: power_mult_distrib)
qed

lemma double_div_value:
  assumes "is_finite x" and "is_finite y" and "0 < double_value y"
  shows "is_finite (double_div x y)"
    and "\<bar>double_value (double_div x y) - double_value x / double_value y\<bar>
      \<le> double_value x / double_value y / 2 ^ 53"
proof -
  obtain m e m' e' where xy: "x = Finite m e" "y = Finite m' e'" using assms(1,2) by blast
  have m': "0 < m'" using assms(3) by (cases "m' = 0") (simp_all add: xy)
  obtain p q p' q' where s: "scale (- e) (m, 1) = (p, q)" "scale (- e') (m', 1) = (p', q')" by fastforce
  note a = scale_quotient [OF s(1)] and b = scale_quotient [OF s(2)]
  have run: "double_div x y = double_of_ratio (p * q') (q * p')" using m' s by (simp add: xy)
  have pos: "0 < q * p'" using a(2) b(3) m' by simp
  have "real (p * q') / real (q * p') = (real p / real q) / (real p' / real q')" by simp
  also have "\<dots> = double_value x / double_value y" unfolding a(1) b(1) by (simp add: xy)
  finally have eq: "real (p * q') / real (q * p') = double_value x / double_value y" .
  show "is_finite (double_div x y)"
    and "\<bar>double_value (double_div x y) - double_value x / double_value y\<bar>
      \<le> double_value x / double_value y / 2 ^ 53"
    using double_of_ratio_error [OF pos, of "p * q'"] unfolding run eq by auto
qed

lemma format_fixed_value:
  assumes "is_finite x"
  obtains n where "format_fixed k x = fixed_point k n" and "\<bar>real n - double_value x * 10 ^ k\<bar> \<le> 1 / 2"
    and "\<And>i. \<bar>double_value x * 10 ^ k - real i\<bar> < 1 / 2 \<Longrightarrow> n = i"
proof -
  obtain m e where x: "x = Finite m e" using assms by blast
  obtain p q where s: "scale (- e) (m, 1) = (p, q)" by fastforce
  note a = scale_quotient [OF s]
  have q: "0 < q" using a(2) by simp
  have v: "real (p * 10 ^ k) / real q = double_value x * 10 ^ k" using a(1) by (simp add: x times_divide_eq_left [symmetric] del: times_divide_eq_left)
  show thesis
  proof (rule that)
    show "format_fixed k x = fixed_point k (div_even (p * 10 ^ k) q)" using s by (simp add: x)
    show "\<bar>real (div_even (p * 10 ^ k) q) - double_value x * 10 ^ k\<bar> \<le> 1 / 2"
      using div_even_error [OF q, of "p * 10 ^ k"] unfolding v .
    show "\<bar>double_value x * 10 ^ k - real i\<bar> < 1 / 2 \<Longrightarrow> div_even (p * 10 ^ k) q = i" for i
      using div_even_nearest [OF q, of "p * 10 ^ k" i] unfolding v .
  qed
qed

section \<open>The numbers of a report\<close>

lemma double_of_nat_finite [simp]: "is_finite (double_of_nat n)"
  unfolding double_of_nat_def by (rule double_of_ratio_error) simp

lemma double_div_nats:
  assumes "a < 2 ^ 53" and "b < 2 ^ 53" and "0 < b"
  shows "is_finite (double_div (double_of_nat a) (double_of_nat b))"
    and "\<bar>double_value (double_div (double_of_nat a) (double_of_nat b)) - real a / real b\<bar> \<le> real a / real b / 2 ^ 53"
  using double_div_value [of "double_of_nat a" "double_of_nat b"] assms double_of_nat_exact [of a]
    double_of_nat_exact [of b]
  by auto

text \<open>Thousandths with three decimals are exact.\<close>

lemma thousandths_exact:
  assumes "n < 2 ^ 52"
  shows "format_fixed 3 (double_div (double_of_nat n) (double_of_nat 1000)) = fixed_point 3 n"
proof -
  let ?x = "double_div (double_of_nat n) (double_of_nat 1000)"
  have x: "is_finite ?x" "\<bar>double_value ?x - real n / 1000\<bar> \<le> real n / 1000 / 2 ^ 53"
    using double_div_nats [of n 1000] assms by simp_all
  have "real n < real (2 ^ 52)" using assms by (simp only: of_nat_less_iff)
  then have "real n / 1000 / 2 ^ 53 < 1 / 2000" by simp
  then have "\<bar>double_value ?x * 1000 - real n\<bar> < 1 / 2" using x(2) by linarith
  then have "\<bar>double_value ?x * 10 ^ 3 - real n\<bar> < 1 / 2" by simp
  then show ?thesis using format_fixed_value [OF x(1), of 3] by metis
qed

text \<open>Billionths with six decimals are rounded to the nearest.\<close>

lemma billionths_rounded:
  assumes "n < 2 ^ 53"
  shows "\<exists>i. format_fixed 6 (double_div (double_of_nat n) (double_of_nat 1000000000)) = fixed_point 6 i
    \<and> \<bar>1000 * int i - int n\<bar> \<le> 500"
proof -
  let ?x = "double_div (double_of_nat n) (double_of_nat 1000000000)"
  have x: "is_finite ?x" "\<bar>double_value ?x - real n / 1000000000\<bar> \<le> real n / 1000000000 / 2 ^ 53"
    using double_div_nats [of n 1000000000] assms by simp_all
  obtain i where i: "format_fixed 6 ?x = fixed_point 6 i" "\<bar>real i - double_value ?x * 10 ^ 6\<bar> \<le> 1 / 2"
    using format_fixed_value [OF x(1)] by metis
  have "real n < real (2 ^ 53)" using assms by (simp only: of_nat_less_iff)
  then have "real n / 1000000000 / 2 ^ 53 < 1 / 1000000000" by simp
  moreover have "\<bar>real i - double_value ?x * 1000000\<bar> \<le> 1 / 2" using i(2) by simp
  ultimately have "\<bar>1000 * real i - real n\<bar> < 501" using x(2) by linarith
  then have "\<bar>1000 * int i - int n\<bar> < 501" by linarith
  then show ?thesis using i(1) by (intro exI [of _ i]) simp
qed

text \<open>A rate: the quotient of an integer by a rounded number of seconds.\<close>

lemma rate_error:
  fixes x s t q n u :: real
  assumes u: "u = 1 / 2 ^ 53" and s: "0 < s" and "0 \<le> n" and "\<bar>t - s\<bar> \<le> s * u" and "\<bar>q - n / t\<bar> \<le> n / t * u"
  shows "\<bar>q - n / s\<bar> \<le> n / s / 2 ^ 51"
proof -
  define x r where "x = n / s" and "r = s / t"
  have x: "0 \<le> x" using assms by (simp add: x_def)
  have "s * u \<le> s / 2" using s by (simp add: u)
  then have t: "0 < t" "s * (1 - u) \<le> t" "t \<le> s * (1 + u)" using assms(4) s unfolding right_diff_distrib distrib_left mult_1_right by linarith+
  have nt: "n / t = x * r" using s t(1) by (simp add: x_def r_def)
  have r: "1 - u \<le> r" "r \<le> 1 + 2 * u"
  proof -
    have "t * (1 - u) \<le> s * (1 + u) * (1 - u)" using t(3) by (rule mult_right_mono) (simp add: u)
    also have "\<dots> \<le> s" using s by (simp add: u)
    finally show "1 - u \<le> r" using t(1) by (simp add: r_def field_simps)
    have "s \<le> s * (1 - u) * (1 + 2 * u)" using s by (simp add: u)
    also have "\<dots> \<le> t * (1 + 2 * u)" using t(2) by (rule mult_right_mono) (simp add: u)
    finally show "r \<le> 1 + 2 * u" using t(1) by (simp add: r_def field_simps)
  qed
  have q: "x * r * (1 - u) \<le> q" "q \<le> x * r * (1 + u)" using assms(5) by (auto simp: nt algebra_simps abs_le_iff)
  have "x * ((1 + 2 * u) * (1 + u)) \<le> x * (1 + 4 * u)" using x by (intro mult_left_mono) (simp_all add: u)
  moreover have "x * r * (1 + u) \<le> x * (1 + 2 * u) * (1 + u)" using x r(2) by (intro mult_right_mono mult_left_mono) (simp_all add: u)
  ultimately have up: "q \<le> x * (1 + 4 * u)" using q(2) by (simp add: mult.assoc)
  have "x * (1 - 4 * u) \<le> x * ((1 - u) * (1 - u))" using x by (intro mult_left_mono) (simp_all add: u)
  moreover have "x * (1 - u) * (1 - u) \<le> x * r * (1 - u)" using x r(1) by (intro mult_right_mono mult_left_mono) (simp_all add: u)
  ultimately have "x * (1 - 4 * u) \<le> q" using q(1) by (simp add: mult.assoc)
  then have "\<bar>q - x\<bar> \<le> x * (4 * u)" using up by (simp add: algebra_simps abs_le_iff)
  moreover have "x * (4 * u) = x / 2 ^ 51" by (simp add: u)
  ultimately show ?thesis by (simp add: x_def)
qed

lemma rate_text:
  assumes "n < 2 ^ 53" and "0 < ns" and "ns < 2 ^ 53"
  shows "\<exists>c. format_fixed 2 (double_div (double_of_nat n) (double_div (double_of_nat ns) (double_of_nat 1000000000)))
      = fixed_point 2 c
    \<and> \<bar>real c / 100 - real n * 10 ^ 9 / real ns\<bar> \<le> 1 / 200 + real n * 10 ^ 9 / real ns / 2 ^ 51"
proof -
  let ?t = "double_div (double_of_nat ns) (double_of_nat 1000000000)"
  let ?q = "double_div (double_of_nat n) ?t"
  have t: "is_finite ?t" "\<bar>double_value ?t - real ns / 10 ^ 9\<bar> \<le> real ns / 10 ^ 9 / 2 ^ 53"
    using double_div_nats [of ns 1000000000] assms by simp_all
  have "real ns / 10 ^ 9 / 2 ^ 53 < real ns / 10 ^ 9" using assms(2) by simp
  then have pos: "0 < double_value ?t" using t(2) by linarith
  note q = double_div_value [OF double_of_nat_finite t(1) pos, of n, unfolded double_of_nat_exact [OF assms(1)]]
  have "\<bar>double_value ?q - real n / (real ns / 10 ^ 9)\<bar> \<le> real n / (real ns / 10 ^ 9) / 2 ^ 51"
    by (rule rate_error [OF refl]) (use assms(2) t(2) q(2) in simp_all)
  then have q': "\<bar>double_value ?q - real n * 10 ^ 9 / real ns\<bar> \<le> real n * 10 ^ 9 / real ns / 2 ^ 51" by simp
  obtain c where c: "format_fixed 2 ?q = fixed_point 2 c" "\<bar>real c - double_value ?q * 10 ^ 2\<bar> \<le> 1 / 2"
    using format_fixed_value [OF q(1)] by metis
  have "\<bar>real c - double_value ?q * 100\<bar> \<le> 1 / 2" using c(2) by simp
  then have "\<bar>real c / 100 - double_value ?q\<bar> \<le> 1 / 200" by linarith
  then have "\<bar>real c / 100 - real n * 10 ^ 9 / real ns\<bar> \<le> 1 / 200 + real n * 10 ^ 9 / real ns / 2 ^ 51"
    using q' by linarith
  then show ?thesis using c(1) by blast
qed

text \<open>No time at all has the rate \<open>inf\<close>.\<close>

lemma rate_infinite:
  assumes "0 < n" and "n < 2 ^ 53"
  shows "format_fixed 2 (double_div (double_of_nat n) (double_div (double_of_nat 0) (double_of_nat 1000000000))) = ''inf''"
proof -
  have "bitlen 1 = 1" using bitlen_twopow_add_eq [of 0 0] by simp
  have ten: "0 < double_value (double_of_nat 1000000000)" by (subst double_of_nat_exact) simp_all
  obtain m e m' e' where d: "double_of_nat 1000000000 = Finite m e" "double_of_nat n = Finite m' e'"
    using double_of_nat_finite by metis
  have "m \<noteq> 0" using ten unfolding d(1) by (cases "m = 0") simp_all
  moreover have "m' \<noteq> 0" using double_of_nat_exact [OF assms(2)] assms(1) unfolding d(2) by (cases "m' = 0") simp_all
  moreover have "double_of_nat 0 = Finite 0 0" by (simp add: double_of_nat_def double_of_ratio_def)
  ultimately show ?thesis by (simp add: d case_prod_unfold double_of_ratio_def scale_def)
qed

end
