(* ===== verification/Benchmark.thy ===== *)
theory Benchmark
  imports Backends RandomEngine Doubles
begin

text \<open>
  The benchmark program (benchmark/src/main.cpp): its options, the operations of a workload, one
  operation with its check, the preparation of the store, the division of the operations between the
  workers, and the report.

  A worker is here the sequence of operations of its thread on its own connection; the threads themselves,
  with their barriers, are in \<open>BenchmarkThreads\<close>.  What the clock shows is an argument, in nanoseconds.
\<close>

section \<open>Options\<close>

datatype workload = Workload_Ping | Workload_Set | Workload_Get_Hit | Workload_Get_Miss | Workload_Del_Hit
  | Workload_Mixed

record benchmark_options =
  bo_backend :: "backend_kind option"
  bo_workload :: "workload option"
  bo_host :: string
  bo_port :: int
  bo_port_set :: bool
  bo_clients :: int
  bo_requests :: int
  bo_warmup :: int
  bo_keyspace :: int
  bo_value_size :: int
  bo_get_ratio :: int
  bo_seed :: int

definition default_benchmark_options :: benchmark_options where
  "default_benchmark_options =
     \<lparr>bo_backend = None, bo_workload = None, bo_host = ''127.0.0.1'', bo_port = 0, bo_port_set = False,
      bo_clients = 1, bo_requests = 100000, bo_warmup = 10000, bo_keyspace = 10000, bo_value_size = 256,
      bo_get_ratio = 80, bo_seed = 1\<rparr>"

text \<open>The template at its types \<open>int\<close>, \<open>unsigned\<close> and \<open>std::size_t\<close> or \<open>std::uint64_t\<close>, by their
  ranges.\<close>

definition parse_number :: "int \<Rightarrow> int \<Rightarrow> string \<Rightarrow> int \<Rightarrow> bool \<times> int" where
  "parse_number lowest highest input out =
     (let (ec, ptr, n) = from_chars lowest highest input out in (ec = No_Error \<and> ptr = length input, n))"

definition parse_int where "parse_int = parse_number (- (2 ^ 31)) (2 ^ 31 - 1)"
definition parse_unsigned where "parse_unsigned = parse_number 0 (2 ^ 32 - 1)"
definition parse_size where "parse_size = parse_number 0 (2 ^ 64 - 1)"

definition parse_workload :: "string \<Rightarrow> workload option" where
  "parse_workload input =
     (if input = ''ping'' then Some Workload_Ping
      else if input = ''set'' then Some Workload_Set
      else if input = ''get-hit'' then Some Workload_Get_Hit
      else if input = ''get-miss'' then Some Workload_Get_Miss
      else if input = ''del-hit'' then Some Workload_Del_Hit
      else if input = ''mixed'' then Some Workload_Mixed
      else None)"

fun workload_name :: "workload \<Rightarrow> string" where
  "workload_name Workload_Ping = ''ping''"
| "workload_name Workload_Set = ''set''"
| "workload_name Workload_Get_Hit = ''get-hit''"
| "workload_name Workload_Get_Miss = ''get-miss''"
| "workload_name Workload_Del_Hit = ''del-hit''"
| "workload_name Workload_Mixed = ''mixed''"

text \<open>\<open>if (!parse_number(value, field) || ...) return unexpected\<close>.\<close>

definition checked ::
  "bool \<times> int \<Rightarrow> (int \<Rightarrow> bool) \<Rightarrow> string \<Rightarrow> (int \<Rightarrow> benchmark_options) \<Rightarrow> string + benchmark_options" where
  "checked parsed valid msg update =
     (if \<not> fst parsed \<or> \<not> valid (snd parsed) then Inl msg else Inr (update (snd parsed)))"

definition parse_option :: "string \<Rightarrow> string \<Rightarrow> benchmark_options \<Rightarrow> string + benchmark_options" where
  "parse_option argument val options =
     (if argument = ''--backend'' then
        (if val = ''attokv'' then Inr (options\<lparr>bo_backend := Some Backend_Attokv\<rparr>)
         else if val = ''redis'' then Inr (options\<lparr>bo_backend := Some Backend_Redis\<rparr>)
         else Inl (''Invalid backend: '' @ val))
      else if argument = ''--workload'' then
        (if parse_workload val = None then Inl (''Invalid workload: '' @ val)
         else Inr (options\<lparr>bo_workload := parse_workload val\<rparr>))
      else if argument = ''--host'' then Inr (options\<lparr>bo_host := val\<rparr>)
      else if argument = ''--port'' then
        checked (parse_int val (bo_port options)) (\<lambda>n. \<not> (n < 1 \<or> n > 65535)) (''Invalid port: '' @ val)
          (\<lambda>n. options\<lparr>bo_port := n, bo_port_set := True\<rparr>)
      else if argument = ''--clients'' then
        checked (parse_size val (bo_clients options)) (\<lambda>n. n \<noteq> 0) (''Invalid client count: '' @ val)
          (\<lambda>n. options\<lparr>bo_clients := n\<rparr>)
      else if argument = ''--requests'' then
        checked (parse_size val (bo_requests options)) (\<lambda>n. n \<noteq> 0) (''Invalid request count: '' @ val)
          (\<lambda>n. options\<lparr>bo_requests := n\<rparr>)
      else if argument = ''--warmup'' then
        checked (parse_size val (bo_warmup options)) (\<lambda>n. True) (''Invalid warmup count: '' @ val)
          (\<lambda>n. options\<lparr>bo_warmup := n\<rparr>)
      else if argument = ''--keyspace'' then
        checked (parse_size val (bo_keyspace options)) (\<lambda>n. n \<noteq> 0) (''Invalid keyspace: '' @ val)
          (\<lambda>n. options\<lparr>bo_keyspace := n\<rparr>)
      else if argument = ''--value-size'' then
        checked (parse_size val (bo_value_size options)) (\<lambda>n. n \<noteq> 0) (''Invalid value size: '' @ val)
          (\<lambda>n. options\<lparr>bo_value_size := n\<rparr>)
      else if argument = ''--get-ratio'' then
        checked (parse_unsigned val (bo_get_ratio options)) (\<lambda>n. \<not> n > 100) (''Invalid GET ratio: '' @ val)
          (\<lambda>n. options\<lparr>bo_get_ratio := n\<rparr>)
      else if argument = ''--seed'' then
        checked (parse_size val (bo_seed options)) (\<lambda>n. True) (''Invalid seed: '' @ val)
          (\<lambda>n. options\<lparr>bo_seed := n\<rparr>)
      else Inl (''Unknown option: '' @ argument))"

definition finish_options :: "benchmark_options \<Rightarrow> string + bool \<times> benchmark_options" where
  "finish_options options =
     (if bo_backend options = None then Inl ''--backend is required''
      else if bo_workload options = None then Inl ''--workload is required''
      else Inr (False,
        if \<not> bo_port_set options then
          options\<lparr>bo_port := if bo_backend options = Some Backend_Attokv then 6337 else 6379\<rparr>
        else options))"

fun parse_options :: "string list \<Rightarrow> benchmark_options \<Rightarrow> string + bool \<times> benchmark_options" where
  "parse_options [] options = finish_options options"
| "parse_options [argument] options =
     (if argument = ''--help'' then Inr (True, options) else Inl (''Missing value for '' @ argument))"
| "parse_options (argument # val # args) options =
     (if argument = ''--help'' then Inr (True, options)
      else case parse_option argument val options of
          Inl e \<Rightarrow> Inl e
        | Inr options' \<Rightarrow> parse_options args options')"

section \<open>Operations\<close>

datatype operation_kind = Op_Ping | Op_Set | Op_Get_Hit | Op_Get_Miss | Op_Remove

record operation =
  op_kind :: operation_kind
  op_key :: string

text \<open>The loop from operation \<open>i\<close> on, for \<open>n\<close> more; \<open>random() % keyspace\<close> has a keyspace that is not 0
  (\<open>options_ok\<close> below).\<close>

fun generate_loop ::
  "benchmark_options \<Rightarrow> string \<Rightarrow> nat \<Rightarrow> nat \<Rightarrow> engine \<Rightarrow> operation list" where
  "generate_loop options phase i 0 g = []"
| "generate_loop options phase i (Suc n) g =
     (let (number, g1) = mt_draw g; key_number = unat number mod nat (bo_keyspace options);
          rest = generate_loop options phase (Suc i) n
      in case the (bo_workload options) of
           Workload_Ping \<Rightarrow> \<lparr>op_kind = Op_Ping, op_key = []\<rparr> # rest g1
         | Workload_Set \<Rightarrow> \<lparr>op_kind = Op_Set, op_key = ''key:'' @ digits key_number\<rparr> # rest g1
         | Workload_Get_Hit \<Rightarrow> \<lparr>op_kind = Op_Get_Hit, op_key = ''key:'' @ digits key_number\<rparr> # rest g1
         | Workload_Get_Miss \<Rightarrow> \<lparr>op_kind = Op_Get_Miss, op_key = ''missing:'' @ digits key_number\<rparr> # rest g1
         | Workload_Del_Hit \<Rightarrow>
             \<lparr>op_kind = Op_Remove, op_key = ''delete:'' @ phase @ '':'' @ digits i\<rparr> # rest g1
         | Workload_Mixed \<Rightarrow>
             (let (choice, g2) = mt_draw g1
              in \<lparr>op_kind = if unat choice mod 100 < nat (bo_get_ratio options) then Op_Get_Hit else Op_Set,
                  op_key = ''key:'' @ digits key_number\<rparr> # rest g2))"

definition generate_operations ::
  "benchmark_options \<Rightarrow> nat \<Rightarrow> u64 \<Rightarrow> string \<Rightarrow> operation list" where
  "generate_operations options count seed phase =
     generate_loop options phase 0 count (mt19937_64 seed)"

definition execute :: "'s backend \<Rightarrow> operation \<Rightarrow> string \<Rightarrow> ('s, unit) io" where
  "execute be operation val =
     (case op_kind operation of
        Op_Ping \<Rightarrow> be_ping be
      | Op_Set \<Rightarrow> be_set be (op_key operation) val
      | Op_Get_Hit \<Rightarrow>
          io_map (\<lambda>result. case result of
                    Inl e \<Rightarrow> Inl e
                  | Inr None \<Rightarrow> Inl (''Expected key to exist: '' @ op_key operation)
                  | Inr (Some v) \<Rightarrow>
                      if v \<noteq> val then Inl (''Unexpected value for key: '' @ op_key operation) else Inr ())
            (be_get be (op_key operation))
      | Op_Get_Miss \<Rightarrow>
          io_map (\<lambda>result. case result of
                    Inl e \<Rightarrow> Inl e
                  | Inr (Some v) \<Rightarrow> Inl (''Expected key to be missing: '' @ op_key operation)
                  | Inr None \<Rightarrow> Inr ())
            (be_get be (op_key operation))
      | Op_Remove \<Rightarrow>
          io_map (\<lambda>result. case result of
                    Inl e \<Rightarrow> Inl e
                  | Inr b \<Rightarrow>
                      if \<not> b then Inl (''Expected key to be removed: '' @ op_key operation) else Inr ())
            (be_remove be (op_key operation)))"

fun set_keys :: "'s backend \<Rightarrow> string list \<Rightarrow> string \<Rightarrow> ('s, unit) io" where
  "set_keys be [] val = (\<lambda>s. Some (Inr (), s))"
| "set_keys be (key # keys) val = io_bind (be_set be key val) (\<lambda>_. set_keys be keys val)"

text \<open>The keys that \<open>prepare\<close> sets.\<close>

definition prepared_keys :: "benchmark_options \<Rightarrow> operation list \<Rightarrow> string list" where
  "prepared_keys options operations =
     (if the (bo_workload options) = Workload_Get_Hit \<or> the (bo_workload options) = Workload_Mixed then
        map (\<lambda>i. ''key:'' @ digits i) [0..<nat (bo_keyspace options)]
      else if the (bo_workload options) = Workload_Del_Hit then map op_key operations
      else [])"

definition prepare ::
  "'s backend \<Rightarrow> benchmark_options \<Rightarrow> operation list \<Rightarrow> string \<Rightarrow> ('s, unit) io" where
  "prepare be options operations val =
     io_bind (be_flush be) (\<lambda>_. set_keys be (prepared_keys options operations) val)"

section \<open>A phase\<close>

text \<open>The slices of the workers: \<open>k\<close> more from \<open>worker\<close> on, the next one at \<open>offset\<close>.\<close>

fun worker_slices :: "nat \<Rightarrow> 'a list \<Rightarrow> nat \<Rightarrow> nat \<Rightarrow> nat \<Rightarrow> 'a list list" where
  "worker_slices clients operations worker offset 0 = []"
| "worker_slices clients operations worker offset (Suc k) =
     (let count = length operations div clients + (if worker < length operations mod clients then 1 else 0)
      in take count (drop offset operations)
         # worker_slices clients operations (Suc worker) (offset + count) k)"

text \<open>A worker, with the indices of its operations: the latencies that it records, and its error (empty
  if there is none).\<close>

fun run_worker ::
  "'s backend \<Rightarrow> string \<Rightarrow> (nat \<Rightarrow> u64) \<Rightarrow> bool \<Rightarrow> (nat \<times> operation) list \<Rightarrow> 's
    \<Rightarrow> (u64 list \<times> string \<times> 's) option" where
  "run_worker be val clock record_latency [] s = Some ([], [], s)"
| "run_worker be val clock record_latency ((i, operation) # operations) s =
     (case execute be operation val s of
        None \<Rightarrow> None
      | Some (Inl e, s') \<Rightarrow> Some ([], e, s')
      | Some (Inr _, s') \<Rightarrow>
          map_option (\<lambda>(latencies, e, s''). (if record_latency then clock i # latencies else latencies, e, s''))
            (run_worker be val clock record_latency operations s'))"

fun phase_error :: "nat \<Rightarrow> string list \<Rightarrow> string" where
  "phase_error worker [] = []"
| "phase_error worker (e # es) =
     (if e \<noteq> [] then ''Client '' @ digits worker @ '': '' @ e else phase_error (Suc worker) es)"

text \<open>The times of a phase: of operation \<open>i\<close>, and of the whole phase.\<close>

record phase_times =
  pt_latency :: "nat \<Rightarrow> u64"
  pt_elapsed :: nat

record 's phase_result =
  ph_elapsed :: nat
  ph_latencies :: "u64 list"
  ph_error :: string
  ph_sessions :: "'s list"

definition run_phase ::
  "'s backend \<Rightarrow> 's list \<Rightarrow> operation list \<Rightarrow> string \<Rightarrow> phase_times \<Rightarrow> bool \<Rightarrow> 's phase_result option" where
  "run_phase be sessions operations val timing record_latency =
     map_option (\<lambda>outcomes.
         \<lparr>ph_elapsed = pt_elapsed timing,
          ph_latencies = concat (map fst outcomes),
          ph_error = phase_error 0 (map (\<lambda>(latencies, e, s). e) outcomes),
          ph_sessions = map (\<lambda>(latencies, e, s). s) outcomes\<rparr>)
       (those (map (\<lambda>(ops, s). run_worker be val (pt_latency timing) record_latency ops s)
          (zip (worker_slices (length sessions) (enumerate 0 operations) 0 0 (length sessions)) sessions)))"

section \<open>Percentiles\<close>

definition percentile :: "u64 list \<Rightarrow> u32 \<Rightarrow> u64 run" where
  "percentile values percent =
     (let index = (word_of_nat (length values) * ucast percent + 99) div 100 - 1 :: u64
      in if unat index < length values then Inr (values ! unat index) else Inl Out_Of_Bounds)"

section \<open>The report\<close>

text \<open>The lines of the report up to the seed, and those of the times.\<close>

definition report_text :: "benchmark_options \<Rightarrow> nat \<Rightarrow> string" where
  "report_text options n =
     ''Backend: '' @ (if bo_backend options = Some Backend_Attokv then ''attokv'' else ''redis'') @ [LF]
     @ ''Endpoint: '' @ bo_host options @ '':'' @ int_text (bo_port options) @ [LF]
     @ ''Workload: '' @ workload_name (the (bo_workload options)) @ [LF]
     @ ''Clients: '' @ int_text (bo_clients options) @ [LF]
     @ ''Requests: '' @ digits n @ [LF]
     @ ''Warmup requests: '' @ int_text (bo_warmup options) @ [LF]
     @ ''Keyspace: '' @ int_text (bo_keyspace options) @ [LF]
     @ ''Value size: '' @ int_text (bo_value_size options) @ '' bytes'' @ [LF]
     @ ''GET ratio: '' @ int_text (bo_get_ratio options) @ ''%'' @ [LF]
     @ ''Seed: '' @ int_text (bo_seed options) @ [LF]"

definition microseconds :: "u64 \<Rightarrow> double" where
  "microseconds nanoseconds = double_div (double_of_nat (unat nanoseconds)) (double_of_nat 1000)"

definition print_result :: "benchmark_options \<Rightarrow> nat \<Rightarrow> u64 list \<Rightarrow> string run" where
  "print_result options elapsed latencies =
     (let seconds = double_div (double_of_nat elapsed) (double_of_nat 1000000000);
          operations_per_second = double_div (double_of_nat (length latencies)) seconds
      in bind_run (percentile latencies 50) (\<lambda>p50.
         bind_run (percentile latencies 95) (\<lambda>p95.
         bind_run (percentile latencies 99) (\<lambda>p99.
           if latencies = [] then Inl Out_Of_Bounds
           else Inr (report_text options (length latencies)
             @ ''Elapsed: '' @ format_fixed 6 seconds @ '' s'' @ [LF]
             @ ''Throughput: '' @ format_fixed 2 operations_per_second @ '' operations/s'' @ [LF]
             @ ''Latency: p50='' @ format_fixed 3 (microseconds p50)
             @ '' us p95='' @ format_fixed 3 (microseconds p95)
             @ '' us p99='' @ format_fixed 3 (microseconds p99)
             @ '' us max='' @ format_fixed 3 (microseconds (last latencies)) @ '' us'' @ [LF])))))"

section \<open>The program\<close>

text \<open>
  With the control connection and those of the clients; \<open>Inl\<close> is the message with which the program ends
  with exit code 1, \<open>Inr\<close> the report, whose computation may fault.  The connections that exist at the end
  come with it, in the order in which they are destroyed.
\<close>

definition benchmark_measure ::
  "'s backend \<Rightarrow> phase_times \<Rightarrow> benchmark_options \<Rightarrow> operation list \<Rightarrow> string \<Rightarrow> 's \<Rightarrow> 's list
    \<Rightarrow> ((string + string run) \<times> 's list) option" where
  "benchmark_measure be timing options operations val control sessions =
     (case prepare be options operations val control of
        None \<Rightarrow> None
      | Some (Inl e, control') \<Rightarrow> Some (Inl (''Failed to prepare benchmark: '' @ e), control' # sessions)
      | Some (Inr _, control') \<Rightarrow>
          map_option (\<lambda>result.
              (if ph_error result \<noteq> [] then Inl (''Benchmark failed: '' @ ph_error result)
               else if int (length (ph_latencies result)) \<noteq> bo_requests options then
                 Inl ''Benchmark completed an unexpected number of requests''
               else Inr (print_result options (ph_elapsed result) (sort (ph_latencies result))),
               control' # ph_sessions result))
            (run_phase be sessions operations val timing True))"

definition benchmark_run ::
  "'s backend \<Rightarrow> phase_times \<Rightarrow> benchmark_options \<Rightarrow> string \<Rightarrow> operation list \<Rightarrow> operation list
    \<Rightarrow> 's \<Rightarrow> 's list \<Rightarrow> ((string + string run) \<times> 's list) option" where
  "benchmark_run be timing options val warmup_operations operations control sessions =
     (if warmup_operations \<noteq> [] then
        (case prepare be options warmup_operations val control of
           None \<Rightarrow> None
         | Some (Inl e, control') \<Rightarrow> Some (Inl (''Failed to prepare warmup: '' @ e), control' # sessions)
         | Some (Inr _, control') \<Rightarrow>
             (case run_phase be sessions warmup_operations val timing False of
                None \<Rightarrow> None
              | Some warmup \<Rightarrow>
                  if ph_error warmup \<noteq> [] then
                    Some (Inl (''Warmup failed: '' @ ph_error warmup), control' # ph_sessions warmup)
                  else benchmark_measure be timing options operations val control' (ph_sessions warmup)))
      else benchmark_measure be timing options operations val control sessions)"

text \<open>The connections of the clients: \<open>n\<close> more from number \<open>i\<close> on; \<open>fresh i\<close> is the session of a new
  backend, \<open>calls i\<close> what the kernel answers.  After an error the connections made so far are destroyed.\<close>

fun connect_backends ::
  "'s backend \<Rightarrow> (nat \<Rightarrow> connect_calls) \<Rightarrow> (nat \<Rightarrow> 's) \<Rightarrow> benchmark_options \<Rightarrow> nat \<Rightarrow> nat
    \<Rightarrow> ((string + unit) \<times> 's list) option" where
  "connect_backends be calls fresh options i 0 = Some (Inr (), [])"
| "connect_backends be calls fresh options i (Suc n) =
     (case be_connect be (calls i) (bo_host options) (bo_port options) (fresh i) of
        None \<Rightarrow> None
      | Some (Inl e, s) \<Rightarrow> Some (Inl (''Failed to connect client '' @ digits i @ '': '' @ e), [s])
      | Some (Inr _, s) \<Rightarrow>
          map_option (\<lambda>(res, sessions). (res, s # sessions))
            (connect_backends be calls fresh options (Suc i) n))"

text \<open>\<open>main\<close> from the parsed options on; the control connection comes after those of the clients.\<close>

definition benchmark_start ::
  "'s backend \<Rightarrow> phase_times \<Rightarrow> (nat \<Rightarrow> connect_calls) \<Rightarrow> (nat \<Rightarrow> 's) \<Rightarrow> benchmark_options
    \<Rightarrow> ((string + string run) \<times> 's list) option" where
  "benchmark_start be timing calls fresh options =
     (let val = replicate (nat (bo_value_size options)) CHR ''x'';
          seed = word_of_int (bo_seed options) :: u64;
          warmup_operations = generate_operations options (nat (bo_warmup options))
            (seed XOR 0x9e3779b97f4a7c15) ''warmup'';
          operations = generate_operations options (nat (bo_requests options)) seed ''measured'';
          clients = nat (bo_clients options)
      in case connect_backends be calls fresh options 0 clients of
           None \<Rightarrow> None
         | Some (Inl e, sessions) \<Rightarrow> Some (Inl e, sessions)
         | Some (Inr _, sessions) \<Rightarrow>
             (case be_connect be (calls clients) (bo_host options) (bo_port options) (fresh clients) of
                None \<Rightarrow> None
              | Some (Inl e, control) \<Rightarrow>
                  Some (Inl (''Failed to connect control client: '' @ e), control # sessions)
              | Some (Inr _, control) \<Rightarrow>
                  benchmark_run be timing options val warmup_operations operations control sessions))"

definition benchmark_usage :: console where
  "benchmark_usage = Out
     (''Usage: attokv_benchmark --backend <attokv|redis> --workload <name> [options]'' @ [LF]
      @ [LF] @ ''Workloads: ping, set, get-hit, get-miss, del-hit, mixed'' @ [LF]
      @ ''Options:'' @ [LF]
      @ ''  --host <IPv4 address>  Default: 127.0.0.1'' @ [LF]
      @ ''  --port <port>          Default: 6337 for AttoKV, 6379 for Redis'' @ [LF]
      @ ''  --clients <count>      Default: 1'' @ [LF]
      @ ''  --requests <count>     Default: 100000'' @ [LF]
      @ ''  --warmup <count>       Default: 10000'' @ [LF]
      @ ''  --keyspace <count>     Default: 10000'' @ [LF]
      @ ''  --value-size <bytes>   Default: 256'' @ [LF]
      @ ''  --get-ratio <0-100>    Mixed workload GET percentage; default: 80'' @ [LF]
      @ ''  --seed <number>        Default: 1'' @ [LF])"

text \<open>How the program ends: with a message on standard error and exit code 1, or with the report.\<close>

fun benchmark_end :: "string + string run \<Rightarrow> (nat \<times> console list) run" where
  "benchmark_end (Inl e) = Inr (1, [Err (e @ [LF])])"
| "benchmark_end (Inr report) = bind_run report (\<lambda>report. Inr (0, [Out report]))"

text \<open>\<open>main\<close>: the exit code and what is printed, and the descriptors that every backend leaves when it has
  been destroyed.\<close>

definition benchmark_finish ::
  "'s backend \<Rightarrow> (string + string run) \<times> 's list \<Rightarrow> (nat \<times> console list) run \<times> os list" where
  "benchmark_finish be = (\<lambda>(result, sessions). (benchmark_end result, map (be_destroy be) sessions))"

definition benchmark_main ::
  "(int \<Rightarrow> string) \<Rightarrow> phase_times \<Rightarrow> (nat \<Rightarrow> connect_calls) \<Rightarrow> (nat \<Rightarrow> client session) \<Rightarrow> (nat \<Rightarrow> socket session)
    \<Rightarrow> string list \<Rightarrow> ((nat \<times> console list) run \<times> os list) option" where
  "benchmark_main strerror timing calls atto_fresh redis_fresh args =
     (case parse_options args default_benchmark_options of
        Inl e \<Rightarrow> Some (Inr (1, [Err (e @ [LF]), benchmark_usage]), [])
      | Inr (help, options) \<Rightarrow>
          if help then Some (Inr (0, [benchmark_usage]), [])
          else case make_backend strerror (the (bo_backend options)) of
                 Inl be \<Rightarrow> map_option (benchmark_finish be) (benchmark_start be timing calls atto_fresh options)
               | Inr be \<Rightarrow> map_option (benchmark_finish be) (benchmark_start be timing calls redis_fresh options))"

section \<open>The options\<close>

lemma from_chars_range:
  "from_chars lowest highest s p = (No_Error, ptr, n) \<Longrightarrow> lowest \<le> n \<and> n \<le> highest"
  by (auto simp: from_chars_def Let_def split: if_splits)

lemma parse_number_range: "fst (parse_number lowest highest s p) \<Longrightarrow>
    lowest \<le> snd (parse_number lowest highest s p) \<and> snd (parse_number lowest highest s p) \<le> highest"
  using from_chars_range [of lowest highest s p] by (auto simp: parse_number_def Let_def split: prod.splits)

lemma parse_workload_name: "parse_workload s = Some w \<longleftrightarrow> s = workload_name w"
  by (cases w) (auto simp: parse_workload_def)

text \<open>What the loop keeps of the options, and what holds when the program goes on.\<close>

definition ranges_ok :: "benchmark_options \<Rightarrow> bool" where
  "ranges_ok o1 \<longleftrightarrow> (bo_port_set o1 \<longrightarrow> 1 \<le> bo_port o1 \<and> bo_port o1 \<le> 65535)
     \<and> 1 \<le> bo_clients o1 \<and> bo_clients o1 < 2 ^ 64 \<and> 1 \<le> bo_requests o1 \<and> bo_requests o1 < 2 ^ 64
     \<and> 0 \<le> bo_warmup o1 \<and> bo_warmup o1 < 2 ^ 64 \<and> 1 \<le> bo_keyspace o1 \<and> bo_keyspace o1 < 2 ^ 64
     \<and> 1 \<le> bo_value_size o1 \<and> bo_value_size o1 < 2 ^ 64 \<and> 0 \<le> bo_get_ratio o1 \<and> bo_get_ratio o1 \<le> 100
     \<and> 0 \<le> bo_seed o1 \<and> bo_seed o1 < 2 ^ 64"

definition options_ok :: "benchmark_options \<Rightarrow> bool" where
  "options_ok o1 \<longleftrightarrow> ranges_ok o1 \<and> bo_backend o1 \<noteq> None \<and> bo_workload o1 \<noteq> None
     \<and> 1 \<le> bo_port o1 \<and> bo_port o1 \<le> 65535"

lemma parse_size_range: "fst (parse_size s p) \<Longrightarrow> 0 \<le> snd (parse_size s p) \<and> snd (parse_size s p) < 2 ^ 64"
  using parse_number_range [of 0 "2 ^ 64 - 1" s p] by (simp add: parse_size_def)

lemma parse_unsigned_range: "fst (parse_unsigned s p) \<Longrightarrow> 0 \<le> snd (parse_unsigned s p)"
  using parse_number_range [of 0 "2 ^ 32 - 1" s p] by (simp add: parse_unsigned_def)

lemma if_cases: "(if c then x else y) = z \<Longrightarrow> (x = z \<Longrightarrow> P) \<Longrightarrow> (y = z \<Longrightarrow> P) \<Longrightarrow> P"
  by (cases c) simp_all

lemma checked_ranges:
  assumes "checked parsed valid msg update = Inr o2"
    and "fst parsed \<Longrightarrow> valid (snd parsed) \<Longrightarrow> ranges_ok (update (snd parsed))"
  shows "ranges_ok o2"
  using assms by (auto simp: checked_def split: if_splits)

lemma ranges_ok_updates:
  assumes "ranges_ok o1"
  shows "ranges_ok (o1\<lparr>bo_backend := b\<rparr>)" "ranges_ok (o1\<lparr>bo_workload := w\<rparr>)" "ranges_ok (o1\<lparr>bo_host := h\<rparr>)"
    "1 \<le> n \<Longrightarrow> n \<le> 65535 \<Longrightarrow> ranges_ok (o1\<lparr>bo_port := n, bo_port_set := True\<rparr>)"
    "1 \<le> n \<Longrightarrow> n < 2 ^ 64 \<Longrightarrow> ranges_ok (o1\<lparr>bo_clients := n\<rparr>)"
    "1 \<le> n \<Longrightarrow> n < 2 ^ 64 \<Longrightarrow> ranges_ok (o1\<lparr>bo_requests := n\<rparr>)"
    "0 \<le> n \<Longrightarrow> n < 2 ^ 64 \<Longrightarrow> ranges_ok (o1\<lparr>bo_warmup := n\<rparr>)"
    "1 \<le> n \<Longrightarrow> n < 2 ^ 64 \<Longrightarrow> ranges_ok (o1\<lparr>bo_keyspace := n\<rparr>)"
    "1 \<le> n \<Longrightarrow> n < 2 ^ 64 \<Longrightarrow> ranges_ok (o1\<lparr>bo_value_size := n\<rparr>)"
    "0 \<le> n \<Longrightarrow> n \<le> 100 \<Longrightarrow> ranges_ok (o1\<lparr>bo_get_ratio := n\<rparr>)"
    "0 \<le> n \<Longrightarrow> n < 2 ^ 64 \<Longrightarrow> ranges_ok (o1\<lparr>bo_seed := n\<rparr>)"
  using assms by (simp_all add: ranges_ok_def)

lemma parse_option_ranges:
  assumes "parse_option argument val o1 = Inr o2" and "ranges_ok o1"
  shows "ranges_ok o2"
proof -
  have size: "fst (parse_size val p) \<Longrightarrow> snd (parse_size val p) \<noteq> 0 \<Longrightarrow> 1 \<le> snd (parse_size val p)" for p
    using parse_size_range [of val p] by linarith
  have port: "\<not> (n < 1 \<or> n > 65535) \<Longrightarrow> 1 \<le> n \<and> n \<le> 65535" for n :: int by linarith
  note up = ranges_ok_updates [OF assms(2)]
  from assms(1) show ?thesis
    unfolding parse_option_def
    by (elim if_cases)
      (auto intro: up size elim!: checked_ranges simp: parse_int_def
        dest: port parse_size_range parse_unsigned_range)
qed

lemma parse_options_ok:
  "parse_options args o1 = Inr (False, o2) \<Longrightarrow> ranges_ok o1 \<Longrightarrow> options_ok o2"
proof (induction args o1 rule: parse_options.induct)
  case (1 options)
  then show ?case by (auto simp: finish_options_def options_ok_def ranges_ok_def split: if_splits)
next
  case (2 argument options)
  then show ?case by (simp split: if_splits)
next
  case (3 argument val args options)
  then show ?case using parse_option_ranges [of argument val options] by (auto split: if_splits sum.splits)
qed

lemma default_options_ranges: "ranges_ok default_benchmark_options"
  by (simp add: ranges_ok_def default_benchmark_options_def)

section \<open>The slices of the workers\<close>

lemma worker_slices_concat:
  assumes "worker + k = clients" and "0 < clients"
    and "offset = worker * (length ops div clients) + min worker (length ops mod clients)"
  shows "concat (worker_slices clients ops worker offset k) = drop offset ops"
  using assms
proof (induction k arbitrary: worker offset)
  case 0
  have "length ops mod clients \<le> clients" using assms(2) by (simp add: less_imp_le)
  then have "offset = length ops" using 0 by (simp add: min_absorb2)
  then show ?case by simp
next
  case (Suc k)
  let ?count = "length ops div clients + (if worker < length ops mod clients then 1 else 0)"
  have "concat (worker_slices clients ops (Suc worker) (offset + ?count) k) = drop (offset + ?count) ops"
    using Suc.prems by (intro Suc.IH) auto
  moreover have "take n (drop offset ops) @ drop (offset + n) ops = drop offset ops" for n
    by (metis add.commute append_take_drop_id drop_drop)
  ultimately show ?case by (simp only: worker_slices.simps Let_def concat.simps)
qed

lemma worker_slices_map:
  "map (map f) (worker_slices clients ops worker offset k) = worker_slices clients (map f ops) worker offset k"
  by (induction k arbitrary: worker offset) (simp_all add: Let_def take_map drop_map)

lemma length_worker_slices [simp]: "length (worker_slices clients ops worker offset k) = k"
  by (induction k arbitrary: worker offset) (simp_all add: Let_def)

lemma worker_slices_all:
  "0 < clients \<Longrightarrow> concat (worker_slices clients ops 0 0 clients) = ops"
  using worker_slices_concat [of 0 clients clients 0 ops] by simp

lemma worker_slices_balanced:
  assumes "worker + k = clients" and "0 < clients"
    and "offset = worker * (length ops div clients) + min worker (length ops mod clients)"
    and "sl \<in> set (worker_slices clients ops worker offset k)"
  shows "length sl = length ops div clients \<or> length sl = length ops div clients + 1"
  using assms
proof (induction k arbitrary: worker offset)
  case 0
  then show ?case by simp
next
  case (Suc k)
  let ?q = "length ops div clients" and ?r = "length ops mod clients"
  let ?count = "?q + (if worker < ?r then 1 else 0)"
  have "worker * ?q + ?q \<le> clients * ?q" using Suc.prems(1) by (metis add_Suc_right mult_Suc mult_le_mono1 le_add1 add.commute add_Suc)
  moreover have "min worker ?r + (if worker < ?r then 1 else 0) \<le> ?r" by (simp add: min_def)
  moreover have "clients * ?q + ?r = length ops" by simp
  ultimately have fits: "offset + ?count \<le> length ops" using Suc.prems(3) by linarith
  have "sl = take ?count (drop offset ops)
      \<or> sl \<in> set (worker_slices clients ops (Suc worker) (offset + ?count) k)"
    using Suc.prems(4) by (simp add: Let_def)
  then show ?case
  proof
    assume "sl = take ?count (drop offset ops)"
    then show ?thesis using fits by simp
  next
    assume "sl \<in> set (worker_slices clients ops (Suc worker) (offset + ?count) k)"
    then show ?thesis using Suc.prems(1-3) by (intro Suc.IH) auto
  qed
qed

section \<open>Percentiles\<close>

lemma rank_bounds:
  assumes "0 < (m :: nat)"
  shows "1 \<le> (m + 99) div 100" and "m \<le> 100 * Suc ((m + 99) div 100 - 1)"
    and "100 * ((m + 99) div 100 - 1) < m"
proof -
  have "m + 99 = 100 * ((m + 99) div 100) + (m + 99) mod 100" "(m + 99) mod 100 < 100" by simp_all
  then have b: "m \<le> 100 * ((m + 99) div 100)" "100 * ((m + 99) div 100) \<le> m + 99" by linarith+
  show "1 \<le> (m + 99) div 100" using b(1) assms by linarith
  then show "m \<le> 100 * Suc ((m + 99) div 100 - 1)" and "100 * ((m + 99) div 100 - 1) < m"
    using b assms by simp_all
qed

lemma percentile_index:
  assumes "0 < n" and "0 < p" and "p \<le> 100" and "n * 100 + 99 < 2 ^ 64"
  shows "unat ((word_of_nat n * ucast (word_of_nat p :: u32) + 99) div 100 - 1 :: u64) = (n * p + 99) div 100 - 1"
proof -
  have p: "unat (ucast (word_of_nat p :: u32) :: u64) = p"
    using assms(3) by (simp add: unsigned_ucast_eq unat_of_nat take_bit_nat_eq_self)
  have n: "unat (word_of_nat n :: u64) = n" using assms(4) by (simp add: unat_of_nat take_bit_nat_eq_self)
  have np: "n * p \<le> n * 100" using assms(3) by simp
  have lt: "n * p < 2 ^ 64" "n * p + 99 < 2 ^ 64" using np assms(4) by linarith+
  have m: "unat (word_of_nat n * ucast (word_of_nat p :: u32) :: u64) = n * p"
    using lt(1) unat_mult_lem [of "word_of_nat n :: u64" "ucast (word_of_nat p :: u32)"] by (simp add: n p)
  have a: "unat (word_of_nat n * ucast (word_of_nat p :: u32) + 99 :: u64) = n * p + 99"
    using lt(2) unat_add_lem [of "word_of_nat n * ucast (word_of_nat p :: u32) :: u64" 99] by (simp add: m)
  have d: "unat ((word_of_nat n * ucast (word_of_nat p :: u32) + 99) div 100 :: u64) = (n * p + 99) div 100"
    by (simp add: unat_div a)
  have "0 < n * p" using assms(1,2) by simp
  then have "1 \<le> (n * p + 99) div 100" by (rule rank_bounds)
  then have "1 \<le> ((word_of_nat n * ucast (word_of_nat p :: u32) + 99) div 100 :: u64)"
    by (simp add: word_le_nat_alt d)
  then show ?thesis by (simp add: unat_sub d)
qed

lemma percentile_ok:
  assumes "sorted values" and "values \<noteq> []" and "0 < p" and "p \<le> 100" and "length values * 100 + 99 < 2 ^ 64"
  shows "\<exists>v. percentile values (word_of_nat p) = Inr v \<and> v \<in> set values
    \<and> length values * p \<le> 100 * length (filter (\<lambda>x. x \<le> v) values)
    \<and> 100 * length (filter (\<lambda>x. x < v) values) < length values * p"
proof -
  let ?n = "length values"
  define i where "i = (?n * p + 99) div 100 - 1"
  have n: "0 < ?n" using assms(2) by simp
  have np: "?n * p \<le> ?n * 100" "0 < ?n * p" using assms(3,4) n by simp_all
  have i: "?n * p \<le> 100 * Suc i" "100 * i < ?n * p"
    using rank_bounds [OF np(2)] unfolding i_def by blast+
  then have "i < ?n" using np(1) by linarith
  note i = this i
  have run: "percentile values (word_of_nat p) = Inr (values ! i)"
    using i(1) unfolding percentile_def Let_def percentile_index [OF n assms(3-5)] i_def [symmetric] by simp
  have "Suc i = card {0..i}" by simp
  also have "\<dots> \<le> card {j. j < ?n \<and> values ! j \<le> values ! i}"
    using assms(1) i(1) by (intro card_mono) (auto simp: sorted_iff_nth_mono)
  finally have le: "Suc i \<le> length (filter (\<lambda>x. x \<le> values ! i) values)"
    by (simp add: length_filter_conv_card)
  have "card {j. j < ?n \<and> values ! j < values ! i} \<le> card {0..<i}"
  proof (rule card_mono)
    show "{j. j < ?n \<and> values ! j < values ! i} \<subseteq> {0..<i}"
      using assms(1) i(1) by (auto simp: sorted_iff_nth_mono) (meson leD le_less_linear)
  qed simp
  then have lt: "length (filter (\<lambda>x. x < values ! i) values) \<le> i"
    by (simp add: length_filter_conv_card)
  show ?thesis
    using run i le lt by (intro exI [of _ "values ! i"]) (auto intro: order.trans)
qed

end
