(* ===== verification/BenchmarkRun.thy ===== *)
theory BenchmarkRun
  imports Benchmark "HOL-Library.Multiset"
begin

text \<open>
  The benchmark against a server: one operation, a worker, a phase and the whole program over the
  contract of a backend, and the answers that the workloads expect over the abstract map.
\<close>

section \<open>Operations against a backend that keeps its contract\<close>

definition op_request :: "string \<Rightarrow> operation \<Rightarrow> request" where
  "op_request val op =
     (case op_kind op of
        Op_Ping \<Rightarrow> Ping
      | Op_Set \<Rightarrow> Set_Key (op_key op) val
      | Op_Get_Hit \<Rightarrow> Get_Key (op_key op)
      | Op_Get_Miss \<Rightarrow> Get_Key (op_key op)
      | Op_Remove \<Rightarrow> Remove_Key (op_key op))"

definition op_expected :: "string \<Rightarrow> operation \<Rightarrow> response" where
  "op_expected val op =
     (case op_kind op of
        Op_Get_Hit \<Rightarrow> Found (Some val)
      | Op_Get_Miss \<Rightarrow> Found None
      | Op_Remove \<Rightarrow> Removed True
      | _ \<Rightarrow> Done)"

definition expected :: "string \<Rightarrow> operation list \<Rightarrow> (request \<times> response) list" where
  "expected val ops = map (\<lambda>op. (op_request val op, op_expected val op)) ops"

definition prepared :: "benchmark_options \<Rightarrow> operation list \<Rightarrow> string \<Rightarrow> (request \<times> response) list" where
  "prepared options ops val = (Flush, Done) # map (\<lambda>k. (Set_Key k val, Done)) (prepared_keys options ops)"

context backend_contract
begin

text \<open>What is sent for operations.\<close>

abbreviation wires :: "string \<Rightarrow> operation list \<Rightarrow> string" where
  "wires val ops \<equiv> concat (map (\<lambda>op. wire (op_request val op)) ops)"

text \<open>\<open>execute\<close> succeeds exactly when the answer is the one that the workload expects.\<close>

lemma execute_answer:
  assumes "answers ((op_request val op, a) # qs) s"
  shows "\<exists>r s'. execute be op val s = Some (r, s') \<and> answers qs s' \<and> sent s' = sent s @ wire (op_request val op)
    \<and> (r = Inr () \<longleftrightarrow> a = op_expected val op) \<and> r \<noteq> Inl []"
proof -
  from perform_ok [OF assms] obtain s' where
    s': "perform be (op_request val op) s = Some (Inr a, s')" "answers qs s'"
    "sent s' = sent s @ wire (op_request val op)" by blast
  show ?thesis
  proof (cases "op_kind op")
    case Op_Get_Hit
    then obtain v where "be_get be (op_key op) s = Some (Inr v, s')" "a = Found v"
      using s'(1) by (auto simp: op_request_def)
    then show ?thesis using s'(2,3) Op_Get_Hit
      by (cases v) (simp_all add: execute_def op_expected_def io_map_def)
  next
    case Op_Get_Miss
    then obtain v where "be_get be (op_key op) s = Some (Inr v, s')" "a = Found v"
      using s'(1) by (auto simp: op_request_def)
    then show ?thesis using s'(2,3) Op_Get_Miss
      by (cases v) (simp_all add: execute_def op_expected_def io_map_def)
  next
    case Op_Remove
    then obtain b where "be_remove be (op_key op) s = Some (Inr b, s')" "a = Removed b"
      using s'(1) by (auto simp: op_request_def)
    then show ?thesis using s'(2,3) Op_Remove
      by (cases b) (simp_all add: execute_def op_expected_def io_map_def)
  qed (use s' in \<open>auto simp: execute_def op_expected_def op_request_def\<close>)
qed

lemma run_worker_ok:
  "answers (expected val (map snd iops) @ qs) s \<Longrightarrow>
    \<exists>s'. run_worker be val clock rec iops s = Some (if rec then map (clock \<circ> fst) iops else [], [], s')
      \<and> answers qs s' \<and> sent s' = sent s @ wires val (map snd iops)"
proof (induction iops arbitrary: s)
  case Nil
  then show ?case by (simp add: expected_def)
next
  case (Cons iop iops)
  obtain i op where iop: "iop = (i, op)" by (cases iop)
  from execute_answer [of val op "op_expected val op" "expected val (map snd iops) @ qs" s] Cons.prems iop
  obtain s1 where "execute be op val s = Some (Inr (), s1)" "answers (expected val (map snd iops) @ qs) s1"
    "sent s1 = sent s @ wire (op_request val op)"
    by (auto simp: expected_def)
  with Cons.IH [of s1] iop show ?case by auto
qed

text \<open>The first answer that is not the expected one ends the worker with an error.\<close>

lemma run_worker_stops:
  "answers (expected val (map snd iops) @ (op_request val op, a) # qs) s \<Longrightarrow> a \<noteq> op_expected val op \<Longrightarrow>
    \<exists>e s'. run_worker be val clock rec (iops @ (i, op) # later) s
      = Some (if rec then map (clock \<circ> fst) iops else [], e, s') \<and> e \<noteq> []"
proof (induction iops arbitrary: s)
  case Nil
  from execute_answer [of val op a qs s] Nil obtain r s' where
    "execute be op val s = Some (r, s')" "r \<noteq> Inr ()" "r \<noteq> Inl []" by (auto simp: expected_def)
  then show ?case by (cases r) auto
next
  case (Cons iop iops)
  obtain i1 op1 where iop: "iop = (i1, op1)" by (cases iop)
  from execute_answer [of val op1 "op_expected val op1"
      "expected val (map snd iops) @ (op_request val op, a) # qs" s] Cons.prems iop
  obtain s1 where "execute be op1 val s = Some (Inr (), s1)"
    "answers (expected val (map snd iops) @ (op_request val op, a) # qs) s1" by (auto simp: expected_def)
  with Cons.IH [of s1] Cons.prems(2) iop show ?case by auto
qed

lemma set_keys_ok:
  "answers (map (\<lambda>k. (Set_Key k val, Done)) keys @ qs) s \<Longrightarrow>
    \<exists>s'. set_keys be keys val s = Some (Inr (), s') \<and> answers qs s'
      \<and> sent s' = sent s @ concat (map (\<lambda>k. wire (Set_Key k val)) keys)"
proof (induction keys arbitrary: s)
  case Nil
  then show ?case by simp
next
  case (Cons key keys)
  from set_ok [of key val Done "map (\<lambda>k. (Set_Key k val, Done)) keys @ qs" s] Cons.prems obtain s1 where
    "be_set be key val s = Some (Inr (), s1)" "answers (map (\<lambda>k. (Set_Key k val, Done)) keys @ qs) s1"
    "sent s1 = sent s @ wire (Set_Key key val)" by auto
  with Cons.IH [of s1] show ?case by (auto simp: io_bind_def)
qed

lemma prepare_ok:
  assumes "answers (prepared options ops val @ qs) s"
  shows "\<exists>s'. prepare be options ops val s = Some (Inr (), s') \<and> answers qs s'
    \<and> sent s' = sent s @ concat (map (wire \<circ> fst) (prepared options ops val))"
proof -
  from flush_ok [of Done "map (\<lambda>k. (Set_Key k val, Done)) (prepared_keys options ops) @ qs" s] assms obtain s1 where
    "be_flush be s = Some (Inr (), s1)"
    "answers (map (\<lambda>k. (Set_Key k val, Done)) (prepared_keys options ops) @ qs) s1"
    "sent s1 = sent s @ wire Flush"
    by (auto simp: prepared_def)
  with set_keys_ok [of val "prepared_keys options ops" qs s1] show ?thesis
    by (auto simp: prepare_def io_bind_def prepared_def o_def)
qed

lemma run_workers_ok:
  assumes "length opss = length sessions" and "length qss = length sessions"
    and "list_all2 (\<lambda>(iops, qs) s. answers (expected val (map snd iops) @ qs) s) (zip opss qss) sessions"
  shows "\<exists>sessions'. those (map (\<lambda>(iops, s). run_worker be val clock rec iops s) (zip opss sessions))
      = Some (map (\<lambda>(iops, s'). (if rec then map (clock \<circ> fst) iops else [], [], s')) (zip opss sessions'))
    \<and> list_all2 answers qss sessions'
    \<and> map sent sessions' = map (\<lambda>(iops, s). sent s @ wires val (map snd iops)) (zip opss sessions)"
  using assms
proof (induction sessions arbitrary: opss qss)
  case Nil
  then show ?case by (intro exI [of _ "[]"]) simp
next
  case (Cons s sessions)
  obtain ops opss1 qs qss1 where l: "opss = ops # opss1" "qss = qs # qss1"
    using Cons.prems(1,2) by (cases opss; cases qss) auto
  from run_worker_ok [of val ops qs s clock rec] Cons.prems(3) l obtain s1 where
    "run_worker be val clock rec ops s = Some (if rec then map (clock \<circ> fst) ops else [], [], s1)" "answers qs s1"
    "sent s1 = sent s @ wires val (map snd ops)"
    by auto
  moreover from Cons.IH [of opss1 qss1] Cons.prems l obtain sessions1 where
    "those (map (\<lambda>(iops, s). run_worker be val clock rec iops s) (zip opss1 sessions))
      = Some (map (\<lambda>(iops, s'). (if rec then map (clock \<circ> fst) iops else [], [], s')) (zip opss1 sessions1))"
    "list_all2 answers qss1 sessions1"
    "map sent sessions1 = map (\<lambda>(iops, s). sent s @ wires val (map snd iops)) (zip opss1 sessions)" by auto
  ultimately show ?case using l by (intro exI [of _ "s1 # sessions1"]) simp
qed

text \<open>A phase in which every answer is the expected one: no error, and the latencies in the order of the
  operations.\<close>

lemma run_phase_ok:
  assumes "sessions \<noteq> []" and "length qss = length sessions"
    and "list_all2 (\<lambda>(ops, qs) s. answers (expected val ops @ qs) s)
      (zip (worker_slices (length sessions) ops 0 0 (length sessions)) qss) sessions"
  shows "\<exists>result. run_phase be sessions ops val timing rec = Some result \<and> ph_error result = []
    \<and> ph_elapsed result = pt_elapsed timing
    \<and> ph_latencies result = (if rec then map (pt_latency timing) [0..<length ops] else [])
    \<and> list_all2 answers qss (ph_sessions result)
    \<and> map sent (ph_sessions result) = map (\<lambda>(ops, s). sent s @ wires val ops)
        (zip (worker_slices (length sessions) ops 0 0 (length sessions)) sessions)"
proof -
  let ?slices = "worker_slices (length sessions) (enumerate 0 ops) 0 0 (length sessions)"
  have "map (map snd) ?slices = worker_slices (length sessions) ops 0 0 (length sessions)"
    by (simp add: worker_slices_map)
  then have "list_all2 (\<lambda>(iops, qs) s. answers (expected val (map snd iops) @ qs) s) (zip ?slices qss) sessions"
    using assms(2,3) by (auto simp: list_all2_conv_all_nth simp flip: nth_map [of _ _ "map snd"])
  from run_workers_ok [OF _ assms(2) this, of "pt_latency timing" rec] obtain sessions' where
    w: "those (map (\<lambda>(iops, s). run_worker be val (pt_latency timing) rec iops s) (zip ?slices sessions))
      = Some (map (\<lambda>(iops, s'). (if rec then map (pt_latency timing \<circ> fst) iops else [], [], s')) (zip ?slices sessions'))"
    "list_all2 answers qss sessions'"
    "map sent sessions' = map (\<lambda>(iops, s). sent s @ wires val (map snd iops)) (zip ?slices sessions)" by auto
  have len: "length sessions' = length sessions" using w(2) assms(2) list_all2_lengthD by force
  have all: "concat ?slices = enumerate 0 ops" using assms(1) by (simp add: worker_slices_all)
  let ?outs = "map (\<lambda>(iops, s'). (if rec then map (pt_latency timing \<circ> fst) iops else [], [] :: string, s')) (zip ?slices sessions')"
  have "map fst ?outs = map (\<lambda>iops. if rec then map (pt_latency timing \<circ> fst) iops else []) (map fst (zip ?slices sessions'))"
    by (simp add: case_prod_unfold o_def)
  then have "concat (map fst ?outs) = (if rec then map (pt_latency timing \<circ> fst) (concat ?slices) else [])"
    using len by (simp add: map_concat o_def)
  then have n: "concat (map fst ?outs) = (if rec then map (pt_latency timing) [0..<length ops] else [])"
    unfolding all by (simp add: enumerate_eq_zip flip: map_map)
  have e: "phase_error k (map (\<lambda>(ls, e, s). e)
      (map (\<lambda>(iops, s'). (if rec then map (pt_latency timing \<circ> fst) iops else [], [] :: string, s')) xs)) = []" for k xs
    by (induction xs arbitrary: k) (simp_all add: case_prod_unfold)
  have s: "map (\<lambda>(ls, e, s). s) ?outs = sessions'"
  proof -
    have "map (\<lambda>(ls, e, s). s) ?outs = map snd (zip ?slices sessions')" by (simp add: case_prod_unfold)
    then show ?thesis using len by simp
  qed
  have "map (\<lambda>(iops, s). sent s @ wires val (map snd iops)) (zip ?slices sessions)
      = map (\<lambda>(ops, s). sent s @ wires val ops) (zip (map (map snd) ?slices) sessions)"
    by (simp add: zip_map1 case_prod_unfold)
  then have "map sent sessions' = map (\<lambda>(ops, s). sent s @ wires val ops)
      (zip (worker_slices (length sessions) ops 0 0 (length sessions)) sessions)"
    unfolding w(3) by (simp add: worker_slices_map)
  then show ?thesis unfolding run_phase_def w(1) using n e [of 0 "zip ?slices sessions'"] s w(2) by simp
qed

end

section \<open>What the workloads expect is what a map answers\<close>

text \<open>
  The operations can run on \<open>\<sigma>\<close> in any order: what each of them relies on holds, none of them takes it
  from another one, and all values have the length of \<open>val\<close>.
\<close>

definition relies_on :: "string \<Rightarrow> operation \<Rightarrow> string option \<Rightarrow> bool" where
  "relies_on val op v \<longleftrightarrow>
     (case op_kind op of
        Op_Get_Hit \<Rightarrow> v = Some val
      | Op_Remove \<Rightarrow> v = Some val
      | Op_Get_Miss \<Rightarrow> v = None
      | _ \<Rightarrow> True)"

definition disturbs :: "operation \<Rightarrow> operation \<Rightarrow> bool" where
  "disturbs op op' \<longleftrightarrow> op_key op = op_key op'
     \<and> (op_kind op = Op_Remove \<and> op_kind op' \<in> {Op_Get_Hit, Op_Remove}
        \<or> op_kind op = Op_Set \<and> op_kind op' = Op_Get_Miss)"

definition independent :: "operation list \<Rightarrow> bool" where
  "independent ops \<longleftrightarrow> distinct (map op_key (filter (\<lambda>op. op_kind op = Op_Remove) ops))
     \<and> (\<forall>op \<in> set ops. \<forall>op' \<in> set ops. op_kind op' \<noteq> Op_Remove \<longrightarrow> \<not> disturbs op op')"

definition uniform :: "(string \<rightharpoonup> string) \<Rightarrow> string \<Rightarrow> bool" where
  "uniform \<sigma> val \<longleftrightarrow> (\<forall>k v. \<sigma> k = Some v \<longrightarrow> length v = length val)"

definition ready :: "(string \<rightharpoonup> string) \<Rightarrow> string \<Rightarrow> operation list \<Rightarrow> bool" where
  "ready \<sigma> val ops \<longleftrightarrow> (\<forall>op \<in> set ops. relies_on val op (\<sigma> (op_key op))) \<and> independent ops \<and> uniform \<sigma> val"

lemma independent_Cons:
  assumes "independent (op # ops)"
  shows "independent ops" and "op' \<in> set ops \<Longrightarrow> \<not> disturbs op op'"
proof -
  show "independent ops" using assms by (simp add: independent_def split: if_splits)
  have all: "\<forall>a \<in> set (op # ops). \<forall>b \<in> set (op # ops). op_kind b \<noteq> Op_Remove \<longrightarrow> \<not> disturbs a b"
    using assms unfolding independent_def by blast
  show "\<not> disturbs op op'" if mem: "op' \<in> set ops"
  proof (cases "op_kind op' = Op_Remove")
    case True
    have "op_kind op = Op_Remove \<Longrightarrow> op_key op \<notin> op_key ` {b \<in> set ops. op_kind b = Op_Remove}"
      using assms by (simp add: independent_def)
    then show ?thesis using mem True by (auto simp: disturbs_def)
  next
    case False
    then show ?thesis using all mem by simp
  qed
qed

lemma relies_on_undisturbed:
  assumes "\<not> disturbs op op'" and "relies_on val op' (\<sigma> (op_key op'))"
  shows "relies_on val op' (snd (answer \<sigma> (op_request val op)) (op_key op'))"
  using assms by (cases "op_kind op"; cases "op_kind op'") (auto simp: relies_on_def disturbs_def op_request_def)

lemma ready_step:
  assumes "ready \<sigma> val (op # ops)"
  shows "fst (answer \<sigma> (op_request val op)) = op_expected val op"
    and "\<not> shrinking \<sigma> (op_request val op)"
    and "ready (snd (answer \<sigma> (op_request val op))) val ops"
proof -
  have op: "relies_on val op (\<sigma> (op_key op))" and uni: "uniform \<sigma> val" and ind: "independent (op # ops)"
    and rest: "op' \<in> set ops \<Longrightarrow> relies_on val op' (\<sigma> (op_key op'))" for op'
    using assms by (simp_all add: ready_def)
  show "fst (answer \<sigma> (op_request val op)) = op_expected val op"
    using op by (cases "op_kind op") (simp_all add: op_request_def op_expected_def relies_on_def)
  show "\<not> shrinking \<sigma> (op_request val op)"
    using uni by (cases "op_kind op") (auto simp: op_request_def shrinks_def uniform_def split: option.split)
  have "uniform (snd (answer \<sigma> (op_request val op))) val"
    using uni by (cases "op_kind op") (auto simp: op_request_def uniform_def)
  then show "ready (snd (answer \<sigma> (op_request val op))) val ops"
    using independent_Cons [OF ind] relies_on_undisturbed rest by (simp add: ready_def)
qed

lemma ready_all:
  "ready \<sigma> val ops \<Longrightarrow> fst (answer_all \<sigma> (map (op_request val) ops)) = expected val ops
    \<and> no_shrinking \<sigma> (map (op_request val) ops)"
proof (induction ops arbitrary: \<sigma>)
  case Nil
  then show ?case by (simp add: expected_def)
next
  case (Cons op ops)
  from ready_step [OF Cons.prems] Cons.IH show ?case
    by (simp add: expected_def Let_def case_prod_unfold)
qed

lemma ready_mset:
  assumes "ready \<sigma> val ops" and "mset ops' = mset ops"
  shows "ready \<sigma> val ops'"
proof -
  have "set ops' = set ops" using assms(2) by (rule mset_eq_setD)
  moreover have "mset (map op_key (filter P ops')) = mset (map op_key (filter P ops))" for P
    using assms(2) by simp
  then have "distinct (map op_key (filter P ops')) \<longleftrightarrow> distinct (map op_key (filter P ops))" for P
    by (rule mset_eq_imp_distinct_iff)
  ultimately show ?thesis using assms(1) by (simp add: ready_def independent_def)
qed

lemma answer_all_append:
  "answer_all \<sigma> (xs @ ys) =
     (fst (answer_all \<sigma> xs) @ fst (answer_all (snd (answer_all \<sigma> xs)) ys),
      snd (answer_all (snd (answer_all \<sigma> xs)) ys))"
  by (induction xs arbitrary: \<sigma>) (simp_all add: Let_def case_prod_unfold)

lemma no_shrinking_append:
  "no_shrinking \<sigma> (xs @ ys) \<longleftrightarrow> no_shrinking \<sigma> xs \<and> no_shrinking (snd (answer_all \<sigma> xs)) ys"
  by (induction xs arbitrary: \<sigma>) (simp_all add: Let_def case_prod_unfold)

text \<open>After \<open>prepare\<close>, exactly its keys hold the value.\<close>

lemma answer_all_sets:
  assumes "\<forall>k v. \<sigma> k = Some v \<longrightarrow> v = val"
  shows "fst (answer_all \<sigma> (map (\<lambda>k. Set_Key k val) keys)) = map (\<lambda>k. (Set_Key k val, Done)) keys"
    and "snd (answer_all \<sigma> (map (\<lambda>k. Set_Key k val) keys)) = (\<lambda>k. if k \<in> set keys then Some val else \<sigma> k)"
    and "no_shrinking \<sigma> (map (\<lambda>k. Set_Key k val) keys)"
proof -
  have "fst (answer_all \<sigma> (map (\<lambda>k. Set_Key k val) keys)) = map (\<lambda>k. (Set_Key k val, Done)) keys
    \<and> snd (answer_all \<sigma> (map (\<lambda>k. Set_Key k val) keys)) = (\<lambda>k. if k \<in> set keys then Some val else \<sigma> k)
    \<and> no_shrinking \<sigma> (map (\<lambda>k. Set_Key k val) keys)" using assms
  proof (induction keys arbitrary: \<sigma>)
    case Nil
    then show ?case by simp
  next
    case (Cons key keys)
    define \<sigma>1 where "\<sigma>1 = \<sigma>(key \<mapsto> val)"
    have "\<forall>k v. \<sigma>1 k = Some v \<longrightarrow> v = val" using Cons.prems by (simp add: \<sigma>1_def)
    note ih = Cons.IH [OF this]
    have "\<not> shrinks \<sigma> key val" using Cons.prems by (auto simp: shrinks_def split: option.split)
    moreover have "(\<lambda>k. if k \<in> set keys then Some val else \<sigma>1 k)
        = (\<lambda>k. if k \<in> set (key # keys) then Some val else \<sigma> k)" by (auto simp: \<sigma>1_def)
    ultimately show ?case using ih by (simp add: Let_def case_prod_unfold \<sigma>1_def [symmetric])
  qed
  then show "fst (answer_all \<sigma> (map (\<lambda>k. Set_Key k val) keys)) = map (\<lambda>k. (Set_Key k val, Done)) keys"
    and "snd (answer_all \<sigma> (map (\<lambda>k. Set_Key k val) keys)) = (\<lambda>k. if k \<in> set keys then Some val else \<sigma> k)"
    and "no_shrinking \<sigma> (map (\<lambda>k. Set_Key k val) keys)" by blast+
qed

lemma answer_all_prepared:
  fixes o1 ops val
  defines "reqs \<equiv> map fst (prepared o1 ops val)"
  shows "fst (answer_all \<sigma> reqs) = prepared o1 ops val"
    and "snd (answer_all \<sigma> reqs) = (\<lambda>k. if k \<in> set (prepared_keys o1 ops) then Some val else None)"
    and "no_shrinking \<sigma> reqs"
proof -
  have r: "reqs = Flush # map (\<lambda>k. Set_Key k val) (prepared_keys o1 ops)"
    by (simp add: reqs_def prepared_def o_def)
  note a = answer_all_sets [of Map.empty val "prepared_keys o1 ops"]
  show "fst (answer_all \<sigma> reqs) = prepared o1 ops val"
    and "snd (answer_all \<sigma> reqs) = (\<lambda>k. if k \<in> set (prepared_keys o1 ops) then Some val else None)"
    and "no_shrinking \<sigma> reqs"
    unfolding r prepared_def using a by (simp_all add: Let_def case_prod_unfold)
qed

text \<open>What \<open>generate_operations\<close> generates.\<close>

lemma length_generate_loop: "length (generate_loop o1 phase i n g) = n"
  by (induction n arbitrary: i g) (simp_all add: Let_def case_prod_unfold split: workload.split)

lemma digits_inject [simp]: "digits a = digits b \<longleftrightarrow> a = b"
  by (metis decimal_digits of_nat_eq_iff)

lemma generated_member:
  assumes "op \<in> set (generate_loop o1 phase i n g)" and "0 < bo_keyspace o1"
  shows "case the (bo_workload o1) of
      Workload_Ping \<Rightarrow> op_kind op = Op_Ping
    | Workload_Set \<Rightarrow> op_kind op = Op_Set \<and> (\<exists>k. op_key op = ''key:'' @ digits k)
    | Workload_Get_Hit \<Rightarrow> op_kind op = Op_Get_Hit \<and> (\<exists>k < nat (bo_keyspace o1). op_key op = ''key:'' @ digits k)
    | Workload_Get_Miss \<Rightarrow> op_kind op = Op_Get_Miss \<and> (\<exists>k. op_key op = ''missing:'' @ digits k)
    | Workload_Del_Hit \<Rightarrow> op_kind op = Op_Remove
        \<and> (\<exists>j. op_key op = ''delete:'' @ phase @ '':'' @ digits j)
    | Workload_Mixed \<Rightarrow> (op_kind op = Op_Get_Hit \<or> op_kind op = Op_Set)
        \<and> (\<exists>k < nat (bo_keyspace o1). op_key op = ''key:'' @ digits k)"
  using assms
proof (induction n arbitrary: i g)
  case 0
  then show ?case by simp
next
  case (Suc n)
  have pos: "0 < nat (bo_keyspace o1)" using Suc.prems(2) by simp
  show ?case
    using Suc.prems pos Suc.IH [of "Suc i" "snd (mt_draw g)"]
      Suc.IH [of "Suc i" "snd (mt_draw (snd (mt_draw g)))"]
    by (cases "the (bo_workload o1)") (auto simp: Let_def case_prod_unfold split: if_splits)
qed

lemma generated_del_keys:
  "the (bo_workload o1) = Workload_Del_Hit \<Longrightarrow>
    map op_key (generate_loop o1 phase i n g) = map (\<lambda>j. ''delete:'' @ phase @ '':'' @ digits j) [i..<i + n]"
proof (induction n arbitrary: i g)
  case 0
  then show ?case by simp
next
  case (Suc n)
  then show ?case by (simp add: Let_def case_prod_unfold upt_rec [of i])
qed

text \<open>After the preparation, the generated operations can run in any order.\<close>

lemma ready_prepared:
  assumes "\<And>op. op \<in> set ops \<Longrightarrow> relies_on val op (if op_key op \<in> set keys then Some val else None)"
    and "independent ops"
  shows "ready (\<lambda>k. if k \<in> set keys then Some val else None) val ops"
  using assms by (simp add: ready_def uniform_def)

lemma independent_no_removes:
  assumes "\<And>op. op \<in> set ops \<Longrightarrow> op_kind op \<in> {Op_Get_Hit, Op_Set} \<or> op_kind op = Op_Ping"
  shows "independent ops"
proof -
  have "filter (\<lambda>op. op_kind op = Op_Remove) ops = []" using assms by (fastforce simp: filter_empty_conv)
  then show ?thesis using assms by (fastforce simp: independent_def disturbs_def)
qed

lemma generated_ready:
  assumes "options_ok o1" and ops: "ops = generate_loop o1 phase i n g"
  shows "ready (\<lambda>k. if k \<in> set (prepared_keys o1 ops) then Some val else None) val ops"
proof -
  have pos: "0 < bo_keyspace o1" using assms(1) by (simp add: options_ok_def ranges_ok_def)
  have member: "op \<in> set ops \<Longrightarrow> op \<in> set (generate_loop o1 phase i n g)" for op by (simp add: ops)
  note mem = generated_member [OF member pos]
  show ?thesis
  proof (cases "the (bo_workload o1)")
    case Workload_Del_Hit
    have kind: "op_kind op = Op_Remove" if "op \<in> set ops" for op using mem [OF that] Workload_Del_Hit by simp
    have "distinct (map (\<lambda>j. ''delete:'' @ phase @ '':'' @ digits j) [i..<i + n])"
      by (simp add: distinct_map inj_on_def)
    then have "distinct (map op_key ops)"
      unfolding ops generated_del_keys [OF Workload_Del_Hit] .
    moreover have "filter (\<lambda>op. op_kind op = Op_Remove) ops = ops" using kind by (simp add: filter_id_conv)
    ultimately have "independent ops" using kind unfolding independent_def by simp
    moreover have "prepared_keys o1 ops = map op_key ops" using Workload_Del_Hit by (simp add: prepared_keys_def)
    ultimately show ?thesis using kind by (intro ready_prepared) (simp_all add: relies_on_def)
  next
    case Workload_Get_Hit
    have "op_key op \<in> set (prepared_keys o1 ops)" "op_kind op = Op_Get_Hit" if "op \<in> set ops" for op
      using mem [OF that] Workload_Get_Hit by (auto simp: prepared_keys_def)
    then show ?thesis by (intro ready_prepared independent_no_removes) (simp_all add: relies_on_def)
  next
    case Workload_Mixed
    have k: "op_key op \<in> set (prepared_keys o1 ops)" "op_kind op = Op_Get_Hit \<or> op_kind op = Op_Set"
      if "op \<in> set ops" for op
      using mem [OF that] Workload_Mixed by (auto simp: prepared_keys_def)
    have "relies_on val op (if op_key op \<in> set (prepared_keys o1 ops) then Some val else None)"
      if "op \<in> set ops" for op using k [OF that] by (auto simp: relies_on_def)
    then show ?thesis using k(2) by (intro ready_prepared independent_no_removes) auto
  next
    case Workload_Ping
    have "op_kind op = Op_Ping" if "op \<in> set ops" for op using mem [OF that] Workload_Ping by simp
    then show ?thesis by (intro ready_prepared independent_no_removes) (simp_all add: relies_on_def)
  next
    case Workload_Set
    have "op_kind op = Op_Set" if "op \<in> set ops" for op using mem [OF that] Workload_Set by simp
    then show ?thesis by (intro ready_prepared independent_no_removes) (simp_all add: relies_on_def)
  next
    case Workload_Get_Miss
    have kind: "op_kind op = Op_Get_Miss" if "op \<in> set ops" for op using mem [OF that] Workload_Get_Miss by simp
    then have "filter (\<lambda>op. op_kind op = Op_Remove) ops = []" by (simp add: filter_empty_conv)
    then have "independent ops" using kind by (simp add: independent_def disturbs_def)
    moreover have "prepared_keys o1 ops = []" using Workload_Get_Miss by (simp add: prepared_keys_def)
    ultimately show ?thesis using kind by (intro ready_prepared) (simp_all add: relies_on_def)
  qed
qed

text \<open>Keys and values of the benchmark survive the tokenizer of the AttoKV server.\<close>

lemma token_digits: "token (pre @ digits n) \<longleftrightarrow> (\<forall>c \<in> set pre. \<not> is_whitespace c)"
proof -
  have "\<not> is_whitespace c" if "c \<in> set (digits n)" for c
    using digits_are_digits [OF that] by (auto simp: is_whitespace_def is_digit_def)
  then show ?thesis using digits_nonempty by (auto simp: token_def)
qed

lemma generated_clean:
  assumes "options_ok o1" and "\<forall>c \<in> set phase. \<not> is_whitespace c" and "token val"
    and "op \<in> set (generate_loop o1 phase i n g)"
  shows "clean (op_request val op)"
proof -
  have pos: "0 < bo_keyspace o1" using assms(1) by (simp add: options_ok_def ranges_ok_def)
  have pre: "token (''key:'' @ digits k)" "token (''missing:'' @ digits k)"
    "token ((''delete:'' @ phase @ '':'') @ digits k)" for k
    using assms(2) unfolding token_digits by (auto simp: is_whitespace_def)
  show ?thesis
    using generated_member [OF assms(4) pos] pre assms(3)
    by (cases "the (bo_workload o1)") (auto simp: op_request_def)
qed

lemma prepared_clean:
  assumes "options_ok o1" and "\<forall>c \<in> set phase. \<not> is_whitespace c" and "token val"
    and "ops = generate_loop o1 phase i n g" and "q \<in> fst ` set (prepared o1 ops val)"
  shows "clean q"
proof -
  have "token k" if k: "k \<in> set (prepared_keys o1 ops)" for k
  proof (cases "the (bo_workload o1)")
    case Workload_Del_Hit
    have "k \<in> set (map op_key ops)" using k Workload_Del_Hit by (simp add: prepared_keys_def)
    then have "k \<in> set (map (\<lambda>j. ''delete:'' @ phase @ '':'' @ digits j) [i..<i + n])"
      unfolding assms(4) generated_del_keys [OF Workload_Del_Hit] .
    then obtain j where "k = (''delete:'' @ phase @ '':'') @ digits j" by auto
    then show ?thesis using assms(2) token_digits [of "''delete:'' @ phase @ '':''" j]
      by (auto simp: is_whitespace_def)
  qed (use k token_digits [of "''key:''"] in \<open>auto simp: prepared_keys_def is_whitespace_def\<close>)
  then show ?thesis using assms(3,5) by (auto simp: prepared_def)
qed

lemma token_value: "0 < n \<Longrightarrow> token (replicate n CHR ''x'')"
  by (simp add: token_def is_whitespace_def)

lemma workload_answers:
  assumes "options_ok o1" and "mset ops = mset (generate_operations o1 n seed phase)"
  defines "gen \<equiv> generate_operations o1 n seed phase"
  shows "fst (answer_all \<sigma> (map fst (prepared o1 gen val) @ map (op_request val) ops))
      = prepared o1 gen val @ expected val ops"
    and "no_shrinking \<sigma> (map fst (prepared o1 gen val) @ map (op_request val) ops)"
    and "\<forall>c \<in> set phase. \<not> is_whitespace c \<Longrightarrow> token val \<Longrightarrow>
      \<forall>q \<in> set (map fst (prepared o1 gen val) @ map (op_request val) ops). clean q"
proof -
  note prep = answer_all_prepared [of \<sigma> o1 gen val]
  have gen: "gen = generate_loop o1 phase 0 n (mt19937_64 seed)" by (simp add: gen_def generate_operations_def)
  have "ready (snd (answer_all \<sigma> (map fst (prepared o1 gen val)))) val gen"
    unfolding prep(2) by (rule generated_ready [OF assms(1) gen])
  then have "ready (snd (answer_all \<sigma> (map fst (prepared o1 gen val)))) val ops"
    by (rule ready_mset) (simp add: assms(2) gen_def)
  note all = ready_all [OF this]
  show "fst (answer_all \<sigma> (map fst (prepared o1 gen val) @ map (op_request val) ops))
      = prepared o1 gen val @ expected val ops"
    using all prep(1) by (simp add: answer_all_append)
  show "no_shrinking \<sigma> (map fst (prepared o1 gen val) @ map (op_request val) ops)"
    using all prep(3) by (simp add: no_shrinking_append)
  have set_eq: "set ops = set gen" using mset_eq_setD [OF assms(2)] by (simp add: gen_def)
  show "\<forall>q \<in> set (map fst (prepared o1 gen val) @ map (op_request val) ops). clean q"
    if "\<forall>c \<in> set phase. \<not> is_whitespace c" "token val"
    using prepared_clean [OF assms(1) that gen] generated_clean [OF assms(1) that] set_eq gen by auto
qed

section \<open>The report\<close>

text \<open>The report, with percentiles of the latencies in nanoseconds.\<close>

definition reported :: "benchmark_options \<Rightarrow> nat \<Rightarrow> u64 list \<Rightarrow> string \<Rightarrow> bool" where
  "reported o1 elapsed latencies text \<longleftrightarrow>
     (\<exists>p50 p95 p99. percentile latencies 50 = Inr p50 \<and> percentile latencies 95 = Inr p95
       \<and> percentile latencies 99 = Inr p99
       \<and> text = report_text o1 (length latencies)
           @ ''Elapsed: '' @ format_fixed 6 (double_div (double_of_nat elapsed) (double_of_nat 1000000000))
           @ '' s'' @ [LF]
           @ ''Throughput: '' @ format_fixed 2 (double_div (double_of_nat (length latencies))
               (double_div (double_of_nat elapsed) (double_of_nat 1000000000))) @ '' operations/s'' @ [LF]
           @ ''Latency: p50='' @ format_fixed 3 (microseconds p50)
           @ '' us p95='' @ format_fixed 3 (microseconds p95)
           @ '' us p99='' @ format_fixed 3 (microseconds p99)
           @ '' us max='' @ format_fixed 3 (microseconds (Max (set latencies))) @ '' us'' @ [LF])"

lemma last_Max: "sorted xs \<Longrightarrow> xs \<noteq> [] \<Longrightarrow> last xs = Max (set xs)" for xs :: "u64 list"
proof (rule Max_eqI [symmetric])
  show "x \<le> last xs" if "x \<in> set xs" "sorted xs" "xs \<noteq> []" for x
    using that by (induction xs) auto
qed simp_all

lemma percentiles_exist:
  assumes "sorted latencies" and "latencies \<noteq> []" and "length latencies * 100 + 99 < 2 ^ 64"
  obtains p50 p95 p99 where "percentile latencies 50 = Inr p50" and "percentile latencies 95 = Inr p95"
    and "percentile latencies 99 = Inr p99" and "{p50, p95, p99} \<subseteq> set latencies"
proof -
  have "\<exists>v. percentile latencies (word_of_nat p) = Inr v \<and> v \<in> set latencies" if "0 < p" "p \<le> 100" for p
    using percentile_ok [OF assms(1,2) that assms(3)] by blast
  from this [of 50] this [of 95] this [of 99] show thesis using that by auto
qed

lemma print_result_ok:
  assumes "sorted latencies" and "latencies \<noteq> []" and "length latencies * 100 + 99 < 2 ^ 64"
  shows "\<exists>text. print_result o1 elapsed latencies = Inr text \<and> reported o1 elapsed latencies text"
proof -
  obtain p50 p95 p99 where p: "percentile latencies 50 = Inr p50" "percentile latencies 95 = Inr p95"
    "percentile latencies 99 = Inr p99" "{p50, p95, p99} \<subseteq> set latencies"
    by (rule percentiles_exist [OF assms])
  show ?thesis
    unfolding print_result_def reported_def Let_def p bind_run_Inr if_not_P [OF assms(2)]
      last_Max [OF assms(1,2)]
    by (intro exI conjI) (rule refl)+
qed

section \<open>The whole program\<close>

definition benchmark_value :: "benchmark_options \<Rightarrow> string" where
  "benchmark_value o1 = replicate (nat (bo_value_size o1)) CHR ''x''"

definition warmup_operations :: "benchmark_options \<Rightarrow> operation list" where
  "warmup_operations o1 = generate_operations o1 (nat (bo_warmup o1))
     ((word_of_int (bo_seed o1) :: u64) XOR 0x9e3779b97f4a7c15) ''warmup''"

definition measured_operations :: "benchmark_options \<Rightarrow> operation list" where
  "measured_operations o1 =
     generate_operations o1 (nat (bo_requests o1)) (word_of_int (bo_seed o1) :: u64) ''measured''"

lemma length_generate_operations [simp]: "length (generate_operations o1 n seed phase) = n"
  unfolding generate_operations_def by (rule length_generate_loop)

text \<open>The operations of worker \<open>i\<close> of \<open>k\<close>.\<close>

definition slices_of :: "nat \<Rightarrow> operation list \<Rightarrow> operation list list" where
  "slices_of k ops = worker_slices k ops 0 0 k"

lemma length_slices_of [simp]: "length (slices_of k ops) = k"
  by (simp add: slices_of_def)

lemma slices_of_Nil:
  assumes "i < k"
  shows "slices_of k [] ! i = []"
proof -
  have "concat (slices_of k []) = []" using assms worker_slices_all [of k "[]"] by (simp add: slices_of_def)
  then show ?thesis using assms by (metis concat_eq_Nil_conv length_slices_of nth_mem)
qed

text \<open>What the connections of a run must answer: the control connection the preparations, the connection of
  each client its slices of both phases.\<close>

definition control_answers :: "benchmark_options \<Rightarrow> operation list \<Rightarrow> operation list \<Rightarrow> (request \<times> response) list" where
  "control_answers o1 warm ops =
     (if warm = [] then [] else prepared o1 warm (benchmark_value o1)) @ prepared o1 ops (benchmark_value o1)"

definition client_answers :: "benchmark_options \<Rightarrow> nat \<Rightarrow> operation list \<Rightarrow> operation list \<Rightarrow> nat
    \<Rightarrow> (request \<times> response) list" where
  "client_answers o1 k warm ops i =
     expected (benchmark_value o1) (slices_of k warm ! i) @ expected (benchmark_value o1) (slices_of k ops ! i)"

text \<open>The report of the times of the operations.\<close>

definition reports :: "benchmark_options \<Rightarrow> phase_times \<Rightarrow> string \<Rightarrow> bool" where
  "reports o1 timing report \<longleftrightarrow>
     reported o1 (pt_elapsed timing) (sort (map (pt_latency timing) [0..<nat (bo_requests o1)])) report"

text \<open>The kernel makes every connection, and the servers will give the expected answers.\<close>

definition peers_ready :: "'s backend \<Rightarrow> ((request \<times> response) list \<Rightarrow> 's \<Rightarrow> bool) \<Rightarrow> (nat \<Rightarrow> connect_calls)
    \<Rightarrow> (nat \<Rightarrow> 's) \<Rightarrow> benchmark_options \<Rightarrow> bool" where
  "peers_ready be answers calls fresh o1 \<longleftrightarrow>
     (let k = nat (bo_clients o1); warm = warmup_operations o1; ops = measured_operations o1
      in \<exists>f. (\<forall>i \<le> k. be_connect be (calls i) (bo_host o1) (bo_port o1) (fresh i) = Some (Inr (), f i))
          \<and> answers (control_answers o1 warm ops) (f k)
          \<and> (\<forall>i < k. answers (client_answers o1 k warm ops i) (f i)))"

lemma peers_readyI:
  assumes "\<And>i. be_connect be (calls i) (bo_host o1) (bo_port o1) (fresh i) = Some (Inr (), f i)"
    and "answers (control_answers o1 (warmup_operations o1) (measured_operations o1)) (f (nat (bo_clients o1)))"
    and "\<And>i. i < nat (bo_clients o1) \<Longrightarrow>
      answers (client_answers o1 (nat (bo_clients o1)) (warmup_operations o1) (measured_operations o1) i) (f i)"
  shows "peers_ready be answers calls fresh o1"
  using assms unfolding peers_ready_def Let_def by blast

context backend_contract
begin

lemma measure_ok:
  assumes "options_ok o1" and "bo_requests o1 * 100 + 99 < 2 ^ 64" and "sessions \<noteq> []"
    and "length ops = nat (bo_requests o1)"
    and "answers (prepared o1 ops val) control"
    and "list_all2 (\<lambda>ops s. answers (expected val ops) s) (slices_of (length sessions) ops) sessions"
  shows "\<exists>report ends. benchmark_measure be timing o1 ops val control sessions = Some (Inr (Inr report), ends)
    \<and> reports o1 timing report"
proof -
  from prepare_ok [of o1 ops val "[]" control] assms(5) obtain control1 where
    p: "prepare be o1 ops val control = Some (Inr (), control1)" by auto
  have "list_all2 (\<lambda>(ops, qs) s. answers (expected val ops @ qs) s)
      (zip (worker_slices (length sessions) ops 0 0 (length sessions)) (replicate (length sessions) [])) sessions"
    using assms(6) by (simp add: list_all2_conv_all_nth slices_of_def)
  from run_phase_ok [OF assms(3) _ this, of timing True] obtain result where
    r: "run_phase be sessions ops val timing True = Some result" "ph_error result = []"
    "ph_elapsed result = pt_elapsed timing"
    "ph_latencies result = map (pt_latency timing) [0..<nat (bo_requests o1)]" by (auto simp: assms(4))
  have pos: "1 \<le> bo_requests o1" using assms(1) by (simp add: options_ok_def ranges_ok_def)
  let ?l = "sort (map (pt_latency timing) [0..<nat (bo_requests o1)])"
  have "0 < length ?l" using pos by simp
  then have "?l \<noteq> []" by (rule length_greater_0_conv [THEN iffD1])
  moreover have "length ?l * 100 + 99 < 2 ^ 64" using assms(2) pos by simp
  ultimately obtain report where "print_result o1 (pt_elapsed timing) ?l = Inr report" "reports o1 timing report"
    using print_result_ok [of ?l o1] by (auto simp: reports_def)
  with p r pos show ?thesis by (simp add: benchmark_measure_def)
qed

text \<open>Without warmup (\<open>--warmup 0\<close>) only the second half of the answers is needed.\<close>

lemma run_ok:
  assumes "options_ok o1" and "bo_requests o1 * 100 + 99 < 2 ^ 64" and "sessions \<noteq> []"
    and "length ops = nat (bo_requests o1)" and "answers (control_answers o1 warm ops) control"
    and "\<forall>i < length sessions. answers (client_answers o1 (length sessions) warm ops i) (sessions ! i)"
  shows "\<exists>report ends. benchmark_run be timing o1 (benchmark_value o1) warm ops control sessions = Some (Inr (Inr report), ends)
    \<and> reports o1 timing report"
proof -
  let ?k = "length sessions" and ?val = "benchmark_value o1"
  show ?thesis
  proof (cases "warm = []")
    case True
    have "list_all2 (\<lambda>ops s. answers (expected ?val ops) s) (slices_of ?k ops) sessions"
      using assms(6) True slices_of_Nil [of _ ?k]
      by (simp add: list_all2_conv_all_nth client_answers_def expected_def)
    with measure_ok [OF assms(1-4), of ?val control timing] assms(5) True
    show ?thesis by (simp add: benchmark_run_def control_answers_def)
  next
    case False
    from prepare_ok [of o1 warm ?val "prepared o1 ops ?val" control] assms(5) False obtain control1 where
      p: "prepare be o1 warm ?val control = Some (Inr (), control1)" "answers (prepared o1 ops ?val) control1"
      by (auto simp: control_answers_def)
    have "list_all2 (\<lambda>(ops, qs) s. answers (expected ?val ops @ qs) s)
        (zip (worker_slices ?k warm 0 0 ?k) (map (expected ?val) (slices_of ?k ops))) sessions"
      using assms(6) by (simp add: list_all2_conv_all_nth client_answers_def slices_of_def)
    from run_phase_ok [OF assms(3) _ this, of timing False] obtain result where
      r: "run_phase be sessions warm ?val timing False = Some result" "ph_error result = []"
      "list_all2 answers (map (expected ?val) (slices_of ?k ops)) (ph_sessions result)" by auto
    have k: "length (ph_sessions result) = ?k" using r(3) by (auto dest: list_all2_lengthD)
    then have "ph_sessions result \<noteq> []" using assms(3) by (metis length_0_conv)
    from measure_ok [OF assms(1,2) this assms(4) p(2), of timing] r(3) k
    show ?thesis using p(1) r(1,2) False by (simp add: benchmark_run_def list_all2_map1)
  qed
qed

text \<open>Connecting the clients: one session for each.\<close>

lemma connect_backends_ok:
  assumes "\<forall>j. i \<le> j \<and> j < i + n \<longrightarrow> be_connect be (calls j) (bo_host o1) (bo_port o1) (fresh j) = Some (Inr (), f j)"
  shows "connect_backends be calls fresh o1 i n = Some (Inr (), map f [i..<i + n])"
  using assms by (induction n arbitrary: i) (simp_all add: upt_rec)

lemma start_ok:
  fixes o1
  defines "k \<equiv> nat (bo_clients o1)"
  assumes "options_ok o1" and "bo_requests o1 * 100 + 99 < 2 ^ 64"
    and "\<forall>i \<le> k. be_connect be (calls i) (bo_host o1) (bo_port o1) (fresh i) = Some (Inr (), f i)"
    and "answers (control_answers o1 (warmup_operations o1) (measured_operations o1)) (f k)"
    and "\<forall>i < k. answers (client_answers o1 k (warmup_operations o1) (measured_operations o1) i) (f i)"
  shows "\<exists>report ends. benchmark_start be timing calls fresh o1 = Some (Inr (Inr report), ends) \<and> reports o1 timing report"
proof -
  have "0 < k" using assms(2) by (simp add: k_def options_ok_def ranges_ok_def)
  then have "map f [0..<k] \<noteq> []" by simp
  from run_ok [OF assms(2,3) this, of "measured_operations o1" "warmup_operations o1" "f k" timing] assms(5,6)
  obtain report ends where r: "benchmark_run be timing o1 (benchmark_value o1) (warmup_operations o1) (measured_operations o1)
      (f k) (map f [0..<k]) = Some (Inr (Inr report), ends)" "reports o1 timing report"
    by (auto simp: measured_operations_def)
  have "connect_backends be calls fresh o1 0 k = Some (Inr (), map f [0..<k])"
    using connect_backends_ok [of 0 k calls o1 fresh f] assms(4) by simp
  with r assms(4) show ?thesis
    by (simp add: benchmark_start_def Let_def k_def [symmetric] benchmark_value_def [symmetric]
        warmup_operations_def [symmetric] measured_operations_def [symmetric])
qed

lemma start_ready:
  assumes "options_ok o1" and "bo_requests o1 * 100 + 99 < 2 ^ 64" and "peers_ready be answers calls fresh o1"
  shows "\<exists>report ends. benchmark_start be timing calls fresh o1 = Some (Inr (Inr report), ends) \<and> reports o1 timing report"
  using assms(3) start_ok [OF assms(1,2)] unfolding peers_ready_def Let_def by blast

end

text \<open>A fresh AttoKV backend connects when the kernel does.\<close>

definition connected :: "connect_calls \<Rightarrow> client session \<Rightarrow> client session" where
  "connected calls s = s\<lparr>se_object := \<lparr>cl_socket = socket_of (cn_socket calls)\<rparr>,
     se_os := (se_os s)\<lparr>os_open := insert (cn_socket calls) (os_open (se_os s))\<rparr>\<rparr>"

lemma connected_link [simp]: "se_link (connected calls s) = se_link s"
  by (simp add: connected_def)

lemma atto_connect_fresh:
  assumes "se_object s = client_new" and "cn_socket calls \<noteq> -1" and "cn_inet_aton calls (c_str host) \<noteq> None"
    and "1 \<le> port" and "port \<le> 65535" and "\<forall>address. cn_connect calls address = None"
    and "cn_setsockopt calls 1 = None"
  shows "atto_connect calls host port s = Some (Inr (), connected calls s)"
  using assms
  by (auto simp: atto_connect_def session_connect_def client_connect_def Let_def socket_of_def is_valid_def
      make_sockaddr_def set_nodelay_def socket_move_assign_def socket_release_def socket_reset_def
      socket_destroy_def client_new_def socket_new_def connected_def)

section \<open>Properties\<close>

text \<open>C30: when the option parser lets the program go on, every option is in its range: a backend and a
  workload are chosen, the port is a valid one, the counts that must not be 0 are not, the ratio is a
  percentage, and every number fits its type.\<close>

theorem parse_options_valid:
  assumes "parse_options args default_benchmark_options = Inr (False, o1)"
  shows "options_ok o1"
  using parse_options_ok [OF assms default_options_ranges] .

theorem parse_options_valid_witness:
  "\<exists>o1. parse_options [''--backend'', ''redis'', ''--workload'', ''mixed'', ''--clients'', ''16'']
      default_benchmark_options = Inr (False, o1) \<and> options_ok o1 \<and> bo_port o1 = 6379 \<and> bo_clients o1 = 16"
proof -
  have "parse_size ''16'' 1 = (True, 16)"
    by (simp add: parse_size_def parse_number_def from_chars_def is_digit_def decimal_def)
  then have "parse_options [''--backend'', ''redis'', ''--workload'', ''mixed'', ''--clients'', ''16'']
      default_benchmark_options = Inr (False, default_benchmark_options\<lparr>bo_backend := Some Backend_Redis,
        bo_workload := Some Workload_Mixed, bo_clients := 16, bo_port := 6379\<rparr>)"
    by (simp add: default_benchmark_options_def parse_option_def parse_workload_def checked_def finish_options_def)
  from this parse_options_valid [OF this] show ?thesis by simp
qed

text \<open>The operations are divided between the workers without loss: the slices, one for each client,
  are consecutive parts that together are all operations, and their sizes differ by at most one.\<close>

theorem worker_slices_partition:
  assumes "0 < clients"
  shows "concat (worker_slices clients ops 0 0 clients) = ops
    \<and> length (worker_slices clients ops 0 0 clients) = clients
    \<and> (\<forall>sl \<in> set (worker_slices clients ops 0 0 clients).
          length sl = length ops div clients \<or> length sl = length ops div clients + 1)"
  using worker_slices_all [OF assms] worker_slices_balanced [of 0 clients clients 0 ops] assms by simp

theorem worker_slices_partition_witness:
  "worker_slices 3 ''abcde'' 0 0 3 = [''ab'', ''cd'', ''e''] \<and> concat (worker_slices 3 ''abcde'' 0 0 3) = ''abcde''"
proof
  show "worker_slices 3 ''abcde'' 0 0 3 = [''ab'', ''cd'', ''e'']" by code_simp
  show "concat (worker_slices 3 ''abcde'' 0 0 3) = ''abcde''"
    using worker_slices_partition [of 3 "''abcde''"] by simp
qed

text \<open>C31: \<open>percentile\<close> of sorted latencies is the nearest rank, computed without a wrap-around or an
  index out of range: at least \<open>p\<close> percent of the latencies are at most the result, and less than
  \<open>p\<close> percent are below it.\<close>

theorem percentile_nearest_rank:
  assumes "sorted values" and "values \<noteq> []" and "0 < p" and "p \<le> 100" and "length values * 100 + 99 < 2 ^ 64"
  shows "\<exists>v. percentile values (word_of_nat p) = Inr v \<and> v \<in> set values
    \<and> length values * p \<le> 100 * length (filter (\<lambda>x. x \<le> v) values)
    \<and> 100 * length (filter (\<lambda>x. x < v) values) < length values * p"
  using assms by (rule percentile_ok)

theorem percentile_nearest_rank_witness:
  "\<exists>v. percentile [1, 2, 2, 9] (word_of_nat 95) = Inr v \<and> v \<in> set [1, 2, 2, 9]
    \<and> 380 \<le> 100 * length (filter (\<lambda>x. x \<le> v) [1, 2, 2, 9])"
proof -
  have "sorted [1, 2, 2, 9 :: u64]" by (simp add: word_le_nat_alt)
  from percentile_nearest_rank [OF this, of 95] obtain v where
    "percentile [1, 2, 2, 9] (word_of_nat 95) = Inr v" "v \<in> set [1, 2, 2, 9]"
    "length [1, 2, 2, 9 :: u64] * 95 \<le> 100 * length (filter (\<lambda>x. x \<le> v) [1, 2, 2, 9])"
    by (simp del: filter.simps) blast
  moreover have "length [1, 2, 2, 9 :: u64] * 95 = 380" by simp
  ultimately show ?thesis by (intro exI [of _ v]) (simp del: filter.simps)
qed

text \<open>C26: the figures of the report are right, through all roundings of the floating-point arithmetic and of
  the formatting: for times below 50 days, the latencies are printed exactly, in microseconds with three
  decimals; the elapsed time is rounded to the nearest microsecond; and the throughput is the number of
  requests per second, up to half a unit of its second decimal and a relative error of \<open>2 ^ -51\<close>.\<close>

theorem report_accurate:
  assumes "sorted latencies" and "latencies \<noteq> []" and "length latencies < 2 ^ 53"
    and "0 < elapsed" and "elapsed < 2 ^ 53" and "\<forall>l \<in> set latencies. unat l < 2 ^ 52"
  shows "\<exists>p50 p95 p99 us rate.
    percentile latencies 50 = Inr p50 \<and> percentile latencies 95 = Inr p95 \<and> percentile latencies 99 = Inr p99
    \<and> \<bar>1000 * int us - int elapsed\<bar> \<le> 500
    \<and> \<bar>real rate / 100 - real (length latencies) * 10 ^ 9 / real elapsed\<bar>
        \<le> 1 / 200 + real (length latencies) * 10 ^ 9 / real elapsed / 2 ^ 51
    \<and> print_result o1 elapsed latencies = Inr (report_text o1 (length latencies)
        @ ''Elapsed: '' @ fixed_point 6 us @ '' s'' @ [LF]
        @ ''Throughput: '' @ fixed_point 2 rate @ '' operations/s'' @ [LF]
        @ ''Latency: p50='' @ fixed_point 3 (unat p50) @ '' us p95='' @ fixed_point 3 (unat p95)
        @ '' us p99='' @ fixed_point 3 (unat p99)
        @ '' us max='' @ fixed_point 3 (unat (Max (set latencies))) @ '' us'' @ [LF])"
proof -
  have "length latencies * 100 + 99 < 2 ^ 64" using assms(3) by simp
  from percentiles_exist [OF assms(1,2) this] obtain p50 p95 p99 where
    p: "percentile latencies 50 = Inr p50" "percentile latencies 95 = Inr p95" "percentile latencies 99 = Inr p99"
    and mem: "{p50, p95, p99} \<subseteq> set latencies" by blast
  have us: "format_fixed 3 (microseconds l) = fixed_point 3 (unat l)" if "l \<in> set latencies" for l
    using thousandths_exact assms(6) that by (simp add: microseconds_def)
  have m: "format_fixed 3 (microseconds p50) = fixed_point 3 (unat p50)"
    "format_fixed 3 (microseconds p95) = fixed_point 3 (unat p95)"
    "format_fixed 3 (microseconds p99) = fixed_point 3 (unat p99)"
    "format_fixed 3 (microseconds (Max (set latencies))) = fixed_point 3 (unat (Max (set latencies)))"
    using us mem assms(2) by simp_all
  obtain us where s: "\<bar>1000 * int us - int elapsed\<bar> \<le> 500"
    "format_fixed 6 (double_div (double_of_nat elapsed) (double_of_nat 1000000000)) = fixed_point 6 us"
    using billionths_rounded [OF assms(5)] by blast
  obtain rate where r: "\<bar>real rate / 100 - real (length latencies) * 10 ^ 9 / real elapsed\<bar>
        \<le> 1 / 200 + real (length latencies) * 10 ^ 9 / real elapsed / 2 ^ 51"
    "format_fixed 2 (double_div (double_of_nat (length latencies))
       (double_div (double_of_nat elapsed) (double_of_nat 1000000000))) = fixed_point 2 rate"
    using rate_text [OF assms(3-5)] by blast
  show ?thesis
    unfolding print_result_def Let_def p bind_run_Inr if_not_P [OF assms(2)] last_Max [OF assms(1,2)] m
    using s r by (intro exI conjI refl) (simp_all only:)
qed

theorem report_accurate_witness:
  "fixed_point 3 1500 = ''1.500'' \<and> fixed_point 6 2000 = ''0.002000''
    \<and> (\<exists>rate. print_result default_benchmark_options 2000000 [1500] = Inr (report_text default_benchmark_options 1
        @ ''Elapsed: '' @ fixed_point 6 2000 @ '' s'' @ [LF]
        @ ''Throughput: '' @ fixed_point 2 rate @ '' operations/s'' @ [LF]
        @ ''Latency: p50='' @ fixed_point 3 1500 @ '' us p95='' @ fixed_point 3 1500
        @ '' us p99='' @ fixed_point 3 1500
        @ '' us max='' @ fixed_point 3 1500 @ '' us'' @ [LF]))"
proof (intro conjI)
  have "char_of (48 :: nat) = CHR ''0''" "char_of (49 :: nat) = CHR ''1''" "char_of (50 :: nat) = CHR ''2''"
    "char_of (53 :: nat) = CHR ''5''" by code_simp+
  then show "fixed_point 3 1500 = ''1.500''" "fixed_point 6 2000 = ''0.002000''"
    by (simp_all add: fixed_point_def padded_def digits.simps numeral_2_eq_2)
  have one: "percentile [1500 :: u64] p = Inr v \<Longrightarrow> v = 1500" for p v
    by (auto simp: percentile_def Let_def split: if_splits)
  have prems: "sorted [1500 :: u64]" "[1500 :: u64] \<noteq> []" "length [1500 :: u64] < 2 ^ 53" "(0 :: nat) < 2000000"
    "(2000000 :: nat) < 2 ^ 53" "\<forall>l \<in> set [1500 :: u64]. unat l < 2 ^ 52" by simp_all
  from report_accurate [OF prems, of default_benchmark_options] obtain p50 p95 p99 us rate where
    p: "percentile [1500] 50 = Inr p50" "percentile [1500] 95 = Inr p95" "percentile [1500] 99 = Inr p99"
    and us: "\<bar>1000 * int us - int 2000000\<bar> \<le> 500"
    and rate: "\<bar>real rate / 100 - real (length [1500 :: u64]) * 10 ^ 9 / real (2000000 :: nat)\<bar>
        \<le> 1 / 200 + real (length [1500 :: u64]) * 10 ^ 9 / real (2000000 :: nat) / 2 ^ 51"
    and out: "print_result default_benchmark_options 2000000 [1500]
      = Inr (report_text default_benchmark_options (length [1500 :: u64])
        @ ''Elapsed: '' @ fixed_point 6 us @ '' s'' @ [LF]
        @ ''Throughput: '' @ fixed_point 2 rate @ '' operations/s'' @ [LF]
        @ ''Latency: p50='' @ fixed_point 3 (unat p50) @ '' us p95='' @ fixed_point 3 (unat p95)
        @ '' us p99='' @ fixed_point 3 (unat p99)
        @ '' us max='' @ fixed_point 3 (unat (Max (set [1500 :: u64]))) @ '' us'' @ [LF])"
    by (elim exE conjE) (rule that, assumption+)
  have "us = 2000" using us by linarith
  then show "\<exists>rate. print_result default_benchmark_options 2000000 [1500] = Inr (report_text default_benchmark_options 1
        @ ''Elapsed: '' @ fixed_point 6 2000 @ '' s'' @ [LF]
        @ ''Throughput: '' @ fixed_point 2 rate @ '' operations/s'' @ [LF]
        @ ''Latency: p50='' @ fixed_point 3 1500 @ '' us p95='' @ fixed_point 3 1500
        @ '' us p99='' @ fixed_point 3 1500
        @ '' us max='' @ fixed_point 3 1500 @ '' us'' @ [LF])"
    using out one [OF p(1)] one [OF p(2)] one [OF p(3)] by (intro exI [of _ rate]) simp
qed

text \<open>\<open>execute\<close> is an exact check, with either backend: an operation succeeds if and only if the
  answer of the server is the one that the workload expects, and otherwise ends with a message.\<close>

theorem execute_checks:
  assumes "atto_answers ((op_request val op, a) # qs) s" and "redis_answers ((op_request val op, a) # qs) t"
  shows "(\<exists>r s'. execute (atto_backend strerror) op val s = Some (r, s') \<and> atto_answers qs s'
        \<and> (r = Inr () \<longleftrightarrow> a = op_expected val op) \<and> r \<noteq> Inl [])
    \<and> (\<exists>r t'. execute (redis_backend strerror) op val t = Some (r, t') \<and> redis_answers qs t'
        \<and> (r = Inr () \<longleftrightarrow> a = op_expected val op) \<and> r \<noteq> Inl [])"
  using atto.execute_answer [OF assms(1), of strerror] redis.execute_answer [OF assms(2), of strerror] by blast

theorem execute_checks_witness:
  "\<exists>e s' t'. execute (atto_backend (\<lambda>_. [])) \<lparr>op_kind = Op_Get_Hit, op_key = ''k''\<rparr> ''v''
      \<lparr>se_object = client_new,
       se_link = \<lparr>ln_recv = [Received (frame ''w'')], ln_send = replicate 100 (Accepted 1), ln_sent = []\<rparr>,
       se_os = \<lparr>os_open = {}, os_bad_closes = 0\<rparr>\<rparr> = Some (Inl e, s')
    \<and> execute (redis_backend (\<lambda>_. [])) \<lparr>op_kind = Op_Get_Hit, op_key = ''k''\<rparr> ''v''
      \<lparr>se_object = socket_new,
       se_link = \<lparr>ln_recv = [Received (resp (Bulk ''w''))], ln_send = replicate 100 (Accepted 1), ln_sent = []\<rparr>,
       se_os = \<lparr>os_open = {}, os_bad_closes = 0\<rparr>\<rparr> \<noteq> Some (Inr (), t')"
proof -
  let ?op = "\<lparr>op_kind = Op_Get_Hit, op_key = ''k''\<rparr>"
  let ?s = "\<lparr>se_object = client_new,
       se_link = \<lparr>ln_recv = [Received (frame ''w'')], ln_send = replicate 100 (Accepted 1), ln_sent = []\<rparr>,
       se_os = \<lparr>os_open = {}, os_bad_closes = 0\<rparr>\<rparr>"
  let ?t = "\<lparr>se_object = socket_new,
       se_link = \<lparr>ln_recv = [Received (resp (Bulk ''w''))], ln_send = replicate 100 (Accepted 1), ln_sent = []\<rparr>,
       se_os = \<lparr>os_open = {}, os_bad_closes = 0\<rparr>\<rparr>"
  have q: "op_request ''v'' ?op = Get_Key ''k''" "op_expected ''v'' ?op = Found (Some ''v'')"
    by (simp_all add: op_request_def op_expected_def)
  have acc: "accepts (replicate 100 (Accepted 1)) = 100" using accepts_replicate [of 100] by simp
  have d: "digits (Suc 0) = ''1''" "digits (Suc (Suc 0)) = ''2''" "digits (Suc (Suc (Suc 0))) = ''3''"
    by code_simp+
  have "stream [Received (frame ''w'')] = (frame ''w'' @ [], Exhausted, [])" by (simp add: frame_def)
  then have a: "atto_answers [(op_request ''v'' ?op, Found (Some ''w''))] ?s"
    using acc by (auto simp: atto_answers_def atto_ok_def q MAX_MESSAGE_SIZE_def)
  have "stream [Received (resp (Bulk ''w''))] = (resp (Bulk ''w'') @ [], Exhausted, [])" by simp
  then have b: "redis_answers [(op_request ''v'' ?op, Found (Some ''w''))] ?t"
    using acc d by (auto simp: redis_answers_def redis_ok_def q k_max_reply_size_def encode_request_def)
  from execute_checks [OF a b, of "\<lambda>_. []"] obtain r s' r1 t1 where
    "execute (atto_backend (\<lambda>_. [])) ?op ''v'' ?s = Some (r, s')" "r \<noteq> Inr ()"
    "execute (redis_backend (\<lambda>_. [])) ?op ''v'' ?t = Some (r1, t1)" "r1 \<noteq> Inr ()" by (auto simp: q)
  then show ?thesis by (cases r) auto
qed

text \<open>C22: the workloads are sound: on any store, preparing it and then running the operations of a
  workload in any order, and so in any interleaving of the workers, gives every operation the answer it
  expects; and on an AttoKV server all requests are well-formed commands, none of them shortens a
  value, and the replies are those that the backend reads as these answers.\<close>

theorem workloads_sound:
  assumes "options_ok o1" and "mset ops = mset (generate_operations o1 n seed phase)"
    and "\<forall>c \<in> set phase. \<not> is_whitespace c"
  defines "gen \<equiv> generate_operations o1 n seed phase" and "val \<equiv> benchmark_value o1"
  defines "reqs \<equiv> map fst (prepared o1 gen val) @ map (op_request val) ops"
  shows "fst (answer_all \<sigma> reqs) = prepared o1 gen val @ expected val ops
    \<and> spec_commands \<sigma> (map atto_text reqs) = Some
        (map (\<lambda>(q, a). default_result\<lparr>res_output := atto_reply q a\<rparr>) (prepared o1 gen val @ expected val ops),
         snd (answer_all \<sigma> reqs))"
proof -
  have "0 < nat (bo_value_size o1)" using assms(1) by (simp add: options_ok_def ranges_ok_def)
  then have "token val" unfolding val_def benchmark_value_def by (rule token_value)
  note w = workload_answers [OF assms(1,2), where val = val, folded gen_def, folded reqs_def]
  show ?thesis
    using w(1) spec_commands_answer_all [OF w(3) [OF assms(3) \<open>token val\<close>] w(2)] by simp
qed

theorem workloads_sound_witness:
  "\<exists>o1. bo_workload o1 = Some Workload_Del_Hit
    \<and> generate_operations o1 1 0 ''measured'' = [\<lparr>op_kind = Op_Remove, op_key = ''delete:measured:0''\<rparr>]
    \<and> fst (answer_all [''x'' \<mapsto> ''y''] [Flush, Set_Key ''delete:measured:0'' ''x'', Remove_Key ''delete:measured:0''])
      = [(Flush, Done), (Set_Key ''delete:measured:0'' ''x'', Done), (Remove_Key ''delete:measured:0'', Removed True)]"
proof -
  let ?o = "default_benchmark_options\<lparr>bo_backend := Some Backend_Attokv, bo_workload := Some Workload_Del_Hit,
    bo_port := 6337, bo_value_size := 1\<rparr>"
  have ok: "options_ok ?o" by (simp add: options_ok_def ranges_ok_def default_benchmark_options_def)
  have d: "digits 0 = ''0''" by code_simp
  have gen: "generate_operations ?o 1 0 ''measured''
      = [\<lparr>op_kind = Op_Remove, op_key = ''delete:measured:0''\<rparr>]"
    by (simp add: generate_operations_def d Let_def case_prod_unfold)
  have "\<forall>c \<in> set ''measured''. \<not> is_whitespace c" by (simp add: is_whitespace_def)
  from workloads_sound [OF ok refl this, of "[''x'' \<mapsto> ''y'']" 1 0]
  have "fst (answer_all [''x'' \<mapsto> ''y''] [Flush, Set_Key ''delete:measured:0'' ''x'', Remove_Key ''delete:measured:0''])
      = [(Flush, Done), (Set_Key ''delete:measured:0'' ''x'', Done), (Remove_Key ''delete:measured:0'', Removed True)]"
    unfolding gen
    by (simp add: prepared_def prepared_keys_def expected_def op_request_def op_expected_def benchmark_value_def
        del: answer_all.simps)
  with gen show ?thesis by (intro exI [of _ ?o]) (simp del: answer_all.simps)
qed

text \<open>C23: a benchmark runs to its end: when the kernel makes the connections and the servers give the
  answers that the workload expects, the program runs through both phases without an error and reports,
  for the requested number of operations, the nearest-rank percentiles and the maximum of their times,
  whatever the options are.\<close>

theorem benchmark_completes:
  assumes "parse_options args default_benchmark_options = Inr (False, o1)"
    and "bo_requests o1 * 100 + 99 < 2 ^ 64"
    and "case the (bo_backend o1) of
        Backend_Attokv \<Rightarrow> peers_ready (atto_backend strerror) atto_answers calls atto_fresh o1
      | Backend_Redis \<Rightarrow> peers_ready (redis_backend strerror) redis_answers calls redis_fresh o1"
  shows "\<exists>report ends. benchmark_main strerror timing calls atto_fresh redis_fresh args = Some (Inr (0, [Out report]), ends)
    \<and> reports o1 timing report"
proof (cases "the (bo_backend o1)")
  case Backend_Attokv
  then show ?thesis
    using atto.start_ready [OF parse_options_ok [OF assms(1) default_options_ranges] assms(2),
        of strerror calls atto_fresh timing] assms(1,3)
    by (auto simp: benchmark_main_def benchmark_finish_def make_backend_def)
next
  case Backend_Redis
  then show ?thesis
    using redis.start_ready [OF parse_options_ok [OF assms(1) default_options_ranges] assms(2),
        of strerror calls redis_fresh timing] assms(1,3)
    by (auto simp: benchmark_main_def benchmark_finish_def make_backend_def)
qed

theorem benchmark_completes_witness:
  "\<exists>calls fresh report ends. benchmark_main (\<lambda>_. []) \<lparr>pt_latency = (\<lambda>_. 7), pt_elapsed = 2000\<rparr> calls fresh
      (\<lambda>_. \<lparr>se_object = socket_new, se_link = \<lparr>ln_recv = [], ln_send = [], ln_sent = []\<rparr>,
            se_os = \<lparr>os_open = {}, os_bad_closes = 0\<rparr>\<rparr>)
      [''--backend'', ''attokv'', ''--workload'', ''ping'', ''--warmup'', ''0'', ''--requests'', ''1'']
    = Some (Inr (0, [Out report]), ends)
    \<and> reported (default_benchmark_options\<lparr>bo_backend := Some Backend_Attokv, bo_workload := Some Workload_Ping,
         bo_warmup := 0, bo_requests := 1, bo_port := 6337\<rparr>) 2000 [7] report"
proof -
  let ?args = "[''--backend'', ''attokv'', ''--workload'', ''ping'', ''--warmup'', ''0'', ''--requests'', ''1'']"
  let ?o = "default_benchmark_options\<lparr>bo_backend := Some Backend_Attokv, bo_workload := Some Workload_Ping,
         bo_warmup := 0, bo_requests := 1, bo_port := 6337\<rparr>"
  let ?timing = "\<lparr>pt_latency = (\<lambda>_. 7), pt_elapsed = 2000\<rparr>"
  let ?calls = "\<lambda>i :: nat. \<lparr>cn_strerror = (\<lambda>_. []), cn_socket = int i, cn_socket_errno = 0,
       cn_inet_aton = (\<lambda>_. Some 0), cn_connect = (\<lambda>_. None), cn_setsockopt = (\<lambda>_. None)\<rparr>"
  let ?s = "\<lambda>reply. \<lparr>se_object = client_new,
       se_link = \<lparr>ln_recv = [Received (frame reply)], ln_send = replicate 100 (Accepted 1), ln_sent = []\<rparr>,
       se_os = \<lparr>os_open = {}, os_bad_closes = 0\<rparr>\<rparr>"
  let ?fresh = "\<lambda>i :: nat. if i = 0 then ?s ''pong'' else ?s ''OK''"
  have "parse_size ''0'' 10000 = (True, 0)" "parse_size ''1'' 100000 = (True, 1)"
    by (simp_all add: parse_size_def parse_number_def from_chars_def is_digit_def decimal_def)
  then have parsed: "parse_options ?args default_benchmark_options = Inr (False, ?o)"
    by (simp add: default_benchmark_options_def parse_option_def parse_workload_def checked_def finish_options_def)
  have w: "warmup_operations ?o = []" by (simp add: warmup_operations_def generate_operations_def)
  have m: "measured_operations ?o = [\<lparr>op_kind = Op_Ping, op_key = []\<rparr>]"
    by (simp add: measured_operations_def generate_operations_def Let_def case_prod_unfold)
  have acc: "accepts (replicate 100 (Accepted 1)) = 100" using accepts_replicate [of 100] by simp
  have st: "stream [Received (frame reply)] = (frame reply @ [], Exhausted, [])" for reply
    by simp
  have answers: "atto_answers [(q, a)] s" if "atto_ok q a" "length (atto_text q) \<le> 96"
    "se_link s = se_link (?s (atto_reply q a))" for q a s
    using that acc st [of "atto_reply q a"] by (auto simp: atto_answers_def)
  have ready: "peers_ready (atto_backend (\<lambda>_. [])) atto_answers ?calls ?fresh ?o"
  proof (rule peers_readyI [of _ _ _ _ "\<lambda>i. connected (?calls i) (?fresh i)"])
    show "be_connect (atto_backend (\<lambda>_. [])) (?calls i) (bo_host ?o) (bo_port ?o) (?fresh i)
        = Some (Inr (), connected (?calls i) (?fresh i))" for i
      by (simp add: atto_backend_def atto_connect_fresh default_benchmark_options_def)
    show "atto_answers (control_answers ?o (warmup_operations ?o) (measured_operations ?o))
        (connected (?calls (nat (bo_clients ?o))) (?fresh (nat (bo_clients ?o))))"
      unfolding w m
      by (simp add: control_answers_def prepared_def prepared_keys_def default_benchmark_options_def)
        (rule answers, simp_all add: atto_ok_def MAX_MESSAGE_SIZE_def)
    show "atto_answers (client_answers ?o (nat (bo_clients ?o)) (warmup_operations ?o) (measured_operations ?o) i)
        (connected (?calls i) (?fresh i))" if "i < nat (bo_clients ?o)" for i
      using that unfolding w m
      by (simp add: client_answers_def slices_of_def expected_def op_request_def op_expected_def
          default_benchmark_options_def)
        (rule answers, simp_all add: atto_ok_def MAX_MESSAGE_SIZE_def)
  qed
  have "bo_requests ?o * 100 + 99 < 2 ^ 64" by simp
  from benchmark_completes [OF parsed this, of "\<lambda>_. []" ?calls ?fresh
      "\<lambda>_. \<lparr>se_object = socket_new, se_link = \<lparr>ln_recv = [], ln_send = [], ln_sent = []\<rparr>, se_os = no_descriptors\<rparr>"
      ?timing] ready obtain report ends where
    "benchmark_main (\<lambda>_. []) ?timing ?calls ?fresh
      (\<lambda>_. \<lparr>se_object = socket_new, se_link = \<lparr>ln_recv = [], ln_send = [], ln_sent = []\<rparr>,
            se_os = \<lparr>os_open = {}, os_bad_closes = 0\<rparr>\<rparr>) ?args = Some (Inr (0, [Out report]), ends)"
    "reports ?o ?timing report" by auto
  moreover from this(2) have "reported ?o 2000 [7] report" by (simp add: reports_def)
  ultimately show ?thesis by blast
qed

end
