(* ===== verification/BenchmarkThreads.thy ===== *)
theory BenchmarkThreads
  imports BenchmarkRun
begin

text \<open>
  The threads of \<open>run_phase\<close> (benchmark/src/main.cpp): the main thread, which starts one worker for each
  connection, measures the time between two barriers and joins the workers, and the workers, which share
  with it only the barriers.  A step is one step of one thread, at a time of the steady clock that is not
  before that of the last step; the threads take their steps in any order.
\<close>

section \<open>The threads\<close>

text \<open>The barriers \<open>ready\<close>, \<open>start\<close> and \<open>done\<close>, each for \<open>clients + 1\<close> threads.  Of
  \<open>arrive_and_wait\<close>, arriving is one step and going on, when all have arrived, another one.\<close>

datatype barrier = Ready | Start | Finish

datatype worker_pc = Arriving barrier | Waiting barrier | At_Loop | Timing nat | Ended

record 's worker =
  wk_pc :: worker_pc
  wk_todo :: "(nat \<times> operation) list"
  wk_latencies :: "u64 list"
  wk_error :: string
  wk_session :: 's

datatype main_pc = Spawning nat | Main_Arriving barrier | Main_Waiting barrier | Joining nat | Main_Ended

record 's phase_state =
  st_main :: main_pc
  st_workers :: "'s worker list"
  st_offset :: nat
  st_arrived :: "barrier \<Rightarrow> nat"
  st_now :: nat
  st_phase_start :: nat
  st_phase_end :: nat

fun after_barrier :: "barrier \<Rightarrow> worker_pc" where
  "after_barrier Ready = Arriving Start"
| "after_barrier Start = At_Loop"
| "after_barrier Finish = Ended"

text \<open>The function of a worker, one step at time \<open>t\<close>; \<open>None\<close> while it has to wait, for the other threads
  or for the server.  \<open>Timing t0\<close> is inside of an operation that began at \<open>t0\<close>.\<close>

definition worker_step :: "'s backend \<Rightarrow> string \<Rightarrow> bool \<Rightarrow> nat \<Rightarrow> nat \<Rightarrow> 's worker \<Rightarrow> (barrier \<Rightarrow> nat)
    \<Rightarrow> ('s worker \<times> (barrier \<Rightarrow> nat)) option" where
  "worker_step be val record_latency threads t w arrived =
     (case wk_pc w of
        Arriving b \<Rightarrow> Some (w\<lparr>wk_pc := Waiting b\<rparr>, arrived(b := arrived b + 1))
      | Waiting b \<Rightarrow> if arrived b = threads then Some (w\<lparr>wk_pc := after_barrier b\<rparr>, arrived) else None
      | At_Loop \<Rightarrow>
          Some (w\<lparr>wk_pc := if wk_todo w = [] then Arriving Finish else Timing t\<rparr>, arrived)
      | Timing operation_start \<Rightarrow>
          (case wk_todo w of
             [] \<Rightarrow> None
           | (i, operation) # todo \<Rightarrow>
               (case execute be operation val (wk_session w) of
                  None \<Rightarrow> None
                | Some (Inl e, s) \<Rightarrow>
                    Some (w\<lparr>wk_pc := Arriving Finish, wk_error := e, wk_session := s\<rparr>, arrived)
                | Some (Inr _, s) \<Rightarrow>
                    Some (w\<lparr>wk_pc := At_Loop, wk_todo := todo, wk_session := s,
                       wk_latencies := if record_latency
                         then wk_latencies w @ [word_of_nat (t - operation_start)] else wk_latencies w\<rparr>,
                      arrived)))
      | Ended \<Rightarrow> None)"

text \<open>The main thread.\<close>

definition main_step :: "'s list \<Rightarrow> operation list \<Rightarrow> nat \<Rightarrow> 's phase_state \<Rightarrow> 's phase_state option" where
  "main_step sessions operations t st =
     (let clients = length sessions in
      case st_main st of
        Spawning k \<Rightarrow>
          if k < clients then
            let count = length operations div clients + (if k < length operations mod clients then 1 else 0)
            in Some (st\<lparr>st_main := Spawning (Suc k), st_offset := st_offset st + count,
                 st_workers := st_workers st @
                   [\<lparr>wk_pc = Arriving Ready, wk_todo = take count (drop (st_offset st) (enumerate 0 operations)),
                     wk_latencies = [], wk_error = [], wk_session = sessions ! k\<rparr>]\<rparr>)
          else Some (st\<lparr>st_main := Main_Arriving Ready\<rparr>)
      | Main_Arriving b \<Rightarrow>
          Some (st\<lparr>st_main := Main_Waiting b, st_arrived := (st_arrived st)(b := st_arrived st b + 1)\<rparr>)
      | Main_Waiting b \<Rightarrow>
          if st_arrived st b = clients + 1 then
            (case b of
               Ready \<Rightarrow> Some (st\<lparr>st_phase_start := t, st_main := Main_Arriving Start\<rparr>)
             | Start \<Rightarrow> Some (st\<lparr>st_main := Main_Arriving Finish\<rparr>)
             | Finish \<Rightarrow> Some (st\<lparr>st_phase_end := t, st_main := Joining 0\<rparr>))
          else None
      | Joining k \<Rightarrow>
          if k < clients then
            if wk_pc (st_workers st ! k) = Ended then Some (st\<lparr>st_main := Joining (Suc k)\<rparr>) else None
          else Some (st\<lparr>st_main := Main_Ended\<rparr>)
      | Main_Ended \<Rightarrow> None)"

text \<open>A step of the main thread (\<open>None\<close>) or of a worker at time \<open>t\<close>.\<close>

definition thread_step :: "'s backend \<Rightarrow> 's list \<Rightarrow> operation list \<Rightarrow> string \<Rightarrow> bool \<Rightarrow> nat option \<Rightarrow> nat
    \<Rightarrow> 's phase_state \<Rightarrow> 's phase_state option" where
  "thread_step be sessions operations val record_latency who t st =
     (if t < st_now st then None
      else map_option (st_now_update (\<lambda>_. t))
        (case who of
           None \<Rightarrow> main_step sessions operations t st
         | Some k \<Rightarrow>
             if k < length (st_workers st) then
               map_option (\<lambda>(w, arrived). st\<lparr>st_workers := (st_workers st)[k := w], st_arrived := arrived\<rparr>)
                 (worker_step be val record_latency (length sessions + 1) t (st_workers st ! k) (st_arrived st))
             else None))"

definition phase_begin :: "'s phase_state" where
  "phase_begin = \<lparr>st_main = Spawning 0, st_workers = [], st_offset = 0, st_arrived = (\<lambda>_. 0), st_now = 0,
     st_phase_start = 0, st_phase_end = 0\<rparr>"

text \<open>What the main thread makes of the workers after it has joined them.\<close>

definition phase_outcome :: "'s phase_state \<Rightarrow> 's phase_result" where
  "phase_outcome st =
     \<lparr>ph_elapsed = st_phase_end st - st_phase_start st,
      ph_latencies = concat (map wk_latencies (st_workers st)),
      ph_error = phase_error 0 (map wk_error (st_workers st)),
      ph_sessions = map wk_session (st_workers st)\<rparr>"

text \<open>The states that the threads reach together in \<open>n\<close> steps.\<close>

inductive phase_reach :: "'s backend \<Rightarrow> 's list \<Rightarrow> operation list \<Rightarrow> string \<Rightarrow> bool \<Rightarrow> nat \<Rightarrow> 's phase_state \<Rightarrow> bool"
  for be sessions operations val record_latency
where
  phase_begins: "phase_reach be sessions operations val record_latency 0 phase_begin"
| phase_steps: "phase_reach be sessions operations val record_latency n st \<Longrightarrow>
    thread_step be sessions operations val record_latency who t st = Some st' \<Longrightarrow>
    phase_reach be sessions operations val record_latency (Suc n) st'"

section \<open>How far a thread has come\<close>

fun worker_rank :: "worker_pc \<Rightarrow> nat" where
  "worker_rank (Arriving Ready) = 0"
| "worker_rank (Waiting Ready) = 1"
| "worker_rank (Arriving Start) = 2"
| "worker_rank (Waiting Start) = 3"
| "worker_rank At_Loop = 4"
| "worker_rank (Timing t) = 4"
| "worker_rank (Arriving Finish) = 5"
| "worker_rank (Waiting Finish) = 6"
| "worker_rank Ended = 7"

fun main_rank :: "main_pc \<Rightarrow> nat" where
  "main_rank (Spawning k) = 0"
| "main_rank (Main_Arriving Ready) = 0"
| "main_rank (Main_Waiting Ready) = 1"
| "main_rank (Main_Arriving Start) = 2"
| "main_rank (Main_Waiting Start) = 3"
| "main_rank (Main_Arriving Finish) = 5"
| "main_rank (Main_Waiting Finish) = 6"
| "main_rank (Joining k) = 7"
| "main_rank Main_Ended = 7"

text \<open>A thread of rank \<open>level b\<close> or more has arrived at \<open>b\<close>, one of a greater rank has gone on.\<close>

fun level :: "barrier \<Rightarrow> nat" where
  "level Ready = 1"
| "level Start = 3"
| "level Finish = 6"

definition ranks :: "'s phase_state \<Rightarrow> nat list" where
  "ranks st = main_rank (st_main st) # map (\<lambda>w. worker_rank (wk_pc w)) (st_workers st)"

text \<open>The count of a barrier is the number of threads that have arrived, and no thread goes on before all
  have arrived.\<close>

definition barriers_ok :: "nat \<Rightarrow> nat list \<Rightarrow> (barrier \<Rightarrow> nat) \<Rightarrow> bool" where
  "barriers_ok threads rs arrived \<longleftrightarrow> length rs \<le> threads
     \<and> (\<forall>b. arrived b = length (filter (\<lambda>r. level b \<le> r) rs))
     \<and> (\<forall>b. \<forall>r \<in> set rs. level b < r \<longrightarrow> arrived b = threads)"

lemma filter_update_count:
  "i < length xs \<Longrightarrow> length (filter P (xs[i := y])) + (if P (xs ! i) then 1 else 0)
    = length (filter P xs) + (if P y then 1 else 0)"
proof (induction xs arbitrary: i)
  case (Cons x xs)
  then show ?case by (cases i) auto
qed simp

lemma barriers_full:
  assumes "barriers_ok threads rs arrived" and "arrived b = threads"
  shows "length rs = threads" and "r \<in> set rs \<Longrightarrow> level b \<le> r"
proof -
  have le: "length rs \<le> threads" and "length (filter (\<lambda>r. level b \<le> r) rs) = threads"
    using assms by (auto simp: barriers_ok_def)
  moreover have "length (filter (\<lambda>r. level b \<le> r) rs) \<le> length rs" by simp
  ultimately show len: "length rs = threads" by linarith
  then have "filter (\<lambda>r. level b \<le> r) rs = rs"
    using \<open>length (filter (\<lambda>r. level b \<le> r) rs) = threads\<close>
    by (metis length_filter_less linorder_neq_iff filter_id_conv)
  then show "r \<in> set rs \<Longrightarrow> level b \<le> r" by (simp add: filter_id_conv)
qed

text \<open>One thread moves from rank \<open>rs ! i\<close> to \<open>r\<close>.\<close>

lemma barriers_move:
  assumes ok: "barriers_ok threads rs arrived" and i: "i < length rs" and "rs ! i \<le> r"
    and count: "\<And>b. arrived' b = arrived b + (if rs ! i < level b \<and> level b \<le> r then 1 else 0)"
    and gate: "\<And>b. level b < r \<Longrightarrow> \<not> level b < rs ! i \<Longrightarrow> arrived b = threads"
  shows "barriers_ok threads (rs[i := r]) arrived'"
proof -
  have old: "length rs \<le> threads" "\<And>b. arrived b = length (filter (\<lambda>r. level b \<le> r) rs)"
    "\<And>b r. r \<in> set rs \<Longrightarrow> level b < r \<Longrightarrow> arrived b = threads"
    using ok by (auto simp: barriers_ok_def)
  have new: "arrived' b = length (filter (\<lambda>r. level b \<le> r) (rs[i := r]))" for b
    using filter_update_count [OF i, of "\<lambda>r. level b \<le> r" r] old(2) [of b] count [of b] assms(3)
    by (auto split: if_splits)
  have "length (filter (\<lambda>r. level b \<le> r) (rs[i := r])) \<le> threads" for b
    using length_filter_le [of "\<lambda>r. level b \<le> r" "rs[i := r]"] old(1) by simp
  then have keep: "arrived b = threads \<Longrightarrow> arrived' b = threads" for b
    using count [of b] new [of b] by (metis le_add1 le_antisym)
  have "arrived' b = threads" if r': "r' \<in> set (rs[i := r])" "level b < r'" for b r'
  proof -
    consider "r' = r" | "r' \<in> set rs" using r'(1) set_update_subset_insert [of rs i r] by auto
    then show ?thesis
    proof cases
      case 1
      then show ?thesis using r'(2) gate [of b] keep old(3) [OF nth_mem [OF i]] by blast
    next
      case 2
      then show ?thesis using r'(2) keep old(3) by blast
    qed
  qed
  then show ?thesis using old(1) new by (simp add: barriers_ok_def)
qed

lemma barriers_spawn:
  assumes "barriers_ok threads rs arrived" and "length rs < threads"
  shows "barriers_ok threads (rs @ [0]) arrived"
proof -
  have "\<not> level b \<le> 0" for b by (cases b) simp_all
  then show ?thesis using assms by (auto simp: barriers_ok_def)
qed

lemma ranks_worker:
  assumes "k < length (st_workers st)"
  shows "Suc k < length (ranks st)" and "ranks st ! Suc k = worker_rank (wk_pc (st_workers st ! k))"
    and "ranks (st\<lparr>st_workers := (st_workers st)[k := w], st_arrived := arrived\<rparr>)
      = (ranks st)[Suc k := worker_rank (wk_pc w)]"
  using assms by (simp_all add: ranks_def map_update)

lemma barriers_worker_step:
  assumes "barriers_ok threads (ranks st) (st_arrived st)" and "k < length (st_workers st)"
    and step: "worker_step be val rec threads t (st_workers st ! k) (st_arrived st) = Some (w, arrived)"
  shows "barriers_ok threads ((ranks st)[Suc k := worker_rank (wk_pc w)]) arrived"
proof (rule barriers_move [OF assms(1)])
  let ?w = "st_workers st ! k"
  note r = ranks_worker(1,2) [OF assms(2)]
  show "Suc k < length (ranks st)" by (rule r)
  show "ranks st ! Suc k \<le> worker_rank (wk_pc w)"
    using step r(2)
    by (cases "wk_pc ?w"; cases "wk_pc ?w" rule: worker_rank.cases)
      (auto simp: worker_step_def split: if_splits list.splits option.splits sum.splits prod.splits)
  show "arrived b = st_arrived st b + (if ranks st ! Suc k < level b \<and> level b \<le> worker_rank (wk_pc w) then 1 else 0)" for b
    using step r(2)
    by (cases "wk_pc ?w" rule: worker_rank.cases; cases b)
      (auto simp: worker_step_def split: if_splits list.splits option.splits sum.splits prod.splits)
  show "level b < worker_rank (wk_pc w) \<Longrightarrow> \<not> level b < ranks st ! Suc k \<Longrightarrow> st_arrived st b = threads" for b
    using step r(2)
    by (cases "wk_pc ?w" rule: worker_rank.cases; cases b)
      (auto simp: worker_step_def split: if_splits list.splits option.splits sum.splits prod.splits)
qed

lemma barriers_main_step:
  assumes "barriers_ok (length sessions + 1) (ranks st) (st_arrived st)"
    and spawned: "\<And>k. st_main st = Spawning k \<Longrightarrow> length (st_workers st) = k"
    and step: "main_step sessions ops t st = Some st'"
  shows "barriers_ok (length sessions + 1) (ranks st') (st_arrived st')"
proof (cases "\<exists>k. st_main st = Spawning k \<and> k < length sessions")
  case True
  then obtain k where k: "st_main st = Spawning k" "k < length sessions" by blast
  then have "ranks st' = ranks st @ [0]" "st_arrived st' = st_arrived st"
    using step by (auto simp: main_step_def Let_def ranks_def)
  moreover have "length (ranks st) < length sessions + 1" using k spawned by (simp add: ranks_def)
  ultimately show ?thesis using barriers_spawn [OF assms(1)] by simp
next
  case False
  have r: "0 < length (ranks st)" "ranks st ! 0 = main_rank (st_main st)" by (simp_all add: ranks_def)
  have "ranks st' = (ranks st)[0 := main_rank (st_main st')]"
    using step False by (auto simp: main_step_def Let_def ranks_def
        split: main_pc.splits if_splits barrier.splits)
  moreover have "barriers_ok (length sessions + 1) ((ranks st)[0 := main_rank (st_main st')]) (st_arrived st')"
  proof (rule barriers_move [OF assms(1) r(1)])
    show "ranks st ! 0 \<le> main_rank (st_main st')"
      using step False r(2) by (cases "st_main st" rule: main_rank.cases)
        (auto simp: main_step_def Let_def split: if_splits)
    show "st_arrived st' b
      = st_arrived st b + (if ranks st ! 0 < level b \<and> level b \<le> main_rank (st_main st') then 1 else 0)" for b
      using step False r(2) by (cases "st_main st" rule: main_rank.cases; cases b)
        (auto simp: main_step_def Let_def split: if_splits)
    show "level b < main_rank (st_main st') \<Longrightarrow> \<not> level b < ranks st ! 0
      \<Longrightarrow> st_arrived st b = length sessions + 1" for b
      using step False r(2) by (cases "st_main st" rule: main_rank.cases; cases b)
        (auto simp: main_step_def Let_def split: if_splits)
  qed
  ultimately show ?thesis by simp
qed

section \<open>What a worker does\<close>

text \<open>The latencies \<open>ls\<close> before those of a run.\<close>

definition earlier :: "u64 list \<Rightarrow> (u64 list \<times> string \<times> 's) option \<Rightarrow> (u64 list \<times> string \<times> 's) option" where
  "earlier ls = map_option (\<lambda>(ls', e, s). (ls @ ls', e, s))"

lemma earlier_simps [simp]:
  "earlier [] m = m"
  "earlier ls None = None"
  "earlier ls (Some (ls', e, s)) = Some (ls @ ls', e, s)"
  by (cases m) (auto simp: earlier_def)

lemma earlier_snoc: "earlier ls (map_option (\<lambda>(ls', end). (l # ls', end)) m) = earlier (ls @ [l]) m"
  by (cases m) auto

text \<open>
  A worker with the operations \<open>part\<close> and the connection \<open>s0\<close> at its beginning: it has done those in
  \<open>past\<close>, taking the times of some clock, and with any clock that agrees on these, \<open>run_worker\<close>
  ends as the worker would go on.
\<close>

definition work_ok :: "'s backend \<Rightarrow> string \<Rightarrow> bool \<Rightarrow> (nat \<times> operation) list \<Rightarrow> 's \<Rightarrow> 's worker \<Rightarrow> bool" where
  "work_ok be val record_latency part s0 w \<longleftrightarrow>
     (\<exists>past clock. part = past @ wk_todo w \<and> (\<forall>c. (\<forall>i \<in> fst ` set past. c i = clock i) \<longrightarrow>
        run_worker be val c record_latency part s0 =
          (if 5 \<le> worker_rank (wk_pc w) then Some (wk_latencies w, wk_error w, wk_session w)
           else earlier (wk_latencies w) (run_worker be val c record_latency (wk_todo w) (wk_session w)))))
     \<and> (worker_rank (wk_pc w) < 5 \<longrightarrow> wk_error w = [])
     \<and> (\<forall>t0. wk_pc w = Timing t0 \<longrightarrow> wk_todo w \<noteq> [])"

lemma work_okI:
  assumes "part = past @ wk_todo w"
    and "\<And>c. \<forall>i \<in> fst ` set past. c i = clock i \<Longrightarrow>
        run_worker be val c record_latency part s0 =
          (if 5 \<le> worker_rank (wk_pc w) then Some (wk_latencies w, wk_error w, wk_session w)
           else earlier (wk_latencies w) (run_worker be val c record_latency (wk_todo w) (wk_session w)))"
    and "worker_rank (wk_pc w) < 5 \<Longrightarrow> wk_error w = []"
    and "\<And>t0. wk_pc w = Timing t0 \<Longrightarrow> wk_todo w \<noteq> []"
  shows "work_ok be val record_latency part s0 w"
  using assms unfolding work_ok_def by blast

lemma work_begins: "work_ok be val rec part s
    \<lparr>wk_pc = Arriving Ready, wk_todo = part, wk_latencies = [], wk_error = [], wk_session = s\<rparr>"
  by (rule work_okI [of _ "[]"]) simp_all

text \<open>A step that only moves the thread on, before or after the loop.\<close>

lemma work_moves:
  assumes "work_ok be val rec part s0 w" and "(5 \<le> worker_rank pc) = (5 \<le> worker_rank (wk_pc w))"
    and "\<And>t0. pc = Timing t0 \<Longrightarrow> wk_todo w \<noteq> []"
  shows "work_ok be val rec part s0 (w\<lparr>wk_pc := pc\<rparr>)"
proof -
  obtain past clock where "part = past @ wk_todo w" and
    "\<And>c. \<forall>i \<in> fst ` set past. c i = clock i \<Longrightarrow> run_worker be val c rec part s0
      = (if 5 \<le> worker_rank (wk_pc w) then Some (wk_latencies w, wk_error w, wk_session w)
         else earlier (wk_latencies w) (run_worker be val c rec (wk_todo w) (wk_session w)))"
    and "worker_rank (wk_pc w) < 5 \<Longrightarrow> wk_error w = []"
    using assms(1) unfolding work_ok_def by blast
  then show ?thesis using assms(2,3) by (intro work_okI [of _ past _ clock]) simp_all
qed

lemma work_ends:
  assumes "work_ok be val rec part s0 w" and "worker_rank (wk_pc w) < 5" and "wk_todo w = []"
  shows "work_ok be val rec part s0 (w\<lparr>wk_pc := Arriving Finish\<rparr>)"
proof -
  obtain past clock where "part = past @ wk_todo w" and
    "\<And>c. \<forall>i \<in> fst ` set past. c i = clock i \<Longrightarrow> run_worker be val c rec part s0
      = earlier (wk_latencies w) (run_worker be val c rec (wk_todo w) (wk_session w))"
    and "wk_error w = []"
    using assms(1,2) unfolding work_ok_def by auto
  then show ?thesis using assms(3) by (intro work_okI [of _ past _ clock]) simp_all
qed

lemma work_fails:
  assumes "work_ok be val rec part s0 w" and "worker_rank (wk_pc w) < 5" and "wk_todo w = (i, op) # todo"
    and "execute be op val (wk_session w) = Some (Inl e, s)"
  shows "work_ok be val rec part s0 (w\<lparr>wk_pc := Arriving Finish, wk_error := e, wk_session := s\<rparr>)"
proof -
  obtain past clock where "part = past @ wk_todo w" and
    "\<And>c. \<forall>i \<in> fst ` set past. c i = clock i \<Longrightarrow> run_worker be val c rec part s0
      = earlier (wk_latencies w) (run_worker be val c rec (wk_todo w) (wk_session w))"
    using assms(1,2) unfolding work_ok_def by auto
  then show ?thesis using assms(3,4) by (intro work_okI [of _ past _ clock]) simp_all
qed

lemma work_goes_on:
  assumes "work_ok be val rec part s0 w" and "worker_rank (wk_pc w) < 5" and todo: "wk_todo w = (i, op) # todo"
    and run: "execute be op val (wk_session w) = Some (Inr u, s)" and "distinct (map fst part)"
  shows "work_ok be val rec part s0 (w\<lparr>wk_pc := At_Loop, wk_todo := todo, wk_session := s,
      wk_latencies := if rec then wk_latencies w @ [l] else wk_latencies w\<rparr>)"
proof -
  let ?w = "w\<lparr>wk_pc := At_Loop, wk_todo := todo, wk_session := s,
      wk_latencies := if rec then wk_latencies w @ [l] else wk_latencies w\<rparr>"
  obtain past clock where part: "part = past @ wk_todo w" and
    eq: "\<And>c. \<forall>i \<in> fst ` set past. c i = clock i \<Longrightarrow> run_worker be val c rec part s0
      = earlier (wk_latencies w) (run_worker be val c rec (wk_todo w) (wk_session w))"
    and e: "wk_error w = []"
    using assms(1,2) unfolding work_ok_def by auto
  have new: "i \<notin> fst ` set past" using assms(5) by (simp add: part todo)
  show ?thesis
  proof (rule work_okI [of _ "past @ [(i, op)]" _ "clock(i := l)"])
    fix c assume c: "\<forall>j \<in> fst ` set (past @ [(i, op)]). c j = (clock(i := l)) j"
    then have "c i = l" and "\<forall>j \<in> fst ` set past. c j = clock j" using new by auto
    then show "run_worker be val c rec part s0 =
          (if 5 \<le> worker_rank (wk_pc ?w) then Some (wk_latencies ?w, wk_error ?w, wk_session ?w)
           else earlier (wk_latencies ?w) (run_worker be val c rec (wk_todo ?w) (wk_session ?w)))"
      using eq [of c] todo run by (cases rec) (simp_all add: earlier_snoc option.map_id)
  qed (simp_all add: part todo e)
qed

lemma worker_step_work:
  assumes "worker_step be val rec threads t w arrived = Some (w', arrived')"
    and "work_ok be val rec part s0 w" and "distinct (map fst part)"
  shows "work_ok be val rec part s0 w'"
proof (cases "wk_pc w")
  case (Arriving b)
  then show ?thesis using assms(1) work_moves [OF assms(2), of "Waiting b"]
    by (cases b) (auto simp: worker_step_def)
next
  case (Waiting b)
  then show ?thesis using assms(1) work_moves [OF assms(2), of "after_barrier b"]
    by (cases b) (auto simp: worker_step_def split: if_splits)
next
  case At_Loop
  then show ?thesis using assms(1) work_moves [OF assms(2), of "Timing t"] work_ends [OF assms(2)]
    by (auto simp: worker_step_def split: if_splits)
next
  case (Timing t0)
  then show ?thesis using assms(1) work_fails [OF assms(2)] work_goes_on [OF assms(2) _ _ _ assms(3)]
    by (auto simp: worker_step_def split: list.splits option.splits sum.splits)
next
  case Ended
  then show ?thesis using assms(1) by (simp add: worker_step_def)
qed

section \<open>What the clock shows\<close>

text \<open>The time up to which a worker has spent its latencies: its last reading of the clock.\<close>

definition spent_until :: "nat \<Rightarrow> 's worker \<Rightarrow> nat" where
  "spent_until now w = (case wk_pc w of Timing operation_start \<Rightarrow> operation_start | _ \<Rightarrow> now)"

abbreviation total_latency :: "'s worker \<Rightarrow> nat" where
  "total_latency w \<equiv> sum_list (map unat (wk_latencies w))"

definition times_ok :: "nat \<Rightarrow> nat \<Rightarrow> 's worker \<Rightarrow> bool" where
  "times_ok phase_start now w \<longleftrightarrow>
     (if 4 \<le> worker_rank (wk_pc w)
      then phase_start \<le> spent_until now w \<and> spent_until now w \<le> now
        \<and> total_latency w \<le> spent_until now w - phase_start
      else wk_latencies w = [])"

lemma unat_word_of_nat_le: "unat (word_of_nat n :: u64) \<le> n"
  by (simp add: unat_of_nat)

lemma times_later:
  assumes "times_ok phase_start now w" and "now \<le> t"
  shows "times_ok phase_start t w"
  using assms by (auto simp: times_ok_def spent_until_def split: worker_pc.splits)

lemma worker_step_times:
  assumes step: "worker_step be val rec threads t w arrived = Some (w', arrived')"
    and ok: "times_ok phase_start now w" and t: "now \<le> t"
    and started: "wk_pc w = Waiting Start \<Longrightarrow> phase_start \<le> now"
  shows "times_ok phase_start t w'"
proof (cases "wk_pc w" rule: worker_rank.cases)
  case (6 t0)
  have b: "phase_start \<le> t0" "t0 \<le> now" "total_latency w \<le> t0 - phase_start"
    using ok by (simp_all add: times_ok_def spent_until_def 6)
  have "total_latency w + unat (word_of_nat (t - t0) :: u64) \<le> t - phase_start"
    using b t unat_word_of_nat_le [of "t - t0"] by linarith
  then show ?thesis using step b t
    by (auto simp: worker_step_def 6 times_ok_def spent_until_def split: list.splits option.splits sum.splits)
qed (use assms in \<open>auto simp: worker_step_def times_ok_def spent_until_def split: if_splits\<close>)

section \<open>The invariant of all threads\<close>

definition worker_count :: "nat \<Rightarrow> nat \<Rightarrow> nat \<Rightarrow> nat" where
  "worker_count clients n k = n div clients + (if k < n mod clients then 1 else 0)"

text \<open>The operations of worker \<open>k\<close>, with their indices.\<close>

definition part_of :: "'s list \<Rightarrow> operation list \<Rightarrow> nat \<Rightarrow> (nat \<times> operation) list" where
  "part_of sessions ops k = worker_slices (length sessions) (enumerate 0 ops) 0 0 (length sessions) ! k"

lemma worker_slices_Suc:
  "worker_slices clients xs k offset (Suc n) = take (worker_count clients (length xs) k) (drop offset xs)
    # worker_slices clients xs (Suc k) (offset + worker_count clients (length xs) k) n"
  by (simp add: Let_def worker_count_def)

lemma nth_worker_slices:
  "j < n \<Longrightarrow> worker_slices clients xs k offset n ! j
    = take (worker_count clients (length xs) (k + j))
        (drop (offset + (\<Sum>i<j. worker_count clients (length xs) (k + i))) xs)"
proof (induction n arbitrary: k offset j)
  case (Suc n)
  show ?case
  proof (cases j)
    case (Suc j')
    have "(\<Sum>i<Suc j'. worker_count clients (length xs) (k + i))
        = worker_count clients (length xs) k + (\<Sum>i<j'. worker_count clients (length xs) (Suc k + i))"
      by (subst sum.lessThan_Suc_shift) simp
    then show ?thesis using Suc Suc.IH [of j' "Suc k"] Suc.prems
      by (simp add: worker_slices_Suc add.assoc del: worker_slices.simps sum.lessThan_Suc)
  qed (simp add: worker_slices_Suc del: worker_slices.simps)
qed simp

lemma part_of_nth:
  "k < length sessions \<Longrightarrow> part_of sessions ops k
    = take (worker_count (length sessions) (length ops) k)
        (drop (\<Sum>i<k. worker_count (length sessions) (length ops) i) (enumerate 0 ops))"
  by (simp add: part_of_def nth_worker_slices)

lemma part_of_distinct:
  assumes "k < length sessions"
  shows "distinct (map fst (part_of sessions ops k))"
proof -
  have "map fst (enumerate 0 ops) = [0..<length ops]" by (simp add: enumerate_eq_zip)
  then show ?thesis using assms by (simp add: part_of_nth flip: take_map drop_map)
qed

definition phase_inv :: "'s backend \<Rightarrow> 's list \<Rightarrow> operation list \<Rightarrow> string \<Rightarrow> bool \<Rightarrow> 's phase_state \<Rightarrow> bool" where
  "phase_inv be sessions ops val rec st \<longleftrightarrow>
     barriers_ok (length sessions + 1) (ranks st) (st_arrived st)
     \<and> (case st_main st of
          Spawning k \<Rightarrow> length (st_workers st) = k \<and> k \<le> length sessions
        | _ \<Rightarrow> length (st_workers st) = length sessions)
     \<and> st_offset st = (\<Sum>i<length (st_workers st). worker_count (length sessions) (length ops) i)
     \<and> (\<forall>k < length (st_workers st). work_ok be val rec (part_of sessions ops k) (sessions ! k) (st_workers st ! k))"

definition clock_inv :: "'s phase_state \<Rightarrow> bool" where
  "clock_inv st \<longleftrightarrow>
     (2 \<le> main_rank (st_main st) \<longrightarrow> st_phase_start st \<le> st_now st)
     \<and> (\<forall>w \<in> set (st_workers st). times_ok (st_phase_start st) (st_now st) w)
     \<and> (main_rank (st_main st) = 7 \<longrightarrow> st_phase_start st \<le> st_phase_end st
          \<and> (\<forall>w \<in> set (st_workers st). total_latency w \<le> st_phase_end st - st_phase_start st))"

definition join_inv :: "nat \<Rightarrow> 's phase_state \<Rightarrow> bool" where
  "join_inv clients st \<longleftrightarrow>
     (\<forall>k. st_main st = Joining k \<longrightarrow> k \<le> clients \<and> (\<forall>j < k. wk_pc (st_workers st ! j) = Ended))
     \<and> (st_main st = Main_Ended \<longrightarrow> (\<forall>j < clients. wk_pc (st_workers st ! j) = Ended))"

lemma length_workers_le: "phase_inv be sessions ops val rec st \<Longrightarrow> length (st_workers st) \<le> length sessions"
  by (auto simp: phase_inv_def split: main_pc.splits)

text \<open>The steps, one by one.\<close>

lemma thread_stepE:
  assumes "thread_step be sessions ops val rec who t st = Some st'"
  obtains (Main) st1 where "who = None" and "st_now st \<le> t" and "main_step sessions ops t st = Some st1"
      and "st' = st1\<lparr>st_now := t\<rparr>"
  | (Worker) k w arrived where "who = Some k" and "st_now st \<le> t" and "k < length (st_workers st)"
      and "worker_step be val rec (length sessions + 1) t (st_workers st ! k) (st_arrived st) = Some (w, arrived)"
      and "st' = st\<lparr>st_workers := (st_workers st)[k := w], st_arrived := arrived, st_now := t\<rparr>"
  using assms by (auto simp: thread_step_def split: if_splits option.splits)

lemma ranks_now [simp]: "ranks (st\<lparr>st_now := t\<rparr>) = ranks st"
  by (simp add: ranks_def)

lemma worker_step_phase:
  assumes inv: "phase_inv be sessions ops val rec st" and k: "k < length (st_workers st)"
    and step: "worker_step be val rec (length sessions + 1) t (st_workers st ! k) (st_arrived st) = Some (w, arrived)"
  shows "phase_inv be sessions ops val rec
    (st\<lparr>st_workers := (st_workers st)[k := w], st_arrived := arrived, st_now := t\<rparr>)"
proof -
  have "barriers_ok (length sessions + 1) (ranks st) (st_arrived st)" using inv by (simp add: phase_inv_def)
  from barriers_worker_step [OF this k step]
  have b: "barriers_ok (length sessions + 1) ((ranks st)[Suc k := worker_rank (wk_pc w)]) arrived" .
  have k': "k < length sessions" using length_workers_le [OF inv] k by simp
  have "work_ok be val rec (part_of sessions ops k) (sessions ! k) (st_workers st ! k)"
    using inv k by (simp add: phase_inv_def)
  from worker_step_work [OF step this part_of_distinct [OF k']]
  have "work_ok be val rec (part_of sessions ops k) (sessions ! k) w" .
  moreover have "ranks (st\<lparr>st_workers := (st_workers st)[k := w], st_arrived := arrived, st_now := t\<rparr>)
      = (ranks st)[Suc k := worker_rank (wk_pc w)]"
    using ranks_worker(3) [OF k, where w = w and arrived = arrived] by (simp add: ranks_def)
  ultimately show ?thesis using inv b k
    by (auto simp: phase_inv_def nth_list_update split: main_pc.splits)
qed

lemma main_step_phase:
  assumes inv: "phase_inv be sessions ops val rec st" and step: "main_step sessions ops t st = Some st'"
  shows "phase_inv be sessions ops val rec st'"
proof -
  have "barriers_ok (length sessions + 1) (ranks st) (st_arrived st)"
    and "\<And>k. st_main st = Spawning k \<Longrightarrow> length (st_workers st) = k" using inv by (simp_all add: phase_inv_def)
  from barriers_main_step [OF this step]
  have b: "barriers_ok (length sessions + 1) (ranks st') (st_arrived st')" .
  show ?thesis
  proof (cases "\<exists>k. st_main st = Spawning k \<and> k < length sessions")
    case True
    then obtain k where k: "st_main st = Spawning k" "k < length sessions" by blast
    then have len: "length (st_workers st) = k"
      and off: "st_offset st = (\<Sum>i<k. worker_count (length sessions) (length ops) i)"
      using inv by (auto simp: phase_inv_def)
    let ?w = "\<lparr>wk_pc = Arriving Ready, wk_todo = part_of sessions ops k, wk_latencies = [], wk_error = [],
      wk_session = sessions ! k\<rparr>"
    have "st' = st\<lparr>st_main := Spawning (Suc k),
        st_offset := st_offset st + worker_count (length sessions) (length ops) k,
        st_workers := st_workers st @ [?w]\<rparr>"
      using step k by (simp add: main_step_def Let_def part_of_nth off worker_count_def)
    moreover have "work_ok be val rec (part_of sessions ops k) (sessions ! k) ?w" by (rule work_begins)
    ultimately show ?thesis using inv b k len off
      by (auto simp: phase_inv_def nth_append less_Suc_eq)
  next
    case False
    then have "st_workers st' = st_workers st" "st_offset st' = st_offset st"
      "case st_main st' of Spawning k \<Rightarrow> False | _ \<Rightarrow> length (st_workers st') = length sessions"
      using step inv by (auto simp: main_step_def phase_inv_def Let_def
          split: main_pc.splits if_splits barrier.splits)
    then show ?thesis using inv b by (auto simp: phase_inv_def split: main_pc.splits)
  qed
qed

text \<open>Where the other threads are when one has gone on behind a barrier.\<close>

lemma gone_on:
  assumes "phase_inv be sessions ops val rec st" and "r \<in> set (ranks st)" and "level b < r" and "r' \<in> set (ranks st)"
  shows "level b \<le> r'"
proof -
  have ok: "barriers_ok (length sessions + 1) (ranks st) (st_arrived st)" using assms(1) by (simp add: phase_inv_def)
  then have "st_arrived st b = length sessions + 1" using assms(2,3) by (auto simp: barriers_ok_def)
  from barriers_full(2) [OF ok this assms(4)] show ?thesis .
qed

lemma rank_mem:
  "main_rank (st_main st) \<in> set (ranks st)"
  "w \<in> set (st_workers st) \<Longrightarrow> worker_rank (wk_pc w) \<in> set (ranks st)"
  by (auto simp: ranks_def)

lemma opened:
  assumes "phase_inv be sessions ops val rec st" and "st_arrived st b = length sessions + 1" and "r \<in> set (ranks st)"
  shows "level b \<le> r"
  using assms barriers_full(2) by (auto simp: phase_inv_def)

lemma worker_step_clock:
  assumes inv: "phase_inv be sessions ops val rec st" and clock: "clock_inv st" and t: "st_now st \<le> t"
    and k: "k < length (st_workers st)"
    and step: "worker_step be val rec (length sessions + 1) t (st_workers st ! k) (st_arrived st) = Some (w, arrived)"
  shows "clock_inv (st\<lparr>st_workers := (st_workers st)[k := w], st_arrived := arrived, st_now := t\<rparr>)"
proof -
  let ?w = "st_workers st ! k" and ?b = "st_phase_start st"
  have mem: "?w \<in> set (st_workers st)" using k by simp
  have "?b \<le> st_now st" if "wk_pc ?w = Waiting Start"
  proof -
    have "st_arrived st Start = length sessions + 1" using step that by (auto simp: worker_step_def split: if_splits)
    from opened [OF inv this rank_mem(1)] show ?thesis using clock by (simp add: clock_inv_def)
  qed
  moreover have "times_ok ?b (st_now st) ?w" using clock mem by (simp add: clock_inv_def)
  ultimately have w: "times_ok ?b t w" using worker_step_times [OF step _ t] by blast
  have others: "times_ok ?b t x" if "x \<in> set (st_workers st)" for x
    using times_later [OF _ t, of "st_phase_start st" x] clock that by (simp add: clock_inv_def)
  have "total_latency w = total_latency ?w" if "main_rank (st_main st) = 7"
  proof -
    have "level Finish \<le> worker_rank (wk_pc ?w)"
      using gone_on [OF inv rank_mem(1) _ rank_mem(2) [OF mem], of Finish] that by simp
    then have "wk_latencies w = wk_latencies ?w" using step
      by (cases "wk_pc ?w" rule: worker_rank.cases) (auto simp: worker_step_def split: if_splits)
    then show ?thesis by simp
  qed
  moreover have "x = w \<or> x \<in> set (st_workers st)" if "x \<in> set ((st_workers st)[k := w])" for x
    using that set_update_subset_insert [of "st_workers st" k w] by blast
  ultimately show ?thesis using clock w others mem t unfolding clock_inv_def by fastforce
qed

lemma main_step_clock:
  assumes inv: "phase_inv be sessions ops val rec st" and clock: "clock_inv st" and t: "st_now st \<le> t"
    and step: "main_step sessions ops t st = Some st'"
  shows "clock_inv (st'\<lparr>st_now := t\<rparr>)"
proof -
  have later: "times_ok (st_phase_start st) t x" if "x \<in> set (st_workers st)" for x
    using times_later [OF _ t, of "st_phase_start st" x] clock that by (simp add: clock_inv_def)
  show ?thesis
  proof (cases "st_main st" rule: main_rank.cases)
    case (1 k)
    then show ?thesis using step later clock
      by (auto simp: main_step_def Let_def clock_inv_def times_ok_def split: if_splits)
  next
    case 3
    have early: "\<not> 4 \<le> worker_rank (wk_pc w)" if "w \<in> set (st_workers st)" for w
    proof
      assume "4 \<le> worker_rank (wk_pc w)"
      then have "level Start \<le> main_rank (st_main st)"
        using gone_on [OF inv rank_mem(2) [OF that] _ rank_mem(1), of Start] by simp
      then show False by (simp add: 3)
    qed
    then have "wk_latencies w = []" if "w \<in> set (st_workers st)" for w
      using later [OF that] early [OF that] by (simp add: times_ok_def)
    then show ?thesis using step 3 early by (auto simp: main_step_def Let_def clock_inv_def times_ok_def split: if_splits)
  next
    case 7
    then have full: "st_arrived st Finish = length sessions + 1" using step by (auto simp: main_step_def Let_def split: if_splits)
    have "total_latency w \<le> t - st_phase_start st" if "w \<in> set (st_workers st)" for w
    proof -
      have "level Finish \<le> worker_rank (wk_pc w)" by (rule opened [OF inv full rank_mem(2) [OF that]])
      then show ?thesis using later [OF that]
        by (cases "wk_pc w" rule: worker_rank.cases) (auto simp: times_ok_def spent_until_def)
    qed
    then show ?thesis using step 7 later clock t by (auto simp: main_step_def Let_def clock_inv_def split: if_splits)
  qed (use step later clock t in \<open>auto simp: main_step_def Let_def clock_inv_def split: if_splits\<close>)
qed

lemma thread_step_join:
  assumes "phase_inv be sessions ops val rec st" and "join_inv (length sessions) st"
    and "thread_step be sessions ops val rec who t st = Some st'"
  shows "join_inv (length sessions) st'"
  using assms(3)
proof (cases rule: thread_stepE)
  case (Main st1)
  then show ?thesis using assms(1,2)
    by (auto simp: join_inv_def main_step_def Let_def less_Suc_eq le_less
        split: main_pc.splits if_splits barrier.splits)
next
  case (Worker k w arrived)
  have "wk_pc (st_workers st ! k) \<noteq> Ended" using Worker(4) by (auto simp: worker_step_def)
  then have "wk_pc ((st_workers st)[k := w] ! j) = Ended" if "wk_pc (st_workers st ! j) = Ended" for j
    using that by (cases "j = k") auto
  then show ?thesis using Worker(5) assms(2) by (simp add: join_inv_def)
qed

lemma phase_reach_inv:
  assumes "phase_reach be sessions ops val rec n st"
  shows "phase_inv be sessions ops val rec st \<and> clock_inv st \<and> join_inv (length sessions) st"
  using assms
proof (induction rule: phase_reach.induct)
  case phase_begins
  have "\<not> level b \<le> 0" for b by (cases b) simp_all
  then show ?case
    by (simp add: phase_inv_def clock_inv_def join_inv_def phase_begin_def barriers_ok_def ranks_def)
next
  case (phase_steps n st who t st')
  then have inv: "phase_inv be sessions ops val rec st" "clock_inv st" "join_inv (length sessions) st" by simp_all
  note j = thread_step_join [OF inv(1,3) phase_steps.hyps(2)]
  from phase_steps.hyps(2) show ?case
  proof (cases rule: thread_stepE)
    case (Main st1)
    have "phase_inv be sessions ops val rec (st1\<lparr>st_now := t\<rparr>)"
      using main_step_phase [OF inv(1) Main(3)] by (simp add: phase_inv_def cong: main_pc.case_cong)
    then show ?thesis using main_step_clock [OF inv(1,2) Main(2,3)] j unfolding Main(4) by blast
  next
    case (Worker k w arrived)
    from worker_step_phase [OF inv(1) Worker(3,4)] worker_step_clock [OF inv(1,2) Worker(2-4)] j
    show ?thesis unfolding Worker(5) by blast
  qed
qed

section \<open>The threads come to their end\<close>

text \<open>How many steps are left.\<close>

definition worker_left :: "'s worker \<Rightarrow> nat" where
  "worker_left w = 7 - worker_rank (wk_pc w)
     + (case wk_pc w of
          Timing t \<Rightarrow> 2 * length (wk_todo w) - 1
        | pc \<Rightarrow> if worker_rank pc \<le> 4 then 2 * length (wk_todo w) else 0)"

definition main_left :: "nat \<Rightarrow> nat \<Rightarrow> 's phase_state \<Rightarrow> nat" where
  "main_left clients n st =
     (case st_main st of
        Spawning k \<Rightarrow> 8 * (clients - k) + 2 * (n - st_offset st) + 8 + (clients + 1)
      | Joining k \<Rightarrow> Suc (clients - k)
      | Main_Ended \<Rightarrow> 0
      | pc \<Rightarrow> 7 - main_rank pc + (clients + 1))"

definition steps_left :: "nat \<Rightarrow> nat \<Rightarrow> 's phase_state \<Rightarrow> nat" where
  "steps_left clients n st = main_left clients n st + sum_list (map worker_left (st_workers st))"

lemma worker_step_left:
  assumes "worker_step be val rec threads t w arrived = Some (w', arrived')"
  shows "worker_left w' < worker_left w"
  using assms
  by (cases "wk_pc w" rule: worker_rank.cases)
    (auto simp: worker_step_def worker_left_def neq_Nil_conv
      split: if_splits list.splits option.splits sum.splits)

lemma main_step_left:
  assumes "main_step sessions ops t st = Some st'"
  shows "steps_left (length sessions) (length ops) st' < steps_left (length sessions) (length ops) st"
proof (cases "\<exists>k. st_main st = Spawning k \<and> k < length sessions")
  case True
  then obtain k where k: "st_main st = Spawning k" "k < length sessions" by blast
  let ?n = "worker_count (length sessions) (length ops) k"
  have "st' = st\<lparr>st_main := Spawning (Suc k), st_offset := st_offset st + ?n,
        st_workers := st_workers st @ [\<lparr>wk_pc = Arriving Ready,
          wk_todo = take ?n (drop (st_offset st) (enumerate 0 ops)), wk_latencies = [], wk_error = [],
          wk_session = sessions ! k\<rparr>]\<rparr>"
    using assms k by (simp add: main_step_def Let_def worker_count_def)
  moreover have "length sessions - k = Suc (length sessions - Suc k)" using k(2) by simp
  moreover have "length ops - st_offset st = min (length ops - st_offset st) ?n + (length ops - (st_offset st + ?n))"
    by simp
  ultimately show ?thesis using k by (simp add: steps_left_def main_left_def worker_left_def min.commute)
next
  case False
  then show ?thesis using assms
    by (cases "st_main st" rule: main_rank.cases)
      (auto simp: main_step_def Let_def steps_left_def main_left_def split: if_splits)
qed

lemma thread_step_left:
  assumes "thread_step be sessions ops val rec who t st = Some st'"
  shows "steps_left (length sessions) (length ops) st' < steps_left (length sessions) (length ops) st"
  using assms
proof (cases rule: thread_stepE)
  case (Main st1)
  then show ?thesis using main_step_left [OF Main(3)]
    by (simp add: steps_left_def main_left_def cong: main_pc.case_cong)
next
  case (Worker k w arrived)
  have le: "worker_left (st_workers st ! k) \<le> sum_list (map worker_left (st_workers st))"
    using Worker(3) by (intro member_le_sum_list) simp_all
  have "sum_list (map worker_left ((st_workers st)[k := w])) < sum_list (map worker_left (st_workers st))"
    using worker_step_left [OF Worker(4)] le Worker(3) by (simp add: map_update sum_list_update)
  then show ?thesis using Worker(5) by (simp add: steps_left_def main_left_def cong: main_pc.case_cong)
qed

lemma phase_reach_bound:
  "phase_reach be sessions ops val rec n st \<Longrightarrow>
    n + steps_left (length sessions) (length ops) st \<le> 9 * length sessions + 2 * length ops + 9"
proof (induction rule: phase_reach.induct)
  case phase_begins
  then show ?case by (simp add: steps_left_def main_left_def phase_begin_def)
next
  case (phase_steps n st who t st')
  then show ?case using thread_step_left [OF phase_steps.hyps(2)] by linarith
qed

text \<open>Whether a worker ends does not depend on the clock.\<close>

lemma run_worker_None:
  "run_worker be val c rec iops s = None \<longleftrightarrow> run_worker be val c' rec iops s = None"
proof (induction iops arbitrary: s)
  case (Cons iop iops)
  then show ?case by (cases iop) (auto split: option.splits sum.splits)
qed simp

lemma those_map_nth:
  "length ys = length xs \<Longrightarrow> \<forall>k < length xs. f (xs ! k) = Some (ys ! k) \<Longrightarrow> those (map f xs) = Some ys"
proof (induction xs arbitrary: ys)
  case (Cons x xs)
  then obtain y ys' where ys: "ys = y # ys'" by (cases ys) auto
  have "f x = Some y" using Cons.prems(2) ys by force
  moreover have "\<forall>k < length xs. f (xs ! k) = Some (ys' ! k)" using Cons.prems(2) ys by force
  ultimately show ?case using Cons ys by simp
qed simp

lemma those_map_Some: "those (map f xs) = Some ys \<Longrightarrow> k < length xs \<Longrightarrow> f (xs ! k) \<noteq> None"
proof (induction xs arbitrary: ys k)
  case (Cons x xs)
  then show ?case by (cases k) (auto split: option.splits)
qed simp

lemma run_phase_workers:
  assumes "run_phase be sessions ops val timing rec = Some result" and "k < length sessions"
  shows "run_worker be val c rec (part_of sessions ops k) (sessions ! k) \<noteq> None"
proof -
  let ?parts = "worker_slices (length sessions) (enumerate 0 ops) 0 0 (length sessions)"
  obtain outs where "those (map (\<lambda>(iops, s). run_worker be val (pt_latency timing) rec iops s) (zip ?parts sessions)) = Some outs"
    using assms(1) by (auto simp: run_phase_def)
  from those_map_Some [OF this, of k] assms(2)
  have "run_worker be val (pt_latency timing) rec (part_of sessions ops k) (sessions ! k) \<noteq> None"
    by (simp add: part_of_def)
  then show ?thesis using run_worker_None by metis
qed

lemma worker_not_blocked:
  assumes "work_ok be val rec part s0 w" and "wk_pc w = Timing t0"
    and "\<And>c. run_worker be val c rec part s0 \<noteq> None"
  shows "\<exists>i op todo. wk_todo w = (i, op) # todo \<and> execute be op val (wk_session w) \<noteq> None"
proof -
  obtain clock where c: "run_worker be val clock rec part s0
      = earlier (wk_latencies w) (run_worker be val clock rec (wk_todo w) (wk_session w))"
    using assms(1,2) unfolding work_ok_def by fastforce
  obtain i op todo where todo: "wk_todo w = (i, op) # todo"
    using assms(1,2) unfolding work_ok_def by (metis neq_Nil_conv surj_pair)
  then show ?thesis using c assms(3) [of clock] by (cases "execute be op val (wk_session w)") auto
qed

lemma worker_enabled:
  assumes "work_ok be val rec part s0 w" and "\<And>c. run_worker be val c rec part s0 \<noteq> None"
    and "wk_pc w \<noteq> Ended" and "\<And>b. wk_pc w = Waiting b \<Longrightarrow> arrived b = threads"
  shows "worker_step be val rec threads t w arrived \<noteq> None"
proof (cases "wk_pc w")
  case (Timing t0)
  then show ?thesis using worker_not_blocked [OF assms(1) Timing assms(2)]
    by (auto simp: worker_step_def split: sum.splits)
qed (use assms(3,4) in \<open>auto simp: worker_step_def\<close>)

text \<open>Some thread can always go on.\<close>

lemma phase_progress:
  assumes inv: "phase_inv be sessions ops val rec st" and "join_inv (length sessions) st"
    and runs: "\<And>k c. k < length sessions \<Longrightarrow> run_worker be val c rec (part_of sessions ops k) (sessions ! k) \<noteq> None"
    and "st_main st \<noteq> Main_Ended"
  shows "\<exists>who st'. thread_step be sessions ops val rec who (st_now st) st = Some st'"
proof -
  have main: ?thesis if "main_step sessions ops (st_now st) st \<noteq> None"
    using that by (intro exI [of _ None]) (auto simp: thread_step_def)
  have worker: ?thesis if k: "k < length (st_workers st)" and "wk_pc (st_workers st ! k) \<noteq> Ended"
    and gate: "\<And>b. wk_pc (st_workers st ! k) = Waiting b \<Longrightarrow> level b < main_rank (st_main st)" for k
  proof -
    have len: "k < length sessions" using length_workers_le [OF inv] k by simp
    have "st_arrived st b = length sessions + 1" if "wk_pc (st_workers st ! k) = Waiting b" for b
      using inv gate [OF that] rank_mem(1) [of st] by (auto simp: phase_inv_def barriers_ok_def)
    moreover have "work_ok be val rec (part_of sessions ops k) (sessions ! k) (st_workers st ! k)"
      using inv k by (simp add: phase_inv_def)
    ultimately have "worker_step be val rec (length sessions + 1) (st_now st) (st_workers st ! k) (st_arrived st) \<noteq> None"
      using worker_enabled [OF _ runs [OF len]] that(2) by blast
    then show ?thesis using k by (intro exI [of _ "Some k"]) (auto simp: thread_step_def)
  qed
  show ?thesis
  proof (cases "st_main st")
    case (Main_Waiting b)
    show ?thesis
    proof (cases "st_arrived st b = length sessions + 1")
      case True
      then show ?thesis using main Main_Waiting by (cases b) (simp_all add: main_step_def Let_def)
    next
      case False
      have len: "length (st_workers st) = length sessions" using inv Main_Waiting by (simp add: phase_inv_def)
      have "\<exists>r \<in> set (ranks st). \<not> level b \<le> r"
      proof (rule ccontr)
        assume "\<not> ?thesis"
        then have "filter (\<lambda>r. level b \<le> r) (ranks st) = ranks st" by (simp add: filter_id_conv)
        then show False using False inv len by (simp add: phase_inv_def barriers_ok_def ranks_def)
      qed
      moreover have "main_rank (st_main st) = level b" by (cases b) (simp_all add: Main_Waiting)
      ultimately obtain w where "w \<in> set (st_workers st)" and low: "worker_rank (wk_pc w) < level b"
        by (auto simp: ranks_def)
      then obtain k where k: "k < length (st_workers st)" "w = st_workers st ! k" by (metis in_set_conv_nth)
      have "level b \<le> 6" by (cases b) simp_all
      then have "wk_pc w \<noteq> Ended" using low by auto
      moreover have "level b' < main_rank (st_main st)" if "wk_pc w = Waiting b'" for b'
        using low that \<open>main_rank (st_main st) = level b\<close> by (cases b') simp_all
      ultimately show ?thesis using worker k by blast
    qed
  next
    case (Joining k)
    then have len: "length (st_workers st) = length sessions" using inv by (simp add: phase_inv_def)
    show ?thesis
    proof (cases "k < length sessions \<and> wk_pc (st_workers st ! k) \<noteq> Ended")
      case True
      have "level b < main_rank (st_main st)" for b by (cases b) (simp_all add: Joining)
      then show ?thesis using worker [of k] True len by simp
    qed (use main in \<open>auto simp: main_step_def Joining Let_def\<close>)
  qed (use main assms(4) in \<open>auto simp: main_step_def Let_def\<close>)
qed

section \<open>What the threads compute\<close>

lemma distinct_concat_nth:
  assumes "distinct (concat xss)" and "i < length xss" and "j < length xss" and "i \<noteq> j"
  shows "set (xss ! i) \<inter> set (xss ! j) = {}"
proof -
  have "set (xss ! i) \<inter> set (xss ! j) = {}" if "i < j" "j < length xss" "distinct (concat xss)" for i j
    using that
  proof (induction xss arbitrary: i j)
    case (Cons xs xss)
    then show ?case by (cases i; cases j) (auto simp: disjoint_iff dest!: nth_mem)
  qed simp
  from this [of i j] this [of j i] assms show ?thesis by (metis inf_commute linorder_neqE_nat)
qed

lemma parts_disjoint:
  assumes "i < length sessions" and "j < length sessions" and "i \<noteq> j"
  shows "fst ` set (part_of sessions ops i) \<inter> fst ` set (part_of sessions ops j) = {}"
proof -
  let ?parts = "worker_slices (length sessions) (enumerate 0 ops) 0 0 (length sessions)"
  have "concat (map (map fst) ?parts) = map fst (enumerate 0 ops)"
    using assms(1) by (subst map_concat [symmetric], subst worker_slices_all) auto
  then have "distinct (concat (map (map fst) ?parts))" by (simp add: enumerate_eq_zip)
  from distinct_concat_nth [OF this, of i j] assms show ?thesis by (simp add: part_of_def)
qed

text \<open>One clock for all workers.\<close>

lemma common_clock:
  assumes "\<And>i j. i < n \<Longrightarrow> j < n \<Longrightarrow> i \<noteq> j \<Longrightarrow> D i \<inter> D j = {}"
  obtains clock where "\<And>k i. k < n \<Longrightarrow> i \<in> D k \<Longrightarrow> clock i = c k i"
proof -
  have "(THE k. k < n \<and> i \<in> D k) = k" if "k < n" "i \<in> D k" for k i
    using that assms by (intro the_equality) blast+
  then show thesis by (intro that [of "\<lambda>i. c (THE k. k < n \<and> i \<in> D k) i"]) simp
qed

lemma phase_result:
  assumes inv: "phase_inv be sessions ops val rec st" and "join_inv (length sessions) st"
    and ended: "st_main st = Main_Ended"
  shows "\<exists>clock. run_phase be sessions ops val
      \<lparr>pt_latency = clock, pt_elapsed = st_phase_end st - st_phase_start st\<rparr> rec = Some (phase_outcome st)"
proof -
  let ?n = "length sessions" and ?ws = "st_workers st"
  have len: "length ?ws = ?n" using inv ended by (simp add: phase_inv_def)
  define P where "P k D clock \<longleftrightarrow> D \<subseteq> fst ` set (part_of sessions ops k) \<and> (\<forall>c. (\<forall>i \<in> D. c i = clock i) \<longrightarrow>
      run_worker be val c rec (part_of sessions ops k) (sessions ! k)
        = Some (wk_latencies (?ws ! k), wk_error (?ws ! k), wk_session (?ws ! k)))" for k D and clock :: "nat \<Rightarrow> u64"
  have "\<exists>D clock. P k D clock" if "k < ?n" for k
  proof -
    have "wk_pc (?ws ! k) = Ended" using assms(2) ended that by (simp add: join_inv_def)
    moreover have "work_ok be val rec (part_of sessions ops k) (sessions ! k) (?ws ! k)"
      using inv len that by (simp add: phase_inv_def)
    ultimately obtain past clock where "part_of sessions ops k = past @ wk_todo (?ws ! k)"
      and run: "\<forall>c. (\<forall>i \<in> fst ` set past. c i = clock i) \<longrightarrow>
        run_worker be val c rec (part_of sessions ops k) (sessions ! k)
          = Some (wk_latencies (?ws ! k), wk_error (?ws ! k), wk_session (?ws ! k))"
      unfolding work_ok_def by auto
    then have "fst ` set past \<subseteq> fst ` set (part_of sessions ops k)" by auto
    with run have "P k (fst ` set past) clock" unfolding P_def by simp
    then show ?thesis by blast
  qed
  then obtain D clock where P: "\<And>k. k < ?n \<Longrightarrow> P k (D k) (clock k)" by metis
  have "D i \<inter> D j = {}" if "i < ?n" "j < ?n" "i \<noteq> j" for i j
    using parts_disjoint [OF that, of ops] P [OF that(1)] P [OF that(2)] unfolding P_def by blast
  from common_clock [of ?n D clock, OF this] obtain common where
    common: "\<And>k i. k < ?n \<Longrightarrow> i \<in> D k \<Longrightarrow> common i = clock k i" by blast
  have run: "run_worker be val common rec (part_of sessions ops k) (sessions ! k)
      = Some (wk_latencies (?ws ! k), wk_error (?ws ! k), wk_session (?ws ! k))" if "k < ?n" for k
    using P [OF that] common [OF that] unfolding P_def by blast
  let ?parts = "worker_slices ?n (enumerate 0 ops) 0 0 ?n"
  have "those (map (\<lambda>(iops, s). run_worker be val common rec iops s) (zip ?parts sessions))
      = Some (map (\<lambda>w. (wk_latencies w, wk_error w, wk_session w)) ?ws)"
    using run len by (intro those_map_nth) (simp_all add: part_of_def [symmetric])
  then show ?thesis by (intro exI [of _ common]) (simp add: run_phase_def phase_outcome_def o_def)
qed

lemma phase_ends_from:
  assumes "phase_reach be sessions ops val rec n st" and "run_phase be sessions ops val timing rec = Some result"
  shows "\<exists>n' st'. phase_reach be sessions ops val rec n' st' \<and> st_main st' = Main_Ended"
  using assms(1)
proof (induction "steps_left (length sessions) (length ops) st" arbitrary: n st rule: less_induct)
  case less
  show ?case
  proof (cases "st_main st = Main_Ended")
    case False
    have "phase_inv be sessions ops val rec st" "join_inv (length sessions) st"
      using phase_reach_inv [OF less.prems] by simp_all
    from phase_progress [OF this run_phase_workers [OF assms(2)] False] obtain who st' where
      step: "thread_step be sessions ops val rec who (st_now st) st = Some st'" by blast
    from less.hyps [OF thread_step_left [OF step] phase_steps [OF less.prems step]] show ?thesis .
  qed (use less.prems in blast)
qed

section \<open>Properties\<close>

text \<open>C24: whatever the order in which the main thread and the workers take their steps, when the phase is
  over its result is that of the sequential \<open>run_phase\<close>: the sessions, the first error and the latencies of
  all workers in the order of the clients, for some times of the operations.  The barriers measure: the
  operations of every worker fall into the elapsed time of the phase, so that its latencies together are
  at most the elapsed time.\<close>

theorem phase_threads_correct:
  assumes "phase_reach be sessions ops val rec n st" and "st_main st = Main_Ended"
  shows "(\<exists>clock. run_phase be sessions ops val \<lparr>pt_latency = clock, pt_elapsed = ph_elapsed (phase_outcome st)\<rparr> rec
        = Some (phase_outcome st))
    \<and> (\<forall>w \<in> set (st_workers st). sum_list (map unat (wk_latencies w)) \<le> ph_elapsed (phase_outcome st))"
proof -
  have inv: "phase_inv be sessions ops val rec st" "clock_inv st" "join_inv (length sessions) st"
    using phase_reach_inv [OF assms(1)] by simp_all
  have "\<forall>w \<in> set (st_workers st). total_latency w \<le> st_phase_end st - st_phase_start st"
    using inv(2) assms(2) by (simp add: clock_inv_def)
  then show ?thesis using phase_result [OF inv(1,3) assms(2)] by (simp add: phase_outcome_def)
qed

text \<open>The phase of one client with one \<open>ping\<close>, which the server answers.\<close>

lemma ping_phase:
  obtains result where "run_phase (atto_backend (\<lambda>_. []))
      [\<lparr>se_object = client_new,
        se_link = \<lparr>ln_recv = [Received (frame ''pong'')], ln_send = replicate 100 (Accepted 1), ln_sent = []\<rparr>,
        se_os = \<lparr>os_open = {}, os_bad_closes = 0\<rparr>\<rparr>]
      [\<lparr>op_kind = Op_Ping, op_key = []\<rparr>] ''x'' timing True = Some result"
    and "ph_error result = []" and "ph_latencies result = [pt_latency timing 0]"
proof -
  let ?s = "\<lparr>se_object = client_new,
        se_link = \<lparr>ln_recv = [Received (frame ''pong'')], ln_send = replicate 100 (Accepted 1), ln_sent = []\<rparr>,
        se_os = \<lparr>os_open = {}, os_bad_closes = 0\<rparr>\<rparr>"
  let ?op = "\<lparr>op_kind = Op_Ping, op_key = []\<rparr>"
  have acc: "accepts (replicate 100 (Accepted 1)) = 100" using accepts_replicate [of 100] by simp
  have st: "stream [Received (frame ''pong'')] = (frame ''pong'' @ [], Exhausted, [])" by (simp add: frame_def)
  have "atto_answers [(Ping, Done)] ?s"
    using acc st by (auto simp: atto_answers_def atto_ok_def MAX_MESSAGE_SIZE_def)
  then have "list_all2 (\<lambda>(ops, qs) s. atto_answers (expected ''x'' ops @ qs) s)
      (zip (worker_slices (length [?s]) [?op] 0 0 (length [?s])) [[]]) [?s]"
    by (simp add: expected_def op_request_def op_expected_def)
  from atto.run_phase_ok [OF _ _ this, of "\<lambda>_. []" timing True] that show thesis by auto
qed

theorem phase_threads_correct_witness:
  "\<exists>be s n st. phase_reach be [s :: client session] [\<lparr>op_kind = Op_Ping, op_key = []\<rparr>] ''x'' True n st
    \<and> st_main st = Main_Ended \<and> ph_error (phase_outcome st) = []
    \<and> length (ph_latencies (phase_outcome st)) = 1
    \<and> (\<forall>w \<in> set (st_workers st). sum_list (map unat (wk_latencies w)) \<le> ph_elapsed (phase_outcome st))"
proof -
  let ?be = "atto_backend (\<lambda>_. [])" and ?op = "\<lparr>op_kind = Op_Ping, op_key = []\<rparr>"
  let ?s = "\<lparr>se_object = client_new,
        se_link = \<lparr>ln_recv = [Received (frame ''pong'')], ln_send = replicate 100 (Accepted 1), ln_sent = []\<rparr>,
        se_os = \<lparr>os_open = {}, os_bad_closes = 0\<rparr>\<rparr>"
  obtain r0 where "run_phase ?be [?s] [?op] ''x'' \<lparr>pt_latency = (\<lambda>_. 0), pt_elapsed = 0\<rparr> True = Some r0"
    by (rule ping_phase)
  from phase_ends_from [OF phase_begins this] obtain n st where
    st: "phase_reach ?be [?s] [?op] ''x'' True n st" "st_main st = Main_Ended" by blast
  from phase_threads_correct [OF st] obtain clock where
    run: "run_phase ?be [?s] [?op] ''x'' \<lparr>pt_latency = clock, pt_elapsed = ph_elapsed (phase_outcome st)\<rparr> True
      = Some (phase_outcome st)" and
    sums: "\<forall>w \<in> set (st_workers st). sum_list (map unat (wk_latencies w)) \<le> ph_elapsed (phase_outcome st)" by blast
  have "ph_error (phase_outcome st) = [] \<and> length (ph_latencies (phase_outcome st)) = 1"
    using run by (rule_tac ping_phase [of "\<lparr>pt_latency = clock, pt_elapsed = ph_elapsed (phase_outcome st)\<rparr>"]) simp
  then show ?thesis using st sums by blast
qed

text \<open>C25: the threads cannot deadlock and come to their end: however they take turns, as long as the phase is
  not over some thread can go on, and it is over after at most \<open>9\<close> steps for every client, \<open>2\<close> for every
  operation and \<open>9\<close> for the main thread.  The only other wait is for the servers: they are to answer in the
  sequential run.\<close>

theorem phase_threads_complete:
  assumes "phase_reach be sessions ops val rec n st"
    and "run_phase be sessions ops val timing rec = Some result"
  shows "n \<le> 9 * length sessions + 2 * length ops + 9
    \<and> (st_main st \<noteq> Main_Ended \<longrightarrow> (\<exists>who t st'. thread_step be sessions ops val rec who t st = Some st'))"
proof -
  have inv: "phase_inv be sessions ops val rec st" "join_inv (length sessions) st"
    using phase_reach_inv [OF assms(1)] by simp_all
  from phase_progress [OF this run_phase_workers [OF assms(2)]] phase_reach_bound [OF assms(1)]
  show ?thesis by (metis add_leD1)
qed

theorem phase_threads_complete_witness:
  "\<exists>be (s :: client session) who t st'.
    thread_step be [s] [\<lparr>op_kind = Op_Ping, op_key = []\<rparr>] ''x'' True who t phase_begin = Some st'"
proof -
  let ?be = "atto_backend (\<lambda>_. [])" and ?op = "\<lparr>op_kind = Op_Ping, op_key = []\<rparr>"
  let ?s = "\<lparr>se_object = client_new,
        se_link = \<lparr>ln_recv = [Received (frame ''pong'')], ln_send = replicate 100 (Accepted 1), ln_sent = []\<rparr>,
        se_os = \<lparr>os_open = {}, os_bad_closes = 0\<rparr>\<rparr>"
  obtain r0 where "run_phase ?be [?s] [?op] ''x'' \<lparr>pt_latency = (\<lambda>_. 0), pt_elapsed = 0\<rparr> True = Some r0"
    by (rule ping_phase)
  from phase_threads_complete [OF phase_begins this]
  have "\<exists>who t st'. thread_step ?be [?s] [?op] ''x'' True who t phase_begin = Some st'"
    by (simp add: phase_begin_def)
  then show ?thesis by blast
qed

end
