(* ===== verification/ServedBenchmark.thy ===== *)
theory ServedBenchmark
  imports ServerStage BenchmarkThreads
begin

text \<open>
  The benchmark against the server: the requests of the control client and, in any interleaving, those of
  the workers arrive at the modelled server of AttoKV, whose replies are what the benchmark reads.
\<close>

section \<open>What the workloads ask and expect\<close>

text \<open>A workload has, prepared and in any order of its workers, the expected replies on every map.\<close>

lemma workload_spec:
  assumes "options_ok o1" and "\<forall>c \<in> set phase. \<not> is_whitespace c"
    and gen: "ops = generate_operations o1 n seed phase"
    and inter: "interleaves (slices_of k ops) order" and k: "0 < k"
  defines "qas \<equiv> prepared o1 ops (benchmark_value o1) @ expected (benchmark_value o1) (map snd order)"
  shows "\<exists>\<sigma>'. spec_commands \<sigma> (map atto_text (map fst qas))
    = Some (map (\<lambda>(q, a). default_result\<lparr>res_output := atto_reply q a\<rparr>) qas, \<sigma>')"
proof -
  let ?val = "benchmark_value o1"
  have "0 < nat (bo_value_size o1)" using assms(1) by (simp add: options_ok_def ranges_ok_def)
  then have tok: "token ?val" unfolding benchmark_value_def by (rule token_value)
  have "mset (map snd order) = mset (concat (slices_of k ops))" by (rule interleaves_mset [OF inter])
  then have mset: "mset (map snd order) = mset (generate_operations o1 n seed phase)"
    using worker_slices_all [OF k, of ops] by (simp add: slices_of_def gen)
  have fst: "map fst qas = map fst (prepared o1 (generate_operations o1 n seed phase) ?val)
      @ map (op_request ?val) (map snd order)"
    unfolding qas_def by (simp add: gen expected_def o_def)
  note w = workload_answers(1) [OF assms(1) mset, where val = ?val and \<sigma> = \<sigma>, folded fst]
    workload_answers(2) [OF assms(1) mset, where val = ?val and \<sigma> = \<sigma>, folded fst]
    workload_answers(3) [OF assms(1) mset assms(2) tok, folded fst]
  have "fst (answer_all \<sigma> (map fst qas)) = qas"
    unfolding w(1) by (simp add: qas_def gen)
  with spec_commands_answer_all [OF w(3,2)] show ?thesis by metis
qed

lemma workload_fits:
  assumes "bo_value_size o1 \<le> int MAX_MESSAGE_SIZE" and "length (atto_text q) \<le> MAX_MESSAGE_SIZE"
    and "(q, a) \<in> set (prepared o1 ops (benchmark_value o1) @ expected (benchmark_value o1) ops')"
  shows "atto_ok q a"
proof -
  let ?val = "benchmark_value o1"
  have len_val: "length ?val \<le> MAX_MESSAGE_SIZE" using assms(1) by (simp add: benchmark_value_def)
  have "?val \<noteq> ''NULL''"
  proof
    assume "?val = ''NULL''"
    then have "CHR ''N'' \<in> set ?val" by simp
    then show False by (auto simp: benchmark_value_def)
  qed
  then have "fits q a \<and> a \<noteq> Found (Some ''NULL'') \<and> length (atto_reply q a) \<le> MAX_MESSAGE_SIZE"
    using len_val assms(3)
    by (auto simp: prepared_def expected_def op_request_def op_expected_def MAX_MESSAGE_SIZE_def
        split: operation_kind.splits)
  then show ?thesis using assms(2) by (auto simp: atto_ok_def)
qed

section \<open>A phase at the server\<close>

text \<open>The requests of a phase with \<open>k\<close> workers, which have the connections \<open>0\<close> to \<open>k - 1\<close>, and the control
  client, which has connection \<open>k\<close>: the connection, the request and its expected answer.\<close>

definition phase_requests ::
  "benchmark_options \<Rightarrow> nat \<Rightarrow> operation list \<Rightarrow> (nat \<times> operation) list \<Rightarrow> (nat \<times> request \<times> response) list" where
  "phase_requests o1 k ops order =
     map (Pair k) (prepared o1 ops (benchmark_value o1))
     @ map (\<lambda>(i, op). (i, op_request (benchmark_value o1) op, op_expected (benchmark_value o1) op)) order"

lemma phase_requests_fst:
  "map fst (phase_requests o1 k ops order) = replicate (length (prepared o1 ops (benchmark_value o1))) k @ map fst order"
  by (simp add: phase_requests_def o_def case_prod_unfold map_replicate_const)

lemma phase_requests_snd:
  "map snd (phase_requests o1 k ops order)
    = prepared o1 ops (benchmark_value o1) @ expected (benchmark_value o1) (map snd order)"
  by (simp add: phase_requests_def expected_def o_def case_prod_unfold)

text \<open>What the requests of a connection are.\<close>

definition conn_requests :: "benchmark_options \<Rightarrow> nat \<Rightarrow> operation list \<Rightarrow> nat \<Rightarrow> (request \<times> response) list" where
  "conn_requests o1 k ops i =
     (if i = k then prepared o1 ops (benchmark_value o1)
      else expected (benchmark_value o1) (slices_of k ops ! i))"

lemma phase_requests_of_client:
  assumes "interleaves (slices_of k ops) order" and "i \<le> k"
  shows "of_client i (map fst (phase_requests o1 k ops order)) (map snd (phase_requests o1 k ops order))
    = conn_requests o1 k ops i"
proof -
  have "of_client i (map fst (phase_requests o1 k ops order)) (map snd (phase_requests o1 k ops order))
      = (if i = k then prepared o1 ops (benchmark_value o1) else [])
        @ of_client i (map fst order) (expected (benchmark_value o1) (map snd order))"
    unfolding phase_requests_fst phase_requests_snd
    by (subst of_client_append) (auto simp: of_client_replicate)
  moreover have "of_client i (map fst order) (expected (benchmark_value o1) (map snd order))
      = (if i = k then [] else expected (benchmark_value o1) (slices_of k ops ! i))"
  proof (cases "i = k")
    case True
    then have "i \<notin> set (map fst order)" using assms(1) by (auto simp: interleaves_def)
    from of_client_other [OF this] show ?thesis using True by simp
  next
    case False
    then have "of_client i (map fst order) (map snd order) = slices_of k ops ! i"
      using interleaves_of_client [OF assms(1)] assms(2) by simp
    then show ?thesis using False unfolding expected_def by (simp only: of_client_map if_False)
  qed
  ultimately show ?thesis by (simp add: conn_requests_def)
qed

text \<open>The requests as they arrive at the server, which can send the replies.\<close>

definition arrives :: "(nat \<times> recv_event list \<times> send_event list) list \<Rightarrow> (nat \<times> request \<times> response) list \<Rightarrow> bool" where
  "arrives sched reqs \<longleftrightarrow> list_all2 (\<lambda>(i, rx, tx) (j, q, a). i = j
     \<and> (\<exists>s rest. stream rx = (frame (atto_text q), s, rest))
     \<and> 4 + length (atto_reply q a) \<le> accepts tx) sched reqs"

text \<open>The link of a session takes the requests \<open>qs\<close>, and brings what the server has sent on \<open>fd\<close> between
  \<open>w\<close> and \<open>w'\<close>.\<close>

definition carries :: "world \<Rightarrow> world \<Rightarrow> int \<Rightarrow> (request \<times> response) list \<Rightarrow> client session \<Rightarrow> bool" where
  "carries w w' fd qs s \<longleftrightarrow>
     length (concat (map (\<lambda>(q, a). frame (atto_text q)) qs)) \<le> accepts (ln_send (se_link s))
     \<and> (\<exists>later e rest. stream (ln_recv (se_link s)) = (drop (length (w_sent w fd)) (w_sent w' fd) @ later, e, rest))"

definition sendable :: "(nat \<times> request \<times> response) list \<Rightarrow> bool" where
  "sendable reqs \<longleftrightarrow> (\<forall>(i, q, a) \<in> set reqs. length (atto_text q) \<le> MAX_MESSAGE_SIZE)"

lemma serve_phase:
  assumes "options_ok o1" and "\<forall>c \<in> set phase. \<not> is_whitespace c"
    and gen: "ops = generate_operations o1 n seed phase"
    and inter: "interleaves (slices_of k ops) order" and k: "0 < k"
    and reach: "server_reach srv w" and idle: "all_idle {..k} srv"
    and reqs: "reqs = phase_requests o1 k ops order"
    and small: "2 * (length (h_commands w) + length reqs) < 4294967296"
    and "sendable reqs" and val: "bo_value_size o1 \<le> int MAX_MESSAGE_SIZE"
    and "arrives sched reqs"
  shows "\<exists>srv' w'. serve_schedule sched srv w = Inr (Some (Continue srv' w')) \<and> server_reach srv' w'
    \<and> all_idle {..k} srv'
    \<and> (\<forall>i \<le> k. \<forall>s. carries w w' (cc_fd (m_clients srv ! i)) (conn_requests o1 k ops i) s
          \<longrightarrow> atto_answers (conn_requests o1 k ops i) s)"
proof -
  let ?qas = "map snd reqs" and ?is = "map fst reqs"
  let ?rs = "map (\<lambda>(q, a). default_result\<lparr>res_output := atto_reply q a\<rparr>) ?qas"
  let ?\<sigma> = "ex_abs (w_executor w)"
  have qas: "?qas = prepared o1 ops (benchmark_value o1) @ expected (benchmark_value o1) (map snd order)"
    by (simp add: reqs phase_requests_snd)
  from workload_spec [OF assms(1,2) gen inter k, of ?\<sigma>] obtain \<sigma>' where
    spec: "spec_commands ?\<sigma> (map atto_text (map fst ?qas)) = Some (?rs, \<sigma>')" unfolding qas by blast
  have ok: "atto_ok q a" if "(i, q, a) \<in> set reqs" for i q a
  proof (rule workload_fits [OF val])
    show "length (atto_text q) \<le> MAX_MESSAGE_SIZE" using \<open>sendable reqs\<close> that by (auto simp: sendable_def)
    have "(q, a) \<in> set ?qas" using that by (metis image_eqI set_map snd_conv)
    then show "(q, a) \<in> set (prepared o1 ops (benchmark_value o1) @ expected (benchmark_value o1) (map snd order))"
      unfolding qas .
  qed
  have len: "length sched = length reqs" using \<open>arrives sched reqs\<close> by (auto simp: arrives_def dest: list_all2_lengthD)
  have arr: "\<forall>m < length reqs. case (sched ! m, reqs ! m) of ((i, rx, tx), (j, q, a)) \<Rightarrow> i = j
     \<and> (\<exists>s rest. stream rx = (frame (atto_text q), s, rest)) \<and> 4 + length (atto_reply q a) \<le> accepts tx"
    using \<open>arrives sched reqs\<close> by (simp add: arrives_def list_all2_conv_all_nth case_prod_unfold)
  have conns: "map fst sched = ?is" using arr len by (intro nth_equalityI) (auto simp: case_prod_unfold)
  have "fst ` set sched = set ?is" by (simp flip: conns)
  moreover have "set ?is \<subseteq> {..k}" unfolding reqs phase_requests_fst using inter by (auto simp: interleaves_def)
  ultimately have sub: "fst ` set sched \<subseteq> {..k}" by simp
  have rx: "list_all2 (\<lambda>(i, rx, tx) line. \<exists>s rest. stream rx = (frame line, s, rest)) sched
      (map atto_text (map fst ?qas))"
    using arr len by (auto simp: list_all2_conv_all_nth case_prod_unfold)
  have tx: "list_all2 (\<lambda>(i, rx, tx) r. 4 + length (res_output r) \<le> accepts tx) sched ?rs"
    using arr len by (auto simp: list_all2_conv_all_nth case_prod_unfold)
  have rs: "\<forall>r \<in> set ?rs. \<not> res_stop r \<and> length (res_output r) \<le> MAX_MESSAGE_SIZE"
    using ok by (fastforce simp: default_result_def atto_ok_def)
  have lines: "\<forall>line \<in> set (map atto_text (map fst ?qas)). length line \<le> MAX_MESSAGE_SIZE"
    using \<open>sendable reqs\<close> by (fastforce simp: sendable_def)
  have "2 * (length (h_commands w) + length (map atto_text (map fst ?qas))) < 4294967296" using small by simp
  from serve_schedule_ok [OF reach idle sub this spec rs lines rx tx]
  obtain srv' w' where srv: "serve_schedule sched srv w = Inr (Some (Continue srv' w'))"
    "server_reach srv' w'" "all_idle {..k} srv'"
    "\<forall>j \<in> {..k}. w_sent w' (cc_fd (m_clients srv ! j))
      = w_sent w (cc_fd (m_clients srv ! j)) @ sent_to j (map fst sched) ?rs" by blast
  have "atto_answers (conn_requests o1 k ops i) s"
    if i: "i \<le> k" and c: "carries w w' (cc_fd (m_clients srv ! i)) (conn_requests o1 k ops i) s" for i s
  proof -
    have mine: "of_client i ?is ?qas = conn_requests o1 k ops i"
      unfolding reqs by (rule phase_requests_of_client [OF inter i])
    have "sent_to i (map fst sched) ?rs = concat (map (\<lambda>(q, a). frame (atto_reply q a)) (conn_requests o1 k ops i))"
      unfolding conns sent_to_def of_client_map mine [symmetric] by (simp add: o_def case_prod_unfold)
    moreover have "set (conn_requests o1 k ops i) \<subseteq> set ?qas"
      unfolding mine [symmetric] by (auto simp: of_client_def dest: set_zip_rightD)
    then have "\<forall>(q, a) \<in> set (conn_requests o1 k ops i). atto_ok q a" using ok by fastforce
    ultimately show ?thesis using c srv(4) i by (auto simp: atto_answers_def carries_def)
  qed
  then show ?thesis using srv(1-3) by blast
qed

section \<open>A server with two connections\<close>

lemma serve_clients_quiet:
  "n \<le> length clients \<Longrightarrow> n < length revents \<Longrightarrow> \<forall>j < n. revents ! Suc j = 0
    \<Longrightarrow> serve_clients n revents clients w = Inr (Some (clients, w))"
proof (induction n)
  case 0
  then show ?case by (simp add: done_io_def)
next
  case (Suc n)
  then show ?case by simp
qed

text \<open>An iteration in which the server accepts one connection.\<close>

lemma reach_accept:
  assumes "server_reach srv w" and fd: "fd \<noteq> -1" "fd \<notin> os_open (w_os w)"
  shows "server_reach (srv\<lparr>m_clients := m_clients srv @ [new_connection fd]\<rparr>) (open_connection fd w)"
proof (rule reach_iteration [OF assms(1)])
  let ?n = "length (m_clients srv)"
  let ?revents = "POLLIN # replicate ?n 0"
  let ?script = "[Accept_Client fd (Inr 0) (\<lambda>_. None) (\<lambda>_. None), Accept_Failed EAGAIN]"
  have idle: "serve_clients ?n ?revents (m_clients srv) w = Inr (Some (m_clients srv, w))"
    by (rule serve_clients_quiet) simp_all
  have listen: "\<not> has_event POLLIN (POLLERR OR POLLHUP OR POLLNVAL)"
    by (simp add: has_event_def POLLIN_def POLLERR_def POLLHUP_def POLLNVAL_def)
  have valid: "is_valid (m_listen_socket srv)" using server_reach_ok [OF assms(1)] by (simp add: server_ok_def)
  show "server_iteration [Polled ?revents] ?script srv w
      = Inr (Some (Continue (srv\<lparr>m_clients := m_clients srv @ [new_connection fd]\<rparr>) (open_connection fd w)))"
    using idle listen valid fd
    by (simp add: server_iteration_def bind_io_def done_io_def is_valid_def socket_of_def set_nonblocking_def
        set_nodelay_def would_block_def EAGAIN_def EINTR_def Let_def)
  have listening: "POLLIN AND NOT POLLIN AND NOT POLLERR AND NOT POLLHUP AND NOT POLLNVAL = 0"
    by (rule bit_word_eqI) (auto simp: bit_simps)
  have "poll_contract (poll_interest srv) ?revents"
    by (auto simp: poll_contract_def poll_interest_def list_all2_conv_all_nth nth_Cons' listening)
  then show "\<forall>revents. poll_loop [Polled ?revents] = Some (Inr revents) \<longrightarrow> poll_contract (poll_interest srv) revents
     \<and> (\<forall>clients w1. serve_clients ?n revents (m_clients srv) w = Inr (Some (clients, w1))
          \<longrightarrow> accepts_fresh ?script (os_open (w_os w1)))"
    using idle fd by (auto simp: set_nonblocking_def set_nodelay_def EAGAIN_def EINTR_def)
qed

lemma two_clients_example:
  obtains srv w where "server_reach srv w" and "all_idle {..1} srv" and "h_commands w = []"
    and "length (m_clients srv) = 2"
proof -
  obtain srv w client where e: "server_reach srv w" "m_clients srv = [client]" "cc_fd client = 4"
    "m_fd (m_listen_socket srv) = 3" "w_sent w 4 = []" "h_commands w = []" "w_log w = [Listening (inet_ntoa 0) 6337]"
    "cc_writer client = writer_new" "cc_reader client = reader_new"
    by (rule server_example)
  have "sockets_ok ([m_listen_socket srv] @ map cc_socket (m_clients srv)) (w_os w)"
    using server_reach_ok [OF e(1)] by (simp add: server_ok_def clients_ok_def)
  then have "os_open (w_os w) = {3, 4}" using e(2-4) by (auto simp: sockets_ok_def owned_fds_def split: if_splits)
  then have "5 \<notin> os_open (w_os w)" by simp
  from reach_accept [OF e(1) _ this]
  have "server_reach (srv\<lparr>m_clients := [client, new_connection 5]\<rparr>) (open_connection 5 w)" by (simp add: e(2))
  moreover have "all_idle {..1} (srv\<lparr>m_clients := [client, new_connection 5]\<rparr>)"
    using e(8,9) by (auto simp: idle_def has_pending_message_def le_Suc_eq)
  moreover have "h_commands (open_connection 5 w) = []" using e(6) by (simp add: open_connection_def)
  ultimately show thesis by (rule that) simp
qed

section \<open>Property\<close>

text \<open>C5: a phase of the benchmark on AttoKV, end to end.  The control client prepares the store, and the
  requests of the workers arrive at the server in any interleaving, cut up in any way: the server, in any
  reachable state with these connections, answers all of them and stays reachable; and the benchmark, which
  reads exactly the bytes that the server has sent on each connection, ends the phase without an error, with
  a latency for every operation, and has sent on each connection exactly the requests of this client.\<close>

theorem benchmark_phase_served:
  assumes "options_ok o1" and "\<forall>c \<in> set phase. \<not> is_whitespace c"
    and "ops = generate_operations o1 n seed phase"
    and "interleaves (slices_of k ops) order" and "0 < k"
    and "server_reach srv w" and "all_idle {..k} srv" and "reqs = phase_requests o1 k ops order"
    and "2 * (length (h_commands w) + length reqs) < 4294967296"
    and "sendable reqs" and "bo_value_size o1 \<le> int MAX_MESSAGE_SIZE" and "arrives sched reqs"
  shows "\<exists>srv' w'. serve_schedule sched srv w = Inr (Some (Continue srv' w')) \<and> server_reach srv' w'
    \<and> (\<forall>sessions control. length sessions = k
        \<longrightarrow> (\<forall>i \<le> k. carries w w' (cc_fd (m_clients srv ! i)) (conn_requests o1 k ops i) ((sessions @ [control]) ! i))
        \<longrightarrow> (\<exists>control' result.
              prepare (atto_backend strerror) o1 ops (benchmark_value o1) control = Some (Inr (), control')
              \<and> run_phase (atto_backend strerror) sessions ops (benchmark_value o1) timing record_latency = Some result
              \<and> ph_error result = [] \<and> (record_latency \<longrightarrow> length (ph_latencies result) = n)
              \<and> map (\<lambda>s. ln_sent (se_link s)) (ph_sessions result @ [control'])
                  = map (\<lambda>i. ln_sent (se_link ((sessions @ [control]) ! i))
                      @ concat (map (\<lambda>(q, a). frame (atto_text q)) (conn_requests o1 k ops i))) [0..<Suc k]))"
proof -
  let ?val = "benchmark_value o1"
  from serve_phase [OF assms] obtain srv' w' where
    srv: "serve_schedule sched srv w = Inr (Some (Continue srv' w'))" "server_reach srv' w'" and
    ready: "\<forall>i \<le> k. \<forall>s. carries w w' (cc_fd (m_clients srv ! i)) (conn_requests o1 k ops i) s
          \<longrightarrow> atto_answers (conn_requests o1 k ops i) s" by blast
  have "\<exists>control' result.
              prepare (atto_backend strerror) o1 ops ?val control = Some (Inr (), control')
              \<and> run_phase (atto_backend strerror) sessions ops ?val timing record_latency = Some result
              \<and> ph_error result = [] \<and> (record_latency \<longrightarrow> length (ph_latencies result) = n)
              \<and> map (\<lambda>s. ln_sent (se_link s)) (ph_sessions result @ [control'])
                  = map (\<lambda>i. ln_sent (se_link ((sessions @ [control]) ! i))
                      @ concat (map (\<lambda>(q, a). frame (atto_text q)) (conn_requests o1 k ops i))) [0..<Suc k]"
    if len: "length sessions = k"
      and c: "\<forall>i \<le> k. carries w w' (cc_fd (m_clients srv ! i)) (conn_requests o1 k ops i) ((sessions @ [control]) ! i)"
    for sessions control
  proof -
    have "(sessions @ [control]) ! k = control" using len by (metis nth_append_length)
    then have "atto_answers (prepared o1 ops ?val @ []) control"
      using ready c by (force simp: conn_requests_def)
    from atto.prepare_ok [OF this, of strerror] obtain control' where
      p: "prepare (atto_backend strerror) o1 ops ?val control = Some (Inr (), control')"
      "ln_sent (se_link control') = ln_sent (se_link control)
        @ concat (map (\<lambda>(q, a). frame (atto_text q)) (prepared o1 ops ?val))"
      by (auto simp: o_def case_prod_unfold)
    have ne: "sessions \<noteq> []" using len assms(5) by auto
    have ans: "atto_answers (expected ?val (slices_of k ops ! i)) (sessions ! i)" if "i < k" for i
    proof -
      have "atto_answers (conn_requests o1 k ops i) ((sessions @ [control]) ! i)" using ready c that by simp
      then show ?thesis using that len by (simp add: conn_requests_def nth_append)
    qed
    have "list_all2 (\<lambda>(ops, qs) s. atto_answers (expected ?val ops @ qs) s)
        (zip (worker_slices (length sessions) ops 0 0 (length sessions)) (replicate (length sessions) [])) sessions"
      using ans len by (simp add: list_all2_conv_all_nth slices_of_def)
    from atto.run_phase_ok [OF ne _ this, of strerror timing record_latency] obtain result where
      r: "run_phase (atto_backend strerror) sessions ops ?val timing record_latency = Some result" "ph_error result = []"
      "record_latency \<Longrightarrow> length (ph_latencies result) = n"
      "map (\<lambda>s. ln_sent (se_link s)) (ph_sessions result)
        = map (\<lambda>(ops, s). ln_sent (se_link s) @ concat (map (\<lambda>op. frame (atto_text (op_request ?val op))) ops))
            (zip (slices_of k ops) sessions)"
      using len by (auto simp: slices_of_def assms(3))
    have "map (\<lambda>(ops, s). ln_sent (se_link s) @ concat (map (\<lambda>op. frame (atto_text (op_request ?val op))) ops))
            (zip (slices_of k ops) sessions)
        = map (\<lambda>i. ln_sent (se_link ((sessions @ [control]) ! i))
                      @ concat (map (\<lambda>(q, a). frame (atto_text q)) (conn_requests o1 k ops i))) [0..<k]"
      using len by (intro nth_equalityI) (simp_all add: conn_requests_def nth_append expected_def o_def)
    then show ?thesis using p r len
      by (intro exI [of _ control'] exI [of _ result]) (auto simp: conn_requests_def nth_append)
  qed
  then show ?thesis using srv by blast
qed

lemma stream_bytes: "stream (map (\<lambda>c. Received [c]) cs) = (cs, Exhausted, [])"
  by (induction cs) simp_all

text \<open>One worker that pings, and the control client, which flushes; each then reads what it was sent.\<close>

theorem benchmark_phase_served_witness:
  "\<exists>srv w srv' w' result.
     server_reach srv w \<and> length (m_clients srv) = 2
     \<and> serve_schedule [(1, [Received (frame ''flush'')], replicate 100 (Accepted 1)),
          (0, [Received (frame ''ping'')], replicate 100 (Accepted 1))] srv w = Inr (Some (Continue srv' w'))
     \<and> run_phase (atto_backend (\<lambda>_. []))
          [\<lparr>se_object = client_new,
            se_link = \<lparr>ln_recv = map (\<lambda>c. Received [c])
                (drop (length (w_sent w (cc_fd (m_clients srv ! 0)))) (w_sent w' (cc_fd (m_clients srv ! 0)))),
              ln_send = replicate 100 (Accepted 1), ln_sent = []\<rparr>,
            se_os = \<lparr>os_open = {}, os_bad_closes = 0\<rparr>\<rparr>]
          [\<lparr>op_kind = Op_Ping, op_key = []\<rparr>] (replicate 256 CHR ''x'') \<lparr>pt_latency = (\<lambda>_. 7), pt_elapsed = 2000\<rparr> True
        = Some result
     \<and> ph_error result = [] \<and> length (ph_latencies result) = 1"
proof -
  let ?o = "default_benchmark_options\<lparr>bo_backend := Some Backend_Attokv, bo_workload := Some Workload_Ping,
         bo_port := 6337\<rparr>"
  let ?ping = "\<lparr>op_kind = Op_Ping, op_key = []\<rparr>"
  let ?sched = "[(1, [Received (frame ''flush'')], replicate 100 (Accepted 1)),
          (0, [Received (frame ''ping'')], replicate 100 (Accepted 1))]"
  let ?reqs = "[(1, Flush, Done), (0, Ping, Done)]"
  obtain srv w where e: "server_reach srv w" "all_idle {..1} srv" "h_commands w = []" "length (m_clients srv) = 2"
    by (rule two_clients_example)
  have ok: "options_ok ?o" by (simp add: options_ok_def ranges_ok_def default_benchmark_options_def)
  have nil: "\<forall>c \<in> set []. \<not> is_whitespace c" by simp
  have gen: "[?ping] = generate_operations ?o 1 1 []"
    by (simp add: generate_operations_def default_benchmark_options_def Let_def case_prod_unfold)
  have inter: "interleaves (slices_of 1 [?ping]) [(0, ?ping)]"
    by (simp add: interleaves_def slices_of_def)
  have reqs: "?reqs = phase_requests ?o 1 [?ping] [(0, ?ping)]"
    by (simp add: phase_requests_def prepared_def prepared_keys_def op_request_def op_expected_def
        default_benchmark_options_def)
  have acc: "accepts (replicate 100 (Accepted 1)) = 100" using accepts_replicate [of 100] by simp
  have arr: "arrives ?sched ?reqs" using acc by (simp add: arrives_def)
  have small: "2 * (length (h_commands w) + length ?reqs) < 4294967296" using e(3) by simp
  have send: "sendable ?reqs" by (simp add: sendable_def MAX_MESSAGE_SIZE_def)
  have val: "bo_value_size ?o \<le> int MAX_MESSAGE_SIZE" "benchmark_value ?o = replicate 256 CHR ''x''"
    by (simp_all add: MAX_MESSAGE_SIZE_def default_benchmark_options_def benchmark_value_def)
  define s where "s w' i = \<lparr>se_object = client_new,
            se_link = \<lparr>ln_recv = map (\<lambda>c. Received [c])
                (drop (length (w_sent w (cc_fd (m_clients srv ! i)))) (w_sent w' (cc_fd (m_clients srv ! i)))),
              ln_send = replicate 100 (Accepted 1), ln_sent = []\<rparr>,
            se_os = \<lparr>os_open = {}, os_bad_closes = 0\<rparr>\<rparr>" for w' :: world and i
  from benchmark_phase_served [OF ok nil gen inter zero_less_one e(1,2) reqs small send val(1) arr, of "\<lambda>_. []"
      "\<lparr>pt_latency = (\<lambda>_. 7), pt_elapsed = 2000\<rparr>" True]
  obtain srv' w' where srv: "serve_schedule ?sched srv w = Inr (Some (Continue srv' w'))" and
    runs: "length sessions = 1
      \<Longrightarrow> \<forall>i \<le> 1. carries w w' (cc_fd (m_clients srv ! i)) (conn_requests ?o 1 [?ping] i) ((sessions @ [control]) ! i)
      \<Longrightarrow> \<exists>result. run_phase (atto_backend (\<lambda>_. [])) sessions [?ping] (benchmark_value ?o)
          \<lparr>pt_latency = (\<lambda>_. 7), pt_elapsed = 2000\<rparr> True = Some result \<and> ph_error result = []
          \<and> length (ph_latencies result) = 1" for sessions control
    by - (elim exE conjE, rule that, assumption, blast)
  have one: "carries w w' (cc_fd (m_clients srv ! i)) [qa] (s w' i)" if "length (frame (atto_text (fst qa))) \<le> 100" for i qa
    using that acc by (simp add: carries_def s_def stream_bytes case_prod_unfold)
  have "carries w w' (cc_fd (m_clients srv ! i)) (conn_requests ?o 1 [?ping] i) (([s w' 0] @ [s w' 1]) ! i)"
    if "i \<le> 1" for i
  proof (cases i)
    case 0
    then show ?thesis
      using one [of "(Ping, Done)" 0] by (simp add: conn_requests_def slices_of_def expected_def op_request_def op_expected_def)
  next
    case (Suc j)
    then show ?thesis using that one [of "(Flush, Done)" 1]
      by (simp add: conn_requests_def prepared_def prepared_keys_def default_benchmark_options_def)
  qed
  then obtain result where "run_phase (atto_backend (\<lambda>_. [])) [s w' 0] [?ping] (benchmark_value ?o)
        \<lparr>pt_latency = (\<lambda>_. 7), pt_elapsed = 2000\<rparr> True = Some result"
      "ph_error result = []" "length (ph_latencies result) = 1"
    using runs [of "[s w' 0]" "s w' 1"] by auto
  then show ?thesis using e(1,4) srv unfolding val(2) s_def [of w' 0]
    by (intro exI [of _ srv] exI [of _ w] exI [of _ srv'] exI [of _ w'] exI [of _ result] conjI)
qed

end
