(* ===== verification/WholeBenchmark.thy ===== *)
theory WholeBenchmark
  imports ServedBenchmark
begin

text \<open>
  The whole benchmark program against the server of AttoKV, with the true concurrency of its workers: the
  server runs for any number of turns with any events, while the connections of the benchmark send the
  requests of the warmup and of the measured phase.
\<close>

section \<open>A phase with concurrent workers\<close>

abbreviation lines_of :: "(request \<times> response) list \<Rightarrow> string list" where
  "lines_of qas \<equiv> map (\<lambda>(q, a). atto_text q) qas"

abbreviation replies_of :: "(request \<times> response) list \<Rightarrow> command_result list" where
  "replies_of qas \<equiv> map (\<lambda>(q, a). default_result\<lparr>res_output := atto_reply q a\<rparr>) qas"

text \<open>The connections \<open>fds\<close> are those of the \<open>k\<close> workers and the control client: this one prepares the store
  alone, then the workers send their operations, all at the same time.\<close>

definition phase_run :: "benchmark_options \<Rightarrow> nat \<Rightarrow> operation list \<Rightarrow> int list
    \<Rightarrow> server \<Rightarrow> world \<Rightarrow> server \<Rightarrow> world \<Rightarrow> bool" where
  "phase_run o1 k ops fds srv w srv' w' \<longleftrightarrow> length fds = Suc k
     \<and> (\<exists>srv1 w1. runs_to srv w srv1 w1
          \<and> exchanged srv w srv1 w1 fds (replicate k [] @ [lines_of (prepared o1 ops (benchmark_value o1))])
          \<and> runs_to srv1 w1 srv' w'
          \<and> exchanged srv1 w1 srv' w' fds
              (map (\<lambda>part. lines_of (expected (benchmark_value o1) part)) (slices_of k ops) @ [[]]))"

lemma interleaves_snoc_Nil:
  assumes "interleaves (parts @ [[]]) order"
  shows "interleaves parts order"
proof -
  have "map snd (filter (\<lambda>(j, x). j = i) order) = (parts @ [[]]) ! i" if "i \<le> length parts" for i
    using assms that by (simp add: interleaves_def)
  note at = this
  have p: "filter (\<lambda>(j, x). j = length parts) order = []" using at [of "length parts"] by simp
  have "j < length parts" if "(j, x) \<in> set order" for j x
  proof -
    have "j \<noteq> length parts" using p that by (auto simp: filter_empty_conv)
    moreover have "j < Suc (length parts)" using assms that by (force simp: interleaves_def)
    ultimately show ?thesis by simp
  qed
  then show ?thesis using at by (force simp: interleaves_def nth_append)
qed

lemma map_expected: "map (\<lambda>part. lines_of (expected val part)) parts
    = map (map (\<lambda>op. atto_text (op_request val op))) parts"
  by (simp add: expected_def o_def)

lemma sent_to_replicate: "sent_to j (replicate (length rs) k) rs
    = (if k = j then concat (map (\<lambda>r. frame (res_output r)) rs) else [])"
  by (simp add: sent_to_def of_client_replicate)

lemma frames_of_replies: "concat (map (\<lambda>r. frame (res_output r)) (replies_of qas))
    = concat (map (\<lambda>(q, a). frame (atto_reply q a)) qas)"
  by (simp add: o_def case_prod_unfold)

lemma phase_run_sent:
  assumes "options_ok o1" and "\<forall>c \<in> set phase. \<not> is_whitespace c"
    and gen: "ops = generate_operations o1 n seed phase" and k: "0 < k"
    and val: "bo_value_size o1 \<le> int MAX_MESSAGE_SIZE"
    and reach: "server_reach srv w" and run: "phase_run o1 k ops fds srv w srv' w'"
    and small: "2 * length (h_commands w') < 4294967296"
  shows "server_reach srv' w'" and "length (h_commands w) \<le> length (h_commands w')"
    and "i \<le> k \<Longrightarrow> w_sent w' (fds ! i)
      = w_sent w (fds ! i) @ concat (map (\<lambda>(q, a). frame (atto_reply q a)) (conn_requests o1 k ops i))"
    and "i \<le> k \<Longrightarrow> (q, a) \<in> set (conn_requests o1 k ops i) \<Longrightarrow> atto_ok q a"
proof -
  let ?val = "benchmark_value o1"
  let ?prep = "prepared o1 ops ?val" and ?slices = "slices_of k ops"
  have len: "length fds = Suc k" using run by (simp add: phase_run_def)
  from run obtain srv1 w1 where
    r1: "runs_to srv w srv1 w1" "exchanged srv w srv1 w1 fds (replicate k [] @ [lines_of ?prep])" and
    r2: "runs_to srv1 w1 srv' w'"
      "exchanged srv1 w1 srv' w' fds (map (\<lambda>part. lines_of (expected ?val part)) ?slices @ [[]])"
    by (auto simp: phase_run_def)
  have reach1: "server_reach srv1 w1" by (rule runs_to_reach [OF reach r1(1)])
  show "server_reach srv' w'" by (rule runs_to_reach [OF reach1 r2(1)])
  have le: "length (h_commands w) \<le> length (h_commands w1)" "length (h_commands w1) \<le> length (h_commands w')"
    using r1(2) r2(2) by (simp_all add: exchanged_def)
  then show "length (h_commands w) \<le> length (h_commands w')" by simp
  have small1: "2 * length (h_commands w1) < 4294967296" using small le(2) by simp
  from stage_order [OF reach r1 small1] obtain order1 rs1 where
    "interleaves (replicate k [] @ [lines_of ?prep]) order1"
    "spec_commands (ex_abs (w_executor w)) (map snd order1) = Some (rs1, ex_abs (w_executor w1))"
    "\<forall>j < length fds. w_sent w1 (fds ! j) = w_sent w (fds ! j) @ sent_to j (map fst order1) rs1" by blast
  then have o1: "spec_commands (ex_abs (w_executor w)) (lines_of ?prep) = Some (rs1, ex_abs (w_executor w1))"
    "\<forall>j \<le> k. w_sent w1 (fds ! j) = w_sent w (fds ! j) @ sent_to j (replicate (length ?prep) k) rs1"
    using interleaves_single [of k "lines_of ?prep" order1] len by (auto simp: o_def map_replicate_const)
  from stage_order [OF reach1 r2 small] obtain order2 rs2 where
    o2: "interleaves (map (map (\<lambda>op. atto_text (op_request ?val op))) ?slices) order2"
    "spec_commands (ex_abs (w_executor w1)) (map snd order2) = Some (rs2, ex_abs (w_executor w'))"
    "\<forall>j \<le> k. w_sent w' (fds ! j) = w_sent w1 (fds ! j) @ sent_to j (map fst order2) rs2"
    using len interleaves_snoc_Nil by (auto simp: map_expected less_Suc_eq_le)
  from interleaves_map [OF o2(1)] obtain order where
    order: "interleaves ?slices order" "order2 = map (\<lambda>(i, op). (i, atto_text (op_request ?val op))) order" by blast
  define qas where "qas = expected ?val (map snd order)"
  have fst2: "map fst order2 = map fst order" and snd2: "map snd order2 = lines_of qas"
    by (simp_all add: order(2) qas_def expected_def o_def case_prod_unfold)
  from workload_spec [OF assms(1,2) gen order(1) k, of "ex_abs (w_executor w)"] obtain \<sigma>' where
    "spec_commands (ex_abs (w_executor w)) (lines_of ?prep @ lines_of qas)
      = Some (replies_of ?prep @ replies_of qas, \<sigma>')"
    by (auto simp: qas_def o_def case_prod_unfold)
  then have "rs1 @ rs2 = replies_of ?prep @ replies_of qas"
    using o1(1) o2(2) snd2 by (simp add: spec_commands_append)
  moreover have "length rs1 = length (replies_of ?prep)" using spec_commands_length [OF o1(1)] by simp
  ultimately have rs: "rs1 = replies_of ?prep" "rs2 = replies_of qas" by simp_all
  have set_slices: "set (slices_of k ops ! i) \<subseteq> set (map snd order)" if "i < k" for i
  proof -
    have "slices_of k ops ! i = map snd (filter (\<lambda>(j, x). j = i) order)"
      using order(1) that by (simp add: interleaves_def)
    then show ?thesis by auto
  qed
  show "w_sent w' (fds ! i)
      = w_sent w (fds ! i) @ concat (map (\<lambda>(q, a). frame (atto_reply q a)) (conn_requests o1 k ops i))" if "i \<le> k"
  proof -
    have 1: "w_sent w1 (fds ! i) = w_sent w (fds ! i)
        @ (if i = k then concat (map (\<lambda>(q, a). frame (atto_reply q a)) ?prep) else [])"
      using o1(2) that sent_to_replicate [of i "replies_of ?prep" k] unfolding rs frames_of_replies by simp
    have 2: "sent_to i (map fst order2) rs2
        = (if i = k then [] else concat (map (\<lambda>(q, a). frame (atto_reply q a)) (expected ?val (?slices ! i))))"
    proof (cases "i = k")
      case True
      then have "i \<notin> set (map fst order)" using order(1) by (auto simp: interleaves_def)
      then show ?thesis using True by (simp add: sent_to_def fst2 of_client_other del: set_map)
    next
      case False
      then have "of_client i (map fst order) (map snd order) = ?slices ! i"
        using interleaves_of_client [OF order(1)] that by simp
      then have "of_client i (map fst order) (replies_of qas) = replies_of (expected ?val (?slices ! i))"
        unfolding qas_def expected_def by (simp only: of_client_map)
      then show ?thesis using False by (simp add: sent_to_def fst2 rs o_def case_prod_unfold)
    qed
    show ?thesis using o2(3) that 1 2 by (simp add: conn_requests_def)
  qed
  show "atto_ok q a" if "i \<le> k" and qa: "(q, a) \<in> set (conn_requests o1 k ops i)"
  proof (rule workload_fits [OF val])
    show "(q, a) \<in> set (?prep @ expected ?val (map snd order))"
      using qa set_slices [of i] that(1) by (auto simp: conn_requests_def expected_def split: if_splits)
    show "length (atto_text q) \<le> MAX_MESSAGE_SIZE"
    proof (cases "i = k")
      case True
      then have "atto_text q \<in> set (lines_of ?prep)" using qa by (force simp: conn_requests_def)
      moreover have "\<forall>line \<in> set (lines_of ?prep). length line \<le> MAX_MESSAGE_SIZE"
        using r1(2) by (simp add: exchanged_def del: set_map)
      ultimately show ?thesis by blast
    next
      case False
      then have "atto_text q \<in> set (lines_of (expected ?val (?slices ! i)))" "?slices ! i \<in> set ?slices"
        using qa that(1) by (force simp: conn_requests_def)+
      then show ?thesis using r2(2) by (fastforce simp: exchanged_def)
    qed
  qed
qed

section \<open>Property\<close>

text \<open>The run of the server under the whole benchmark, without a warmup when there are no operations for it.\<close>

definition benchmark_served :: "benchmark_options \<Rightarrow> int list \<Rightarrow> server \<Rightarrow> world \<Rightarrow> server \<Rightarrow> world \<Rightarrow> bool" where
  "benchmark_served o1 fds srv w srv' w' \<longleftrightarrow>
     (let k = nat (bo_clients o1)
      in \<exists>srv1 w1. (if warmup_operations o1 = [] then srv1 = srv \<and> w1 = w
                     else phase_run o1 k (warmup_operations o1) fds srv w srv1 w1)
          \<and> phase_run o1 k (measured_operations o1) fds srv1 w1 srv' w')"

text \<open>What connection \<open>i\<close> asks for and expects in the whole run.\<close>

definition benchmark_requests :: "benchmark_options \<Rightarrow> nat \<Rightarrow> (request \<times> response) list" where
  "benchmark_requests o1 i =
     (let k = nat (bo_clients o1)
      in if i = k then control_answers o1 (warmup_operations o1) (measured_operations o1)
         else client_answers o1 k (warmup_operations o1) (measured_operations o1) i)"

lemma benchmark_requests_conn:
  assumes "i \<le> nat (bo_clients o1)"
  shows "benchmark_requests o1 i =
    (if warmup_operations o1 = [] then [] else conn_requests o1 (nat (bo_clients o1)) (warmup_operations o1) i)
    @ conn_requests o1 (nat (bo_clients o1)) (measured_operations o1) i"
  using assms slices_of_Nil [of i "nat (bo_clients o1)"]
  by (auto simp: benchmark_requests_def control_answers_def client_answers_def conn_requests_def expected_def Let_def)

lemma benchmark_served_sent:
  assumes ok: "options_ok o1" and val: "bo_value_size o1 \<le> int MAX_MESSAGE_SIZE"
    and reach: "server_reach srv w" and run: "benchmark_served o1 fds srv w srv' w'"
    and small: "2 * length (h_commands w') < 4294967296" and i: "i \<le> nat (bo_clients o1)"
  shows "w_sent w' (fds ! i)
      = w_sent w (fds ! i) @ concat (map (\<lambda>(q, a). frame (atto_reply q a)) (benchmark_requests o1 i))"
    and "\<forall>(q, a) \<in> set (benchmark_requests o1 i). atto_ok q a"
proof -
  let ?k = "nat (bo_clients o1)" and ?warm = "warmup_operations o1"
  have k: "0 < ?k" using ok by (simp add: options_ok_def ranges_ok_def)
  have text_ok: "\<forall>c \<in> set ''warmup''. \<not> is_whitespace c" "\<forall>c \<in> set ''measured''. \<not> is_whitespace c"
    by (simp_all add: is_whitespace_def)
  from run obtain srv1 w1 where
    1: "if ?warm = [] then srv1 = srv \<and> w1 = w else phase_run o1 ?k ?warm fds srv w srv1 w1" and
    2: "phase_run o1 ?k (measured_operations o1) fds srv1 w1 srv' w'"
    by (auto simp: benchmark_served_def Let_def)
  have reach1: "server_reach srv1 w1"
    using 1 reach by (auto simp: phase_run_def split: if_splits intro: runs_to_reach [OF runs_to_reach])
  note second = phase_run_sent [OF ok text_ok(2) measured_operations_def k val reach1 2 small]
  have small1: "2 * length (h_commands w1) < 4294967296" using second(2) small by simp
  note first = phase_run_sent [OF ok text_ok(1) warmup_operations_def k val reach _ small1, of fds]
  show "w_sent w' (fds ! i)
      = w_sent w (fds ! i) @ concat (map (\<lambda>(q, a). frame (atto_reply q a)) (benchmark_requests o1 i))"
    unfolding benchmark_requests_conn [OF i] using 1 first(3) [OF _ i] second(3) [OF i] by (auto split: if_splits)
  show "\<forall>(q, a) \<in> set (benchmark_requests o1 i). atto_ok q a"
    unfolding benchmark_requests_conn [OF i] using 1 first(4) [OF _ i] second(4) [OF i] by (auto split: if_splits)
qed

text \<open>C4: the whole benchmark against the server of AttoKV, with concurrent workers.  Let the server run, for
  any number of turns with any events and any pieces of input and output, while the control client prepares
  the store and then all workers send their operations at the same time, in the warmup and in the measured
  phase; and let the connections of the benchmark carry to it the bytes that the server has sent on them.
  Then, whatever the order in which the server has taken the requests of the workers, every expectation of
  the benchmark is met: the program ends with exit code 0 and prints its report of the times of all requests.\<close>

theorem benchmark_served_correct:
  assumes "parse_options args default_benchmark_options = Inr (False, o1)"
    and "bo_backend o1 = Some Backend_Attokv" and "bo_requests o1 * 100 + 99 < 2 ^ 64"
    and "bo_value_size o1 \<le> int MAX_MESSAGE_SIZE"
    and "server_reach srv w" and "benchmark_served o1 fds srv w srv' w'"
    and "2 * length (h_commands w') < 4294967296"
    and "\<forall>i \<le> nat (bo_clients o1). atto_connect (calls i) (bo_host o1) (bo_port o1) (fresh i) = Some (Inr (), f i)
      \<and> carries w w' (fds ! i) (benchmark_requests o1 i) (f i)"
  shows "\<exists>report ends. benchmark_main strerror timing calls fresh redis_fresh args = Some (Inr (0, [Out report]), ends)
    \<and> reports o1 timing report"
proof -
  have ok: "options_ok o1" by (rule parse_options_ok [OF assms(1) default_options_ranges])
  have "atto_answers (benchmark_requests o1 i) (f i)" if "i \<le> nat (bo_clients o1)" for i
    using benchmark_served_sent [OF ok assms(4-7) that] assms(8) that
    by (auto simp: atto_answers_def carries_def)
  from this [of "nat (bo_clients o1)"] this
  have "atto_answers (control_answers o1 (warmup_operations o1) (measured_operations o1)) (f (nat (bo_clients o1)))"
    "\<forall>i < nat (bo_clients o1). atto_answers
       (client_answers o1 (nat (bo_clients o1)) (warmup_operations o1) (measured_operations o1) i) (f i)"
    by (simp_all add: benchmark_requests_def Let_def) (metis less_imp_le less_irrefl)
  then have "peers_ready (atto_backend strerror) atto_answers calls fresh o1"
    using assms(8) unfolding peers_ready_def Let_def by (intro exI [of _ f]) (simp add: atto_backend_def)
  from atto.start_ready [OF ok assms(3) this, of timing] show ?thesis
    using assms(1,2) by (auto simp: benchmark_main_def benchmark_finish_def make_backend_def)
qed

lemma one_request:
  assumes reach: "server_reach srv w" and "all_idle (set is) srv" and "distinct is" and "j < length is"
    and few: "length (h_commands w) < 1000" and short: "length line \<le> 96"
    and spec: "spec_command (ex_abs (w_executor w)) line = Some (default_result\<lparr>res_output := reply\<rparr>, \<sigma>)"
    and "length reply \<le> 96"
  shows "\<exists>srv' w'. runs_to srv w srv' w' \<and> server_reach srv' w' \<and> all_idle (set is) srv'
    \<and> map (\<lambda>i. cc_fd (m_clients srv' ! i)) is = map (\<lambda>i. cc_fd (m_clients srv ! i)) is
    \<and> exchanged srv w srv' w' (map (\<lambda>i. cc_fd (m_clients srv ! i)) is) ((replicate (length is) [])[j := [line]])
    \<and> length (h_commands w') = Suc (length (h_commands w)) \<and> ex_abs (w_executor w') = \<sigma>"
proof -
  have "2 * length (h_commands w) < 4294967296" using few by simp
  note ex = reach_executor [OF reach this]
  have "run_ok (w_executor w) (spec_command (ex_abs (w_executor w)) line) (run_command (w_executor w) line)"
    using ex few short by (intro run_command_ok) (simp_all add: str_limit_def)
  then obtain ex' where run: "run_command (w_executor w) line = Inr (default_result\<lparr>res_output := reply\<rparr>, ex')"
    "ex_abs ex' = \<sigma>" by (auto simp: run_ok_def spec)
  have "stream [Received (frame line)] = (frame line, Exhausted, [])" by simp
  moreover have "accepts (replicate 100 (Accepted 1)) = 100" using accepts_replicate [of 100] by simp
  ultimately show ?thesis
    using serve_request_exchanged [OF assms(1-4), of "[Received (frame line)]" line Exhausted "[]"
        "default_result\<lparr>res_output := reply\<rparr>" ex' "replicate 100 (Accepted 1)"] run short assms(8)
    by (fastforce simp: default_result_def MAX_MESSAGE_SIZE_def)
qed

theorem benchmark_served_correct_witness:
  "\<exists>srv w srv' w' calls fresh report ends. server_reach srv w
    \<and> benchmark_served (default_benchmark_options\<lparr>bo_backend := Some Backend_Attokv,
         bo_workload := Some Workload_Ping, bo_warmup := 0, bo_requests := 1, bo_port := 6337\<rparr>)
        (map (\<lambda>i. cc_fd (m_clients srv ! i)) [0, 1]) srv w srv' w'
    \<and> benchmark_main (\<lambda>_. []) \<lparr>pt_latency = (\<lambda>_. 7), pt_elapsed = 2000\<rparr> calls fresh
      (\<lambda>_. \<lparr>se_object = socket_new, se_link = \<lparr>ln_recv = [], ln_send = [], ln_sent = []\<rparr>,
            se_os = \<lparr>os_open = {}, os_bad_closes = 0\<rparr>\<rparr>)
      [''--backend'', ''attokv'', ''--workload'', ''ping'', ''--warmup'', ''0'', ''--requests'', ''1'']
    = Some (Inr (0, [Out report]), ends)"
proof -
  let ?args = "[''--backend'', ''attokv'', ''--workload'', ''ping'', ''--warmup'', ''0'', ''--requests'', ''1'']"
  let ?o = "default_benchmark_options\<lparr>bo_backend := Some Backend_Attokv, bo_workload := Some Workload_Ping,
         bo_warmup := 0, bo_requests := 1, bo_port := 6337\<rparr>"
  let ?ping = "\<lparr>op_kind = Op_Ping, op_key = []\<rparr>" and ?is = "[0, 1] :: nat list"
  have "parse_size ''0'' 10000 = (True, 0)" "parse_size ''1'' 100000 = (True, 1)"
    by (simp_all add: parse_size_def parse_number_def from_chars_def is_digit_def decimal_def)
  then have parsed: "parse_options ?args default_benchmark_options = Inr (False, ?o)"
    by (simp add: default_benchmark_options_def parse_option_def parse_workload_def checked_def finish_options_def)
  have ops: "warmup_operations ?o = []" "measured_operations ?o = [?ping]" "nat (bo_clients ?o) = 1"
    by (simp_all add: warmup_operations_def measured_operations_def generate_operations_def Let_def
        case_prod_unfold default_benchmark_options_def)
  have asks: "prepared ?o [?ping] val = [(Flush, Done)]" "slices_of 1 [?ping] = [[?ping]]"
    "expected val [?ping] = [(Ping, Done)]" for val
    by (simp_all add: prepared_def prepared_keys_def slices_of_def expected_def op_request_def op_expected_def
        default_benchmark_options_def)
  obtain srv w where e: "server_reach srv w" "all_idle {..1} srv" "h_commands w = []" "length (m_clients srv) = 2"
    by (rule two_clients_example)
  have idle: "all_idle (set ?is) srv" using e(2) by auto
  define fds where "fds = map (\<lambda>i. cc_fd (m_clients srv ! i)) ?is"
  have "spec_command (ex_abs (w_executor w)) ''flush'' = Some (default_result\<lparr>res_output := ''OK''\<rparr>, Map.empty)"
    by (simp add: spec_command_def is_whitespace_def arity_def)
  from one_request [OF e(1) idle _ _ _ _ this, of 1] e(3) obtain srv1 w1 where
    1: "runs_to srv w srv1 w1" "server_reach srv1 w1" "all_idle (set ?is) srv1"
    "map (\<lambda>i. cc_fd (m_clients srv1 ! i)) ?is = fds" "exchanged srv w srv1 w1 fds [[], [''flush'']]"
    "length (h_commands w1) = 1"
    by (auto simp: fds_def numeral_2_eq_2)
  have "spec_command (ex_abs (w_executor w1)) ''ping'' = Some (default_result\<lparr>res_output := ''pong''\<rparr>, ex_abs (w_executor w1))"
    by (simp add: spec_command_def is_whitespace_def arity_def)
  from one_request [OF 1(2,3) _ _ _ _ this, of 0] 1(4,6) obtain srv' w' where
    2: "runs_to srv1 w1 srv' w'" "exchanged srv1 w1 srv' w' fds [[''ping''], []]" "length (h_commands w') = 2"
    by (auto simp: numeral_2_eq_2)
  have sent: "replicate 1 [] @ [lines_of (prepared ?o [?ping] val)] = [[], [''flush'']]"
    "map (\<lambda>part. lines_of (expected val part)) (slices_of 1 [?ping]) @ [[]] = [[''ping''], []]" for val
    unfolding asks(1,2) by (simp_all add: asks(3))
  have "phase_run ?o 1 [?ping] fds srv w srv' w'"
    unfolding phase_run_def sent
    using 1(1,5) 2(1,2) by (intro conjI exI [of _ srv1] exI [of _ w1]) (simp_all add: fds_def)
  then have served: "benchmark_served ?o fds srv w srv' w'"
    unfolding benchmark_served_def Let_def ops by (intro exI [of _ srv] exI [of _ w]) (simp only: simp_thms if_True)
  let ?calls = "\<lambda>i :: nat. \<lparr>cn_strerror = (\<lambda>_. []), cn_socket = int i, cn_socket_errno = 0,
       cn_inet_aton = (\<lambda>_. Some 0), cn_connect = (\<lambda>_. None), cn_setsockopt = (\<lambda>_. None)\<rparr>"
  let ?fresh = "\<lambda>i. \<lparr>se_object = client_new,
       se_link = \<lparr>ln_recv = map (\<lambda>c. Received [c]) (drop (length (w_sent w (fds ! i))) (w_sent w' (fds ! i))),
         ln_send = replicate 100 (Accepted 1), ln_sent = []\<rparr>,
       se_os = \<lparr>os_open = {}, os_bad_closes = 0\<rparr>\<rparr>"
  have "atto_connect (?calls i) (bo_host ?o) (bo_port ?o) (?fresh i) = Some (Inr (), connected (?calls i) (?fresh i))" for i
    by (simp add: atto_connect_fresh default_benchmark_options_def)
  moreover have acc: "accepts (replicate 100 (Accepted 1)) = 100" using accepts_replicate [of 100] by simp
  have "carries w w' (fds ! i) (benchmark_requests ?o i) (connected (?calls i) (?fresh i))" if "i \<le> 1" for i
  proof -
    have "benchmark_requests ?o i = [(if i = 1 then Flush else Ping, Done)]"
      using that ops asks slices_of_Nil [of 0 1]
      by (auto simp: benchmark_requests_def control_answers_def client_answers_def expected_def op_request_def
          op_expected_def Let_def le_Suc_eq)
    then show ?thesis using acc by (simp add: carries_def stream_bytes)
  qed
  ultimately have "\<forall>i \<le> nat (bo_clients ?o). atto_connect (?calls i) (bo_host ?o) (bo_port ?o) (?fresh i)
      = Some (Inr (), connected (?calls i) (?fresh i))
    \<and> carries w w' (fds ! i) (benchmark_requests ?o i) (connected (?calls i) (?fresh i))" using ops(3) by simp
  note benchmark_served_correct [OF parsed _ _ _ e(1) served _ this, of "\<lambda>_. []"]
  with e(1) served 2(3) show ?thesis unfolding fds_def
    by (simp add: default_benchmark_options_def MAX_MESSAGE_SIZE_def) blast
qed

end
