(* ===== verification/BenchmarkEnd.thy ===== *)
theory BenchmarkEnd
  imports BenchmarkRun
begin

text \<open>
  How the benchmark program ends (the destructors behind the \<open>main\<close> of benchmark/src/main.cpp): what its
  exit code says, and that every backend closes the descriptor that it has opened, on every path.
\<close>

section \<open>A socket that owns its descriptor\<close>

definition owns :: "socket \<Rightarrow> os \<Rightarrow> bool" where
  "owns s os \<longleftrightarrow> os = \<lparr>os_open = (if is_valid s then {m_fd s} else {}), os_bad_closes = 0\<rparr>"

lemma owns_new [simp]: "owns socket_new no_descriptors"
  by (simp add: owns_def is_valid_def socket_new_def)

lemma owns_destroy: "owns s os \<Longrightarrow> socket_destroy s os = no_descriptors"
  by (simp add: owns_def socket_destroy_def socket_reset_def close_fd_def is_valid_def)

lemma reset_client_owns:
  "owns (cl_socket cl) os \<Longrightarrow> reset_client cl os = (cl', os') \<Longrightarrow> owns (cl_socket cl') os'"
  by (auto simp: owns_def reset_client_def socket_reset_def close_fd_def is_valid_def split: if_splits)

lemma client_command_owns:
  assumes "client_command cl input lnk os = Some (res, cl', lnk', os')" and "owns (cl_socket cl) os"
  shows "owns (cl_socket cl') os'"
proof -
  from assms(1) have "(cl', os') = (cl, os) \<or> reset_client cl os = (cl', os')"
    by (auto simp: client_command_def Let_def split: option.splits sum.splits prod.splits)
  then show ?thesis using assms(2) reset_client_owns by auto
qed

lemma client_connect_owns:
  "client_connect calls host port client_new no_descriptors = (res, cl, os) \<Longrightarrow> owns (cl_socket cl) os"
  by (auto simp: client_connect_def owns_def client_new_def socket_new_def socket_of_def is_valid_def Let_def
      socket_move_assign_def socket_release_def socket_reset_def socket_destroy_def close_fd_def
      split: sum.splits option.splits if_splits)

lemma redis_connect_owns:
  "redis_connect calls host port socket_new no_descriptors = (res, s, os) \<Longrightarrow> owns s os"
  by (auto simp: redis_connect_def owns_def socket_new_def socket_of_def is_valid_def Let_def
      socket_move_assign_def socket_release_def socket_reset_def socket_destroy_def close_fd_def
      split: sum.splits option.splits if_splits)

section \<open>Backends that own what they open\<close>

lemma io_map_eq_Some: "io_map f m s = Some (r, s') \<longleftrightarrow> (\<exists>r0. m s = Some (r0, s') \<and> r = f r0)"
  by (auto simp: io_map_def)

lemma io_bindE:
  assumes "io_bind m f s = Some (r, s')"
  obtains e where "m s = Some (Inl e, s')" and "r = Inl e" | a s1 where "m s = Some (Inr a, s1)" and "f a s1 = Some (r, s')"
  using assms by (auto simp: io_bind_def split: option.splits sum.splits)

text \<open>
  The contract: in a fresh backend and after every operation, failed or not, the state is one (\<open>owned\<close>) in
  which the destructor closes all that the backend has opened.
\<close>

locale owning_backend =
  fixes be :: "'s backend" and fresh_state :: "'s \<Rightarrow> bool" and owned :: "'s \<Rightarrow> bool"
  assumes connects: "fresh_state s \<Longrightarrow> be_connect be calls host port s = Some (r, s') \<Longrightarrow> owned s'"
    and performs: "owned s \<Longrightarrow> perform be q s = Some (r', s') \<Longrightarrow> owned s'"
    and destroyed: "owned s \<Longrightarrow> be_destroy be s = no_descriptors"
begin

lemma operations_owned:
  "be_ping be s = Some (u, s') \<Longrightarrow> owned s \<Longrightarrow> owned s'"
  "be_flush be s = Some (u, s') \<Longrightarrow> owned s \<Longrightarrow> owned s'"
  "be_set be k v s = Some (u, s') \<Longrightarrow> owned s \<Longrightarrow> owned s'"
  "be_get be k s = Some (a, s') \<Longrightarrow> owned s \<Longrightarrow> owned s'"
  "be_remove be k s = Some (b, s') \<Longrightarrow> owned s \<Longrightarrow> owned s'"
  by (erule performs [of _ Ping], simp add: io_map_def) (erule performs [of _ Flush], simp add: io_map_def,
    erule performs [of _ "Set_Key k v"], simp add: io_map_def, erule performs [of _ "Get_Key k"], simp add: io_map_def,
    erule performs [of _ "Remove_Key k"], simp add: io_map_def)

lemma execute_owned: "execute be operation val s = Some (r, s') \<Longrightarrow> owned s \<Longrightarrow> owned s'"
  by (cases "op_kind operation") (auto simp: execute_def io_map_eq_Some dest: operations_owned)

lemma set_keys_owned: "set_keys be keys val s = Some (r, s') \<Longrightarrow> owned s \<Longrightarrow> owned s'"
  by (induction keys arbitrary: s) (auto elim!: io_bindE dest: operations_owned)

lemma prepare_owned: "prepare be options operations val s = Some (r, s') \<Longrightarrow> owned s \<Longrightarrow> owned s'"
  by (auto simp: prepare_def elim!: io_bindE dest: operations_owned set_keys_owned)

lemma run_worker_owned:
  "run_worker be val clock record_latency ops s = Some (latencies, e, s') \<Longrightarrow> owned s \<Longrightarrow> owned s'"
proof (induction ops arbitrary: s latencies)
  case (Cons iop ops)
  obtain i op where iop: "iop = (i, op)" by fastforce
  with Cons.prems(1) obtain r s1 where x: "execute be op val s = Some (r, s1)" by (auto split: option.splits)
  note owned = execute_owned [OF this Cons.prems(2)]
  show ?case
  proof (cases r)
    case (Inl e1)
    then show ?thesis using Cons.prems(1) iop x owned by simp
  next
    case (Inr u)
    then obtain more where "run_worker be val clock record_latency ops s1 = Some (more, e, s')"
      using Cons.prems(1) iop x by auto
    then show ?thesis using owned by (rule Cons.IH)
  qed
qed simp

lemma run_phase_owned:
  assumes "run_phase be sessions ops val timing record_latency = Some result" and "\<forall>s \<in> set sessions. owned s"
  shows "\<forall>s \<in> set (ph_sessions result). owned s"
proof -
  let ?runs = "zip (worker_slices (length sessions) (enumerate 0 ops) 0 0 (length sessions)) sessions"
  from assms(1) obtain outcomes where
    o: "those (map (\<lambda>(ops, s). run_worker be val (pt_latency timing) record_latency ops s) ?runs) = Some outcomes"
    "ph_sessions result = map (\<lambda>(latencies, e, s). s) outcomes"
    by (auto simp: run_phase_def)
  have owned: "\<forall>(ops, s) \<in> set ?runs. owned s" using assms(2) by (auto dest: set_zip_rightD)
  have "\<forall>(latencies, e, s) \<in> set outcomes. owned s"
    if "those (map (\<lambda>(ops, s). run_worker be val (pt_latency timing) record_latency ops s) runs) = Some outcomes"
      "\<forall>(ops, s) \<in> set runs. owned s" for runs outcomes
    using that by (induction runs arbitrary: outcomes) (fastforce split: option.splits dest: run_worker_owned)+
  from this [OF o(1) owned] show ?thesis using o(2) by auto
qed

lemma measure_owned:
  assumes "benchmark_measure be timing options ops val control sessions = Some (res, ends)"
    and "\<forall>s \<in> set (control # sessions). owned s"
  shows "\<forall>s \<in> set ends. owned s"
proof -
  from assms(1) obtain r control1 where p: "prepare be options ops val control = Some (r, control1)"
    by (auto simp: benchmark_measure_def split: option.splits)
  moreover have "owned control1" using prepare_owned [OF p] assms(2) by simp
  ultimately show ?thesis
    using assms run_phase_owned [of sessions ops val timing True] by (cases r) (auto simp: benchmark_measure_def)
qed

lemma run_owned:
  assumes "benchmark_run be timing options val warm ops control sessions = Some (res, ends)"
    and "\<forall>s \<in> set (control # sessions). owned s"
  shows "\<forall>s \<in> set ends. owned s"
proof (cases "warm = []")
  case True
  then show ?thesis using assms(1) by (intro measure_owned [OF _ assms(2)]) (simp add: benchmark_run_def)
next
  case False
  with assms(1) obtain r control1 where p: "prepare be options warm val control = Some (r, control1)"
    by (auto simp: benchmark_run_def split: option.splits)
  then have c: "owned control1" using assms(2) prepare_owned by auto
  show ?thesis
  proof (cases r)
    case (Inl e)
    then show ?thesis using assms p c False by (auto simp: benchmark_run_def)
  next
    case (Inr u)
    then obtain warmup where w: "run_phase be sessions warm val timing False = Some warmup"
      using assms(1) p False by (auto simp: benchmark_run_def split: option.splits)
    from run_phase_owned [OF w] have all: "\<forall>s \<in> set (control1 # ph_sessions warmup). owned s" using assms(2) c by simp
    show ?thesis
    proof (cases "ph_error warmup = []")
      case True
      then show ?thesis using assms(1) p w Inr False by (intro measure_owned [OF _ all]) (simp add: benchmark_run_def)
    next
      case error: False
      then have "ends = control1 # ph_sessions warmup" using assms(1) p w Inr False by (simp add: benchmark_run_def)
      then show ?thesis using all by simp
    qed
  qed
qed

lemma connect_owned:
  assumes "\<forall>i. fresh_state (fresh i)" and "connect_backends be calls fresh options i n = Some (res, sessions)"
  shows "\<forall>s \<in> set sessions. owned s"
  using assms(2)
proof (induction n arbitrary: i res sessions)
  case (Suc n)
  then obtain r s where c: "be_connect be (calls i) (bo_host options) (bo_port options) (fresh i) = Some (r, s)"
    by (auto split: option.splits)
  moreover have "owned s" using connects [OF _ c] assms(1) by simp
  ultimately show ?case using Suc by (cases r) fastforce+
qed simp

lemma start_owned:
  assumes "\<forall>i. fresh_state (fresh i)" and "benchmark_start be timing calls fresh options = Some (res, ends)"
  shows "\<forall>s \<in> set ends. owned s"
proof -
  let ?k = "nat (bo_clients options)"
  from assms(2) obtain r sessions where c: "connect_backends be calls fresh options 0 ?k = Some (r, sessions)"
    by (auto simp: benchmark_start_def Let_def split: option.splits)
  note owned = connect_owned [OF assms(1) c]
  show ?thesis
  proof (cases r)
    case (Inl e)
    then show ?thesis using assms(2) c owned by (simp add: benchmark_start_def Let_def)
  next
    case (Inr u)
    then obtain r1 control where
      k: "be_connect be (calls ?k) (bo_host options) (bo_port options) (fresh ?k) = Some (r1, control)"
      using assms(2) c by (auto simp: benchmark_start_def Let_def split: option.splits)
    have all: "\<forall>s \<in> set (control # sessions). owned s" using owned connects [OF _ k] assms(1) by simp
    then show ?thesis
      using assms(2) c Inr k run_owned [OF _ all]
      by (cases r1) (auto simp: benchmark_start_def Let_def)
  qed
qed

text \<open>All that is left of the descriptors when the program has ended.\<close>

lemma finish_closes:
  assumes "\<forall>i. fresh_state (fresh i)"
    and "map_option (benchmark_finish be) (benchmark_start be timing calls fresh options) = Some (res, oss)"
  shows "\<forall>os \<in> set oss. os = no_descriptors"
  using assms(2) start_owned [OF assms(1)] destroyed by (fastforce simp: benchmark_finish_def)

end

lemma atto_call_owns:
  "atto_call strerror input s = Some (r, s') \<Longrightarrow> owns (cl_socket (se_object s)) (se_os s) \<Longrightarrow>
    owns (cl_socket (se_object s')) (se_os s')"
  by (auto simp: atto_call_def split: option.splits dest: client_command_owns)

interpretation atto_owner: owning_backend "atto_backend strerror"
  "\<lambda>s. se_object s = client_new \<and> se_os s = no_descriptors" "\<lambda>s. owns (cl_socket (se_object s)) (se_os s)"
proof unfold_locales
  fix s s' q r'
  assume "owns (cl_socket (se_object s)) (se_os s)" and "perform (atto_backend strerror) q s = Some (r', s')"
  then show "owns (cl_socket (se_object s')) (se_os s')"
    by (cases q) (auto simp: atto_backend_def io_map_eq_Some atto_ping_def atto_flush_def atto_set_def
        atto_get_def atto_remove_def dest: atto_call_owns)
qed (auto simp: atto_backend_def atto_connect_def session_connect_def session_destroy_def client_destroy_def
    owns_destroy dest: client_connect_owns split: prod.splits)

lemma redis_command_owns:
  "redis_command strerror arguments s = Some (r, s') \<Longrightarrow> owns (se_object s) (se_os s) \<Longrightarrow>
    owns (se_object s') (se_os s')"
  by (auto simp: redis_command_def Let_def split: option.splits sum.splits)

interpretation redis_owner: owning_backend "redis_backend strerror"
  "\<lambda>s. se_object s = socket_new \<and> se_os s = no_descriptors" "\<lambda>s. owns (se_object s) (se_os s)"
proof unfold_locales
  fix s s' q r'
  assume "owns (se_object s) (se_os s)" and "perform (redis_backend strerror) q s = Some (r', s')"
  then show "owns (se_object s') (se_os s')"
    by (cases q) (auto simp: redis_backend_def io_map_eq_Some redis_ping_def redis_flush_def redis_set_def
        redis_get_def redis_remove_def dest: redis_command_owns)
qed (auto simp: redis_backend_def session_connect_def session_destroy_def owns_destroy
    dest: redis_connect_owns split: prod.splits)

text \<open>The exit code of the program from the options on.\<close>

lemma benchmark_finish_code:
  assumes "map_option (benchmark_finish be) started = Some (Inr (code, printed), oss)"
  shows "code = (if \<exists>e. Err e \<in> set printed then 1 else 0)"
proof -
  from assms obtain r where "benchmark_end r = Inr (code, printed)" by (auto simp: benchmark_finish_def)
  then show ?thesis by (cases r rule: benchmark_end.cases) (auto simp: bind_run_eq_Inr)
qed

text \<open>With a report, all connections are there at the end.\<close>

lemma those_length: "those xs = Some ys \<Longrightarrow> length ys = length xs"
  by (induction xs arbitrary: ys) (auto split: option.splits)

lemma run_phase_length:
  "run_phase be sessions ops val timing record_latency = Some result \<Longrightarrow>
    length (ph_sessions result) = length sessions"
  by (auto simp: run_phase_def dest!: those_length)

lemma measure_length:
  "benchmark_measure be timing options ops val control sessions = Some (Inr report, ends) \<Longrightarrow>
    length ends = Suc (length sessions)"
  by (auto simp: benchmark_measure_def split: option.splits sum.splits if_splits) (erule run_phase_length)

lemma run_length:
  "benchmark_run be timing options val warm ops control sessions = Some (Inr report, ends) \<Longrightarrow>
    length ends = Suc (length sessions)"
  by (auto simp: benchmark_run_def dest!: measure_length
      split: option.splits sum.splits if_splits) (erule run_phase_length)

lemma connect_length:
  "connect_backends be calls fresh options i n = Some (Inr u, sessions) \<Longrightarrow> length sessions = n"
  by (induction n arbitrary: i sessions) (auto split: option.splits sum.splits)

lemma benchmark_finish_length:
  assumes "map_option (benchmark_finish be) (benchmark_start be timing calls fresh options)
      = Some (Inr (0, printed), oss)"
  shows "length oss = Suc (nat (bo_clients options))"
proof -
  from assms obtain r ends where start: "benchmark_start be timing calls fresh options = Some (r, ends)"
    and r: "benchmark_end r = Inr (0, printed)" and oss: "oss = map (be_destroy be) ends"
    by (auto simp: benchmark_finish_def)
  from r obtain report where "r = Inr report" by (cases r rule: benchmark_end.cases) auto
  with start show ?thesis using oss
    by (auto simp: benchmark_start_def Let_def dest!: run_length connect_length split: option.splits sum.splits)
qed

section \<open>Property\<close>

text \<open>C34: however the benchmark program ends, after an error of its arguments, of a connection, of the
  preparation or of a phase, or with its report: every backend has closed the descriptor that it has opened,
  and closed it once; the exit code is 1 exactly when an error has been printed; and a report comes with one
  backend for each client and one for the control connection.\<close>

theorem benchmark_main_ends:
  assumes "benchmark_main strerror timing calls atto_fresh redis_fresh args = Some (Inr (code, printed), oss)"
    and "\<forall>i. se_object (atto_fresh i) = client_new \<and> se_os (atto_fresh i) = no_descriptors"
    and "\<forall>i. se_object (redis_fresh i) = socket_new \<and> se_os (redis_fresh i) = no_descriptors"
  shows "(\<forall>os \<in> set oss. os = no_descriptors) \<and> code = (if \<exists>e. Err e \<in> set printed then 1 else 0)
    \<and> (\<forall>o1. parse_options args default_benchmark_options = Inr (False, o1) \<and> code = 0 \<longrightarrow>
        length oss = Suc (nat (bo_clients o1)))"
proof -
  show ?thesis
  proof (cases "parse_options args default_benchmark_options")
    case (Inl e)
    then show ?thesis using assms(1) by (auto simp: benchmark_main_def)
  next
    case (Inr parsed)
    obtain help_only options where p: "parsed = (help_only, options)" by fastforce
    show ?thesis
    proof (cases help_only)
      case True
      then show ?thesis using assms(1) Inr p by (auto simp: benchmark_main_def benchmark_usage_def)
    next
      case False
      show ?thesis
      proof (cases "make_backend strerror (the (bo_backend options))")
        case (Inl be)
        then have be: "be = atto_backend strerror" by (simp add: make_backend_def split: if_splits)
        have run: "map_option (benchmark_finish be) (benchmark_start be timing calls atto_fresh options)
            = Some (Inr (code, printed), oss)" using assms(1) Inr p False Inl by (simp add: benchmark_main_def)
        then show ?thesis using atto_owner.finish_closes [OF assms(2) run [unfolded be]] benchmark_finish_code [OF run]
          benchmark_finish_length [of be timing calls atto_fresh options printed oss] run Inr p by auto
      next
        case right: (Inr be)
        then have be: "be = redis_backend strerror" by (simp add: make_backend_def split: if_splits)
        have run: "map_option (benchmark_finish be) (benchmark_start be timing calls redis_fresh options)
            = Some (Inr (code, printed), oss)" using assms(1) Inr p False right by (simp add: benchmark_main_def)
        then show ?thesis using redis_owner.finish_closes [OF assms(3) run [unfolded be]] benchmark_finish_code [OF run]
          benchmark_finish_length [of be timing calls redis_fresh options printed oss] run Inr p by auto
      qed
    qed
  qed
qed

text \<open>The server is not there: the socket of the first client is closed again.\<close>

theorem benchmark_main_ends_witness:
  "\<exists>oss. benchmark_main (\<lambda>_. []) \<lparr>pt_latency = (\<lambda>_. 7), pt_elapsed = 2000\<rparr>
      (\<lambda>_. \<lparr>cn_strerror = (\<lambda>_. ''Connection refused''), cn_socket = 3, cn_socket_errno = 0,
            cn_inet_aton = (\<lambda>_. Some 0), cn_connect = (\<lambda>_. Some 111), cn_setsockopt = (\<lambda>_. None)\<rparr>)
      (\<lambda>_. \<lparr>se_object = client_new, se_link = \<lparr>ln_recv = [], ln_send = [], ln_sent = []\<rparr>, se_os = no_descriptors\<rparr>)
      (\<lambda>_. \<lparr>se_object = socket_new, se_link = \<lparr>ln_recv = [], ln_send = [], ln_sent = []\<rparr>, se_os = no_descriptors\<rparr>)
      [''--backend'', ''attokv'', ''--workload'', ''ping'']
    = Some (Inr (1, [Err (''Failed to connect client 0: Failed to connect: Connection refused'' @ [LF])]), oss)
    \<and> oss = [no_descriptors]"
proof -
  let ?calls = "\<lambda>_. \<lparr>cn_strerror = (\<lambda>_. ''Connection refused''), cn_socket = 3, cn_socket_errno = 0,
            cn_inet_aton = (\<lambda>_. Some 0), cn_connect = (\<lambda>_. Some 111), cn_setsockopt = (\<lambda>_. None)\<rparr>"
  let ?link = "\<lparr>ln_recv = [], ln_send = [], ln_sent = []\<rparr>"
  let ?atto = "\<lambda>_. \<lparr>se_object = client_new, se_link = ?link, se_os = no_descriptors\<rparr>"
    and ?redis = "\<lambda>_. \<lparr>se_object = socket_new, se_link = ?link, se_os = no_descriptors\<rparr>"
  let ?args = "[''--backend'', ''attokv'', ''--workload'', ''ping'']"
  let ?o = "default_benchmark_options\<lparr>bo_backend := Some Backend_Attokv, bo_workload := Some Workload_Ping, bo_port := 6337\<rparr>"
  have parsed: "parse_options ?args default_benchmark_options = Inr (False, ?o)"
    by (simp add: default_benchmark_options_def parse_option_def parse_workload_def checked_def finish_options_def)
  have d: "digits 0 = ''0''" by code_simp
  have one: "nat (bo_clients ?o) = Suc 0" by (simp add: default_benchmark_options_def)
  have "\<exists>s. be_connect (atto_backend (\<lambda>_. [])) (?calls i) (bo_host ?o) (bo_port ?o) (?atto j)
      = Some (Inl ''Failed to connect: Connection refused'', s)" for i j :: nat
    by (simp add: atto_backend_def atto_connect_def session_connect_def client_connect_def Let_def make_sockaddr_def
        socket_of_def is_valid_def default_benchmark_options_def case_prod_unfold)
  then obtain s where c: "be_connect (atto_backend (\<lambda>_. [])) (?calls 0) (bo_host ?o) (bo_port ?o) (?atto 0)
      = Some (Inl ''Failed to connect: Connection refused'', s)" by blast
  have "benchmark_start (atto_backend (\<lambda>_. [])) timing ?calls ?atto ?o
      = Some (Inl ''Failed to connect client 0: Failed to connect: Connection refused'', [s])" for timing
    unfolding benchmark_start_def Let_def one connect_backends.simps c by (simp add: d)
  then have run: "benchmark_main (\<lambda>_. []) \<lparr>pt_latency = (\<lambda>_. 7), pt_elapsed = 2000\<rparr> ?calls ?atto ?redis ?args
      = Some (Inr (1, [Err (''Failed to connect client 0: Failed to connect: Connection refused'' @ [LF])]),
          [be_destroy (atto_backend (\<lambda>_. [])) s])"
    unfolding benchmark_main_def parsed by (simp add: make_backend_def benchmark_finish_def)
  from benchmark_main_ends [OF run] show ?thesis using run by simp
qed

end
