(* ===== verification/Spec2Isabelle.thy ===== *)
theory Spec2Isabelle
  imports WholeBenchmark BenchmarkEnd
begin

text \<open>
  A verification library of AttoKV, a key-value server with its client and its benchmark (C++, under
  src/).  The library models the programs from their \<open>main\<close> functions down to the bytes of the string
  arena, and proves them correct against one abstract specification, the map from keys to values.

  \<^bold>\<open>The parts and how they interact.\<close>  The server polls a listening socket and its connections.  A
  connection reads length-prefixed messages; each message is one command, which the executor tokenizes,
  checks and runs on the store; the reply goes back as one message.  The store is a hash table
  with open addressing whose keys and values are references into an arena of blocks.  The client sends
  the lines of its input one by one and prints the replies.  The benchmark drives AttoKV or Redis
  through one interface and reports latencies.

  \<^bold>\<open>Theories and sources\<close>, in the order of their imports:

    \<^item> \<open>AttoPrelude\<close>: machine integers, undefined behaviour as a value (\<open>fault\<close>, \<open>run\<close>), \<open>memcpy\<close> and
      \<open>memset\<close> on byte buffers.  \<open>StringHeap\<close>: the contract of a store of strings.
    \<^item> \<open>StringArena\<close>: server/src/string_arena.cpp and its header.  The record \<open>string_arena\<close> has the
      blocks of \<open>StringArena\<close>, a reference is \<open>string_ref\<close>; \<open>arena_store\<close>, \<open>overwrite\<close>, \<open>arena_remove\<close>,
      \<open>arena_view\<close>, \<open>compact_into\<close> are the methods.  The interpretation \<open>heap\<close> shows the contract.
    \<^item> \<open>FnvHash\<close>, \<open>MapTable\<close>, \<open>KVInterface\<close>, \<open>FastMap\<close>: server/src/map.cpp and its header: the hash, the
      probing of the table, \<open>resize\<close>; \<open>fm_get\<close>, \<open>fm_set\<close>, \<open>fm_remove\<close>, \<open>fm_clear\<close> are the methods of
      \<open>FastMap\<close>.  The locale \<open>kv_map\<close> is the contract of a map, which \<open>FastMap\<close> and \<open>Store\<close> keep.
    \<^item> \<open>Store\<close>, \<open>Command\<close>, \<open>Executor\<close>: server/src/store.cpp, command.cpp, executor.cpp: the builtins with
      their table, the tokenizer, the dispatch; \<open>spec_command\<close> is what a command does to the map.
    \<^item> \<open>Network\<close>, \<open>Message\<close>: lib/src/message.cpp: results of \<open>recv\<close> and \<open>send\<close> as scripts, the resumable
      reader and writer, the blocking variants.  \<open>Console\<close>: what the programs print.  \<open>Socket\<close>: lib/src/socket.cpp and util.cpp, over the set
      of the open descriptors of the process.
    \<^item> \<open>Server\<close>: server/src/server.cpp.  The record \<open>server\<close> has the fields of \<open>Server\<close>, the record
      \<open>world\<close> what is outside of it; \<open>server_iteration\<close> is one turn of the loop of \<open>Server::run\<close>.
    \<^item> \<open>Client\<close>: client/src/client.cpp.  \<open>CharConv\<close>: \<open>std::from_chars\<close> and the decimal numbers of
      \<open>std::format\<close>.  \<open>CommandLine\<close>: server/src/main.cpp and client/src/main.cpp.
      The fields of \<open>world\<close> whose names begin with \<open>h_\<close> are a record of what has happened (commands with
      their results, replies, the requests and the bytes of each connection), which no operation reads.
      The locale \<open>connection_invariant\<close> says when a property of the connections, kept by every single
      operation on one of them, holds in all reachable states.
    \<^item> \<open>EndToEnd\<close>: clients and a server, one request after the other (\<open>serve_schedule\<close>).  \<open>ServerRun\<close>: the
      whole of \<open>Server::run\<close> over its turns, the server program from its arguments to what it prints and its
      exit code (\<open>server_program\<close>), and where undefined behaviour of the server comes from.
      \<open>ServerHistory\<close>: the one order in which the requests of all connections take effect.
      \<open>ServerStage\<close>: the stretch of a run between two states in which some connections are at rest
      (\<open>runs_to\<close>, any number of calls of \<open>server_loop\<close>), and what it has exchanged on them.
    \<^item> \<open>RedisProtocol\<close>, \<open>Backends\<close>: benchmark/src/redis_backend.cpp and attokv_backend.cpp; the abstract
      class \<open>Backend\<close> is the record \<open>backend\<close>, its promise the locale \<open>backend_contract\<close>, which both
      implementations keep.  \<open>RandomEngine\<close>: \<open>std::mt19937_64\<close>.  \<open>Doubles\<close>: the non-negative \<open>double\<close>s
      (significand and exponent, round to nearest even), their division and \<open>std::format\<close> with a fixed
      number of decimals.  \<open>Benchmark\<close>, \<open>BenchmarkRun\<close>: benchmark/src/main.cpp, and its properties; there a
      phase runs its workers one after the other.  \<open>BenchmarkThreads\<close>: the threads of \<open>run_phase\<close> with
      their three barriers, as steps in any order.  \<open>ServedBenchmark\<close>: a phase of the benchmark and the
      server together, for one given order of the requests.  \<open>WholeBenchmark\<close>: the whole program against a
      run of the server (\<open>benchmark_served\<close>), in which all workers send at the same time.  \<open>BenchmarkEnd\<close>:
      the ends of the program and its destructors; the locale \<open>owning_backend\<close> says that a backend owns
      what it opens, and both backends do.

  \<^bold>\<open>How the code is modelled.\<close>  State is passed explicitly, in records with the fields of the classes.
  Fields of type \<open>uint32_t\<close> and \<open>uint64_t\<close> are words; a \<open>size_t\<close> that counts objects in memory is a
  natural number, and arithmetic on it that can wrap around is done on 64-bit words.  Undefined
  behaviour and failed assertions are values of \<open>fault\<close>; an error of \<open>std::expected\<close> is \<open>Inl\<close>; a call
  that waits for input that never comes is \<open>None\<close>.  What the kernel does is an argument: for every
  descriptor, a list of results of \<open>recv\<close> and of \<open>send\<close> (pieces of any size, errors, interruptions, the
  end of the stream); for every iteration, the result of \<open>poll\<close> and of \<open>accept\<close>; the results of
  \<open>socket\<close>, \<open>inet_aton\<close>, \<open>connect\<close>, \<open>fcntl\<close> and \<open>setsockopt\<close>.  A loop over input consumes its script, so
  that every definition is total and no fuel is needed.

  \<^bold>\<open>What the lemmas show.\<close>

    \<^item> The arena: a stored string is read back, other strings stay as they are, compaction preserves all
      strings.  \<open>overwrite\<close> by a shorter string is undefined behaviour (the size difference wraps).
    \<^item> The hash: on ASCII keys it is FNV-1a, written down from its publication and not from the code.
    \<^item> The map: a representation invariant (probe paths without gaps, distinct live keys, valid and
      disjoint references) that every operation keeps; \<open>get\<close>, \<open>set\<close>, \<open>remove\<close> and \<open>clear\<close> are those of a
      map, through growth and rebuilding of the arena; a probe ends.
    \<^item> The executor: every command, and every session of commands, refines \<open>spec_command\<close>, errors
      included.  The one undefined case, a value replaced by a shorter one, is exactly \<open>shrinks\<close>.
    \<^item> The messages: \<open>read_from\<close> and \<open>write_to\<close> may stop and resume anywhere; what was queued is what the
      other side reads, in order.
    \<^item> The server: \<open>server_reach\<close> are its reachable states, by any results of \<open>poll\<close>, \<open>accept\<close>, \<open>recv\<close> and
      \<open>send\<close>.  In all of them the commands of all connections have taken effect one after the other on the
      abstract map, each connection is sent the results of exactly its own requests, in their order, and
      no descriptor is leaked or closed twice.  Between two states at rest, the requests of each
      connection take effect in an order that interleaves the connections (\<open>stage_order\<close>).  An
      iteration only faults in a request of a connection (\<open>request_of\<close>) that, behind the requests the
      iteration takes before it (\<open>requests_between\<close>), replaces a value by a shorter one.
    \<^item> Client and server: \<open>remote_session_correct\<close> below.
    \<^item> The benchmark: the options are in range, no operation is lost between the workers, the workloads
      expect what a correct store answers in any order of the operations, both backends give the answers
      of the server, and the program runs to its report, whose percentiles are nearest ranks and whose
      printed figures are right up to stated rounding errors.  Its threads cannot deadlock, and in any
      order of their steps a phase has the result of the sequential workers.  Against the modelled server
      the whole program ends with exit code 0 and its report, however the requests of the workers arrive.
    \<^item> The three programs: they end with exit code 1 exactly when they have printed an error, and leave no
      descriptor open (the server has one per connection, and one to listen, until it exits).

  \<^bold>\<open>Bounds.\<close>  References have 32 bits, so that arguments are shorter than \<open>str_limit\<close> and a session has
  fewer than \<open>2 ^ 31\<close> commands (each command can add two to \<open>fm_budget\<close>, the number of blocks that the
  32-bit block index must hold).  Messages have at most \<open>MAX_MESSAGE_SIZE\<close> bytes, and longer ones are
  refused on both sides.  A percentile of \<open>n\<close> latencies needs \<open>n * 100 + 99 < 2 ^ 64\<close>.

  The figures of the report are exact for times below \<open>2 ^ 52\<close> nanoseconds.

  \<^bold>\<open>Not modelled.\<close>  Failures of allocation: the memory is unlimited.  The memory
  model of C++: the threads of the benchmark share only the barriers, each of which is one atomic
  counter.  The tests (src/tests) and the CMake files, which are not part of the programs.
\<close>

section \<open>Client and server together\<close>

text \<open>C1: client and server together, end to end: on a connection between two requests of any
  reachable server, with any number of other connections, a client session sends its lines as frames,
  the server answers every one of them in two iterations of its loop, and the client prints a prompt
  for every line and exactly the replies that the abstract key-value map gives to the lines, in order, however the bytes of both
  directions are cut up on their way.\<close>

theorem remote_session_correct:
  assumes "server_reach srv w" and "idle i srv"
    and "2 * (length (h_commands w) + length lines) < 4294967296"
    and "spec_commands (ex_abs (w_executor w)) lines = Some (rs, \<sigma>)"
    and "\<forall>r \<in> set rs. \<not> res_stop r \<and> length (res_output r) \<le> MAX_MESSAGE_SIZE"
    and "\<forall>line \<in> set lines. length line \<le> MAX_MESSAGE_SIZE"
    and "list_all2 (\<lambda>(rx, tx) line. \<exists>s rest. stream rx = (frame line, s, rest)) scripts lines"
    and "list_all2 (\<lambda>(rx, tx) r. 4 + length (res_output r) \<le> accepts tx) scripts rs"
    and "length (concat (map frame lines)) \<le> accepts (ln_send lnk)"
    and "stream (ln_recv lnk) = (concat (map (\<lambda>r. frame (res_output r)) rs) @ later, s, rest)"
  shows "\<exists>srv' w' lnk'. serve_session i scripts srv w = Inr (Some (Continue srv' w')) \<and> server_reach srv' w'
    \<and> ex_abs (w_executor w') = \<sigma>
    \<and> w_sent w' (cc_fd (m_clients srv ! i))
        = w_sent w (cc_fd (m_clients srv ! i)) @ concat (map (\<lambda>r. frame (res_output r)) rs)
    \<and> client_session strerror cl lines lnk os = Some (0, transcript (map res_output rs), cl, lnk', os)
    \<and> ln_sent lnk' = ln_sent lnk @ concat (map frame lines)"
  using assms by (rule session_end_to_end)

theorem remote_session_correct_witness:
  "\<exists>srv w scripts lnk srv' w' lnk'. server_reach srv w
    \<and> serve_session 0 scripts srv w = Inr (Some (Continue srv' w'))
    \<and> ex_abs (w_executor w') = [''a'' \<mapsto> ''1'']
    \<and> client_session (\<lambda>_. []) client_new [''set a 1'', ''get a''] lnk \<lparr>os_open = {}, os_bad_closes = 0\<rparr>
        = Some (0, [prompt, reply_line ''OK'', prompt, reply_line ''1'', prompt], client_new, lnk', \<lparr>os_open = {}, os_bad_closes = 0\<rparr>)"
proof -
  obtain srv w where e: "server_reach srv w" "idle 0 srv" "h_commands w = []"
    "ex_abs (w_executor w) = Map.empty" "w_sent w (cc_fd (m_clients srv ! 0)) = []"
    "length (m_clients srv) = 1"
    by (rule idle_example)
  let ?lines = "[''set a 1'', ''get a'']"
  let ?rs = "[default_result\<lparr>res_output := ''OK''\<rparr>, default_result\<lparr>res_output := ''1''\<rparr>]"
  let ?scripts = "map (\<lambda>line. ([Received (frame line)], replicate 100 (Accepted 1))) ?lines"
  let ?lnk = "\<lparr>ln_recv = [Received (concat (map (\<lambda>r. frame (res_output r)) ?rs))],
    ln_send = replicate 100 (Accepted 1), ln_sent = []\<rparr>"
  have a: "accepts (replicate 100 (Accepted 1)) = 100" using accepts_replicate [of 100] by simp
  have spec: "spec_commands (ex_abs (w_executor w)) ?lines = Some (?rs, [''a'' \<mapsto> ''1''])"
    unfolding e(4) by (simp add: spec_command_def is_whitespace_def arity_def shrinks_def)
  have "stream (ln_recv ?lnk) = (concat (map (\<lambda>r. frame (res_output r)) ?rs) @ [], Exhausted, [])"
    by (simp add: frame_def)
  from remote_session_correct [OF e(1,2) _ spec _ _ _ _ _ this, of ?scripts "\<lambda>_. []" client_new
      "\<lparr>os_open = {}, os_bad_closes = 0\<rparr>"] a e(3)
  have "\<exists>srv' w' lnk'. serve_session 0 ?scripts srv w = Inr (Some (Continue srv' w')) \<and> server_reach srv' w'
    \<and> ex_abs (w_executor w') = [''a'' \<mapsto> ''1'']
    \<and> w_sent w' (cc_fd (m_clients srv ! 0))
        = w_sent w (cc_fd (m_clients srv ! 0)) @ concat (map (\<lambda>r. frame (res_output r)) ?rs)
    \<and> client_session (\<lambda>_. []) client_new ?lines ?lnk \<lparr>os_open = {}, os_bad_closes = 0\<rparr>
        = Some (0, transcript (map res_output ?rs), client_new, lnk', \<lparr>os_open = {}, os_bad_closes = 0\<rparr>)
    \<and> ln_sent lnk' = ln_sent ?lnk @ concat (map frame ?lines)"
    by (simp add: default_result_def MAX_MESSAGE_SIZE_def)
  moreover have "transcript (map res_output ?rs) = [prompt, reply_line ''OK'', prompt, reply_line ''1'', prompt]" by simp
  ultimately show ?thesis using e(1) by metis
qed

end
